(* ===== verification/Prelude.thy ===== *)
theory Prelude
  imports Main "HOL-Library.Word"
begin

text \<open>
  Shared vocabulary of the development: machine-integer names, the result type of code that
  may throw or leave the defined language, the collections of simplification rules the
  component theories use, and generic facts on lists and association lists.
\<close>

named_theorems fsm_simps \<open>unfolding rules of the state machine's operations\<close>
named_theorems frame_rules \<open>what an operation leaves unchanged\<close>

type_synonym u32 = "32 word"
type_synonym u64 = "64 word"

subsection \<open>Outcomes of C++ code\<close>

text \<open>
  The exceptions the modelled code throws.  \<open>XmlException\<close> is \<open>xml::Exception\<close>
  (dice/xmlparser.hpp), the others are the standard library's.
\<close>

datatype cpp_exn = XmlException | InvalidArgument | OutOfRange | BadVariantAccess

text \<open>
  \<open>Ok\<close> is a normal return, \<open>Throw\<close> an exception, and \<open>Undef\<close> an execution that reads
  outside the object it points into, for which C++ defines no result.
\<close>

datatype 'a outcome = Ok 'a | Throw cpp_exn | Undef

fun obind :: "'a outcome \<Rightarrow> ('a \<Rightarrow> 'b outcome) \<Rightarrow> 'b outcome" where
  "obind (Ok a) f = f a"
| "obind (Throw e) f = Throw e"
| "obind Undef f = Undef"

lemma obind_eq_Ok: "obind m f = Ok b \<longleftrightarrow> (\<exists>a. m = Ok a \<and> f a = Ok b)"
  by (cases m) auto

subsection \<open>Lists and association lists\<close>

lemma map_of_eq_None_keys: "map_of xs k = None \<longleftrightarrow> k \<notin> fst ` set xs"
  by (simp add: map_of_eq_None_iff)

lemma set_takeWhile_stop:
  "y \<notin> set xs \<Longrightarrow> takeWhile (\<lambda>c. c \<noteq> y) (xs @ y # ys) = xs"
  by (induction xs) auto

lemma dropWhile_stop:
  "(\<forall>x \<in> set xs. P x) \<Longrightarrow> \<not> P y \<Longrightarrow> dropWhile P (xs @ y # ys) = y # ys"
  by (induction xs) auto

lemma takeWhile_stop:
  "(\<forall>x \<in> set xs. P x) \<Longrightarrow> \<not> P y \<Longrightarrow> takeWhile P (xs @ y # ys) = xs"
  by (induction xs) auto

lemma map_filter_append:
  "List.map_filter f (xs @ ys) = List.map_filter f xs @ List.map_filter f ys"
  by (induction xs) (auto simp: map_filter_simps split: option.split)

subsection \<open>Key-value tables\<close>

text \<open>
  The laws a standard-library map gives its clients: lookup after insert-or-assign and after
  erase, and an invariant of the representation that both keep.
\<close>

locale table =
  fixes lookup :: "'m \<Rightarrow> 'k \<Rightarrow> 'v option"
    and assign :: "'k \<Rightarrow> 'v \<Rightarrow> 'm \<Rightarrow> 'm"
    and erase :: "'k \<Rightarrow> 'm \<Rightarrow> 'm"
    and invar :: "'m \<Rightarrow> bool"
  assumes lookup_assign: "invar m \<Longrightarrow> lookup (assign k v m) = (lookup m)(k \<mapsto> v)"
    and lookup_erase: "invar m \<Longrightarrow> lookup (erase k m) = (lookup m)(k := None)"
    and invar_assign: "invar m \<Longrightarrow> invar (assign k v m)"
    and invar_erase: "invar m \<Longrightarrow> invar (erase k m)"
begin

definition keys :: "'m \<Rightarrow> 'k set" where
  "keys m = dom (lookup m)"

lemma keys_assign: "invar m \<Longrightarrow> keys (assign k v m) = insert k (keys m)"
  by (simp add: keys_def lookup_assign)

lemma keys_erase: "invar m \<Longrightarrow> keys (erase k m) = keys m - {k}"
  by (simp add: keys_def lookup_erase)

lemma assign_erase: "invar m \<Longrightarrow> lookup (erase k (assign k v m)) = lookup (erase k m)"
  by (simp add: lookup_assign lookup_erase invar_assign)

lemma assign_other: "invar m \<Longrightarrow> k \<noteq> l \<Longrightarrow> lookup (assign k v m) l = lookup m l"
  by (simp add: lookup_assign)

lemma erase_other: "invar m \<Longrightarrow> k \<noteq> l \<Longrightarrow> lookup (erase k m) l = lookup m l"
  by (simp add: lookup_erase)

end

text \<open>
  Hash maps that are only accessed by key: association lists with distinct keys.  A new key goes
  to the end, so the list order is one order an unordered container may iterate in.
\<close>

fun al_assign :: "'k \<Rightarrow> 'v \<Rightarrow> ('k \<times> 'v) list \<Rightarrow> ('k \<times> 'v) list" where
  "al_assign k v [] = [(k, v)]"
| "al_assign k v (p # ps) = (if fst p = k then (k, v) # ps else p # al_assign k v ps)"

definition al_erase :: "'k \<Rightarrow> ('k \<times> 'v) list \<Rightarrow> ('k \<times> 'v) list" where
  "al_erase k ps = filter (\<lambda>p. fst p \<noteq> k) ps"

definition al_wf :: "('k \<times> 'v) list \<Rightarrow> bool" where
  "al_wf ps \<longleftrightarrow> distinct (map fst ps)"

lemma al_assign_keys [simp]: "fst ` set (al_assign k v ps) = insert k (fst ` set ps)"
  by (induction ps) auto

lemma map_of_al_assign: "map_of (al_assign k v ps) = (map_of ps)(k \<mapsto> v)"
  by (induction ps) (auto simp: fun_eq_iff)

lemma al_wf_assign: "al_wf ps \<Longrightarrow> al_wf (al_assign k v ps)"
  unfolding al_wf_def
proof (induction ps)
  case (Cons p ps)
  then show ?case using al_assign_keys[of k v ps] by auto
qed simp

lemma al_erase_keys [simp]: "fst ` set (al_erase k ps) = fst ` set ps - {k}"
  by (auto simp: al_erase_def)

lemma map_of_al_erase: "map_of (al_erase k ps) = (map_of ps)(k := None)"
  by (induction ps) (auto simp: al_erase_def fun_eq_iff)

lemma al_wf_erase: "al_wf ps \<Longrightarrow> al_wf (al_erase k ps)"
  by (simp add: al_wf_def al_erase_def distinct_map_filter)

interpretation al: table map_of al_assign al_erase al_wf
  by unfold_locales (simp_all add: map_of_al_assign map_of_al_erase al_wf_assign al_wf_erase)

lemma al_assign_fresh: "k \<notin> fst ` set ps \<Longrightarrow> al_assign k v ps = ps @ [(k, v)]"
  by (induction ps) auto

lemma al_assign_snoc: "k \<notin> fst ` set ps \<Longrightarrow> al_assign k v (ps @ [(k, w)]) = ps @ [(k, v)]"
  by (induction ps) auto

lemma al_erase_notin: "k \<notin> fst ` set ps \<Longrightarrow> al_erase k ps = ps"
  by (auto simp: al_erase_def intro!: filter_True)

text \<open>
  \<open>std::map\<close>: association lists in strictly ascending key order.  \<open>sm_assign\<close> is
  \<open>insert_or_assign\<close> and \<open>operator[]\<close> followed by an assignment, \<open>sm_insert\<close> is \<open>insert\<close>, which keeps
  an element that is already there; \<open>erase\<close> is \<open>al_erase\<close>.
\<close>

fun sm_assign :: "'k::linorder \<Rightarrow> 'v \<Rightarrow> ('k \<times> 'v) list \<Rightarrow> ('k \<times> 'v) list" where
  "sm_assign k v [] = [(k, v)]"
| "sm_assign k v (p # ps) =
     (if k < fst p then (k, v) # p # ps
      else if k = fst p then (k, v) # ps
      else p # sm_assign k v ps)"

definition sm_insert :: "'k::linorder \<Rightarrow> 'v \<Rightarrow> ('k \<times> 'v) list \<Rightarrow> ('k \<times> 'v) list" where
  "sm_insert k v ps = (if k \<in> fst ` set ps then ps else sm_assign k v ps)"

definition sm_wf :: "('k::linorder \<times> 'v) list \<Rightarrow> bool" where
  "sm_wf ps \<longleftrightarrow> sorted_wrt (<) (map fst ps)"

lemma sm_assign_keys [simp]: "fst ` set (sm_assign k v ps) = insert k (fst ` set ps)"
  by (induction ps) auto

lemma sm_insert_keys [simp]: "fst ` set (sm_insert k v ps) = insert k (fst ` set ps)"
  by (auto simp: sm_insert_def insert_absorb)

lemma sm_wf_assign: "sm_wf ps \<Longrightarrow> sm_wf (sm_assign k v ps)"
  unfolding sm_wf_def
proof (induction ps)
  case (Cons p ps)
  then show ?case using sm_assign_keys[of k v ps] by (auto simp: image_iff)
qed simp

lemma sm_wf_erase: "sm_wf ps \<Longrightarrow> sm_wf (al_erase k ps)"
  by (simp add: sm_wf_def al_erase_def sorted_wrt_map sorted_wrt_filter)

lemma map_of_sm_assign: "sm_wf ps \<Longrightarrow> map_of (sm_assign k v ps) = (map_of ps)(k \<mapsto> v)"
  unfolding sm_wf_def by (induction ps) (auto simp: fun_eq_iff)

interpretation sm: table map_of sm_assign al_erase sm_wf
  by unfold_locales (simp_all add: map_of_sm_assign map_of_al_erase sm_wf_assign sm_wf_erase)

lemma sm_wf_insert: "sm_wf ps \<Longrightarrow> sm_wf (sm_insert k v ps)"
  by (simp add: sm_insert_def sm_wf_assign)

lemma sm_wf_al_wf: "sm_wf ps \<Longrightarrow> al_wf ps"
  unfolding sm_wf_def al_wf_def by (induction ps) auto

text \<open>Two maps with the same keys hold them at the same positions.\<close>

lemma sm_wf_keys_unique:
  "sm_wf ps \<Longrightarrow> sm_wf qs \<Longrightarrow> fst ` set ps = fst ` set qs \<Longrightarrow> map fst ps = map fst qs"
  using strict_sorted_equal[of "map fst ps" "map fst qs"] by (simp add: sm_wf_def)

end
