(* ===== verification/Dice.thy ===== *)
theory Dice
  imports Prelude
begin

text \<open>
  The dice vocabulary of include/dice and dice/engine.cpp: casts (a variant of eight vector
  types, one per die), requests, responses and the negotiation messages, the counting of
  successes and the random engine.
\<close>

subsection \<open>Casts\<close>

text \<open>
  \<open>dice::Cast\<close> is \<open>std::variant<D4, ..., D100>\<close>, each alternative a vector of
  \<open>SimpleValue<MIN, MAX>\<close>, a wrapped \<open>uint32_t\<close> that is 0 until it is assigned.
\<close>

datatype cast =
    D4 "u32 list" | D6 "u32 list" | D8 "u32 list" | D10 "u32 list"
  | D12 "u32 list" | D16 "u32 list" | D20 "u32 list" | D100 "u32 list"

fun cast_index :: "cast \<Rightarrow> nat" where
  "cast_index (D4 _) = 0"
| "cast_index (D6 _) = 1"
| "cast_index (D8 _) = 2"
| "cast_index (D10 _) = 3"
| "cast_index (D12 _) = 4"
| "cast_index (D16 _) = 5"
| "cast_index (D20 _) = 6"
| "cast_index (D100 _) = 7"

text \<open>\<open>D::MIN\<close> and \<open>D::MAX\<close> of the alternative a cast holds.\<close>

definition cast_min :: "cast \<Rightarrow> u32" where
  "cast_min c = 1"

fun cast_max :: "cast \<Rightarrow> u32" where
  "cast_max (D4 _) = 4"
| "cast_max (D6 _) = 6"
| "cast_max (D8 _) = 8"
| "cast_max (D10 _) = 10"
| "cast_max (D12 _) = 12"
| "cast_max (D16 _) = 16"
| "cast_max (D20 _) = 20"
| "cast_max (D100 _) = 100"

text \<open>\<open>Cast::Apply\<close> with a reading visitor: the vector the variant holds.\<close>

fun cast_vals :: "cast \<Rightarrow> u32 list" where
  "cast_vals (D4 v) = v"
| "cast_vals (D6 v) = v"
| "cast_vals (D8 v) = v"
| "cast_vals (D10 v) = v"
| "cast_vals (D12 v) = v"
| "cast_vals (D16 v) = v"
| "cast_vals (D20 v) = v"
| "cast_vals (D100 v) = v"

text \<open>\<open>Cast::Apply\<close> with a visitor that assigns the elements.\<close>

fun cast_update :: "(u32 list \<Rightarrow> u32 list) \<Rightarrow> cast \<Rightarrow> cast" where
  "cast_update f (D4 v) = D4 (f v)"
| "cast_update f (D6 v) = D6 (f v)"
| "cast_update f (D8 v) = D8 (f v)"
| "cast_update f (D10 v) = D10 (f v)"
| "cast_update f (D12 v) = D12 (f v)"
| "cast_update f (D16 v) = D16 (f v)"
| "cast_update f (D20 v) = D20 (f v)"
| "cast_update f (D100 v) = D100 (f v)"

abbreviation cast_size :: "cast \<Rightarrow> nat" where
  "cast_size c \<equiv> length (cast_vals c)"

lemma cast_vals_update [simp]: "cast_vals (cast_update f c) = f (cast_vals c)"
  by (cases c) auto

lemma cast_index_update [simp]: "cast_index (cast_update f c) = cast_index c"
  by (cases c) auto

lemma cast_max_update [simp]: "cast_max (cast_update f c) = cast_max c"
  by (cases c) auto

lemma cast_update_update [simp]: "cast_update f (cast_update g c) = cast_update (f \<circ> g) c"
  by (cases c) auto

text \<open>A cast is determined by its alternative and its values.\<close>

lemma cast_eqI: "cast_index c = cast_index d \<Longrightarrow> cast_vals c = cast_vals d \<Longrightarrow> c = d"
  by (cases c; cases d) auto

subsection \<open>Making and naming casts (dice/serializer.cpp)\<close>

definition make_cast :: "string \<Rightarrow> nat \<Rightarrow> cast outcome" where
  "make_cast ty n =
     (if ty = ''D4'' then Ok (D4 (replicate n 0))
      else if ty = ''D6'' then Ok (D6 (replicate n 0))
      else if ty = ''D8'' then Ok (D8 (replicate n 0))
      else if ty = ''D10'' then Ok (D10 (replicate n 0))
      else if ty = ''D12'' then Ok (D12 (replicate n 0))
      else if ty = ''D16'' then Ok (D16 (replicate n 0))
      else if ty = ''D20'' then Ok (D20 (replicate n 0))
      else if ty = ''D100'' then Ok (D100 (replicate n 0))
      else Throw InvalidArgument)"

fun type_to_string :: "cast \<Rightarrow> string" where
  "type_to_string (D4 _) = ''D4''"
| "type_to_string (D6 _) = ''D6''"
| "type_to_string (D8 _) = ''D8''"
| "type_to_string (D10 _) = ''D10''"
| "type_to_string (D12 _) = ''D12''"
| "type_to_string (D16 _) = ''D16''"
| "type_to_string (D20 _) = ''D20''"
| "type_to_string (D100 _) = ''D100''"

lemma make_cast_type_to_string:
  "make_cast (type_to_string c) n = Ok (cast_update (\<lambda>_. replicate n 0) c)"
  by (cases c) (auto simp: make_cast_def)

lemma make_cast_not_Undef [simp]: "make_cast ty n \<noteq> Undef"
  by (simp add: make_cast_def)

lemma make_cast_Ok:
  "make_cast ty n = Ok c \<Longrightarrow> type_to_string c = ty \<and> cast_vals c = replicate n 0"
  by (auto simp: make_cast_def split: if_splits)

subsection \<open>Counting successes (dice/engine.cpp)\<close>

fun success_counter :: "u32 \<Rightarrow> u32 list \<Rightarrow> nat \<Rightarrow> nat" where
  "success_counter threshold [] count = count"
| "success_counter threshold (value # cast) count =
     success_counter threshold cast (if threshold \<le> value then Suc count else count)"

definition get_success_count :: "cast \<Rightarrow> u32 \<Rightarrow> nat" where
  "get_success_count c threshold = success_counter threshold (cast_vals c) 0"

lemma success_counter_filter:
  "success_counter t vs n = n + length (filter (\<lambda>v. t \<le> v) vs)"
  by (induction t vs n rule: success_counter.induct) auto

subsection \<open>The random engine (dice/engine.cpp)\<close>

text \<open>
  \<open>std::uniform_int_distribution<uint32_t>(lo, hi)\<close> turns generator output into a value of
  the closed interval.  The generator is external randomness: \<open>raw i\<close> is what it yields for
  the \<open>i\<close>-th die of one call, an arbitrary function, and every value of the interval is the
  image of some raw word.
\<close>

definition uniform_int :: "u32 \<Rightarrow> u32 \<Rightarrow> u32 \<Rightarrow> u32" where
  "uniform_int lo hi raw = lo + raw mod (hi - lo + 1)"

definition generate_result :: "(nat \<Rightarrow> u32) \<Rightarrow> cast \<Rightarrow> cast" where
  "generate_result raw c =
     cast_update
       (\<lambda>vs. sort (map (\<lambda>i. uniform_int (cast_min c) (cast_max c) (raw i)) [0..<length vs])) c"

subsection \<open>Messages (include/dice/serializer.hpp)\<close>

record request =
  rq_cast :: cast
  rq_threshold :: "u32 option"

record response =
  rs_cast :: cast
  rs_successCount :: "u64 option"

record hello =
  hl_mac :: string

record offer =
  of_mac :: string
  of_round :: u32

text \<open>What \<open>ISerializer::Deserialize\<close> returns: a variant of the four message types.\<close>

datatype message =
    MHello hello | MOffer offer | MRequest request | MResponse response

subsection \<open>Properties\<close>

lemma uniform_int_range:
  assumes "lo \<le> hi" "hi < - 1"
  shows "lo \<le> uniform_int lo hi r \<and> uniform_int lo hi r \<le> hi"
proof -
  define n where "n = uint hi - uint lo + 1"
  have b: "uint lo \<le> uint hi" "uint hi < 2 ^ 32 - 1" "0 \<le> uint lo"
    using assms by (simp_all add: word_le_def word_less_def unsigned_minus_1_eq_mask mask_eq_exp_minus_1)
  then have n: "0 < n" "n < 2 ^ 32" "n \<le> uint hi + 1 - uint lo" unfolding n_def by linarith+
  have d: "0 \<le> uint hi - uint lo" "uint hi - uint lo < 2 ^ 32" using b by linarith+
  have "uint (hi - lo + 1) = ((uint hi - uint lo) mod 2 ^ 32 + 1) mod 2 ^ 32"
    by (simp add: uint_word_ariths)
  also have "\<dots> = n" using d n unfolding mod_pos_pos_trivial[OF d] n_def by (intro mod_pos_pos_trivial) linarith+
  finally have m: "uint (hi - lo + 1) = n" .
  define q where "q = uint r mod n"
  have q: "0 \<le> q" "q < n" using n by (simp_all add: q_def)
  have "uint (r mod (hi - lo + 1)) = q" by (simp only: uint_mod m q_def)
  then have "uint (uniform_int lo hi r) = (uint lo + q) mod 2 ^ 32"
    unfolding uniform_int_def uint_word_ariths by simp
  also have "\<dots> = uint lo + q" using b n q by (intro mod_pos_pos_trivial) linarith+
  finally show ?thesis using n q by (simp add: word_le_def)
qed

lemma cast_max_bounds: "1 \<le> cast_max c \<and> cast_max c < - 1"
  by (cases c) auto

lemma generate_result_range:
  "set (cast_vals (generate_result raw c)) \<subseteq> {cast_min c..cast_max c}"
proof -
  have "uniform_int (cast_min c) (cast_max c) (raw i) \<in> {cast_min c..cast_max c}" for i
    using uniform_int_range[of "cast_min c" "cast_max c" "raw i"] cast_max_bounds[of c]
    by (simp add: cast_min_def)
  then show ?thesis by (auto simp: generate_result_def)
qed

lemma generate_result_size: "cast_size (generate_result raw c) = cast_size c"
  by (simp add: generate_result_def)

text \<open>
  C37. \<open>GenerateResult\<close> keeps the die and the number of values of a cast, and makes every value one
  the die can show, in ascending order, whatever the random device yields.
\<close>

theorem generate_result_spec:
  "cast_index (generate_result raw c) = cast_index c \<and>
   cast_size (generate_result raw c) = cast_size c \<and>
   sorted (cast_vals (generate_result raw c)) \<and>
   set (cast_vals (generate_result raw c)) \<subseteq> {cast_min c..cast_max c}"
  using generate_result_range[of raw c] by (simp add: generate_result_def)

text \<open>
  The number of successes is the number of dice that show at least the threshold; it is at
  most the number of dice, and a threshold of at most 1 counts every die of a generated cast.
\<close>

theorem success_count_spec:
  "get_success_count c t = length (filter (\<lambda>v. t \<le> v) (cast_vals c)) \<and>
   get_success_count c t \<le> cast_size c \<and>
   get_success_count (generate_result raw c) 1 = cast_size c"
proof -
  have "filter (\<lambda>v. 1 \<le> v) (cast_vals (generate_result raw c)) = cast_vals (generate_result raw c)"
    using generate_result_range[of raw c] by (intro filter_True) (auto simp: cast_min_def)
  then show ?thesis by (simp add: get_success_count_def success_counter_filter generate_result_size)
qed

subsection \<open>Engines\<close>

text \<open>
  What \<open>StatePlaying\<close> relies on when it calls \<open>IEngine::GenerateResult\<close>: the die and the size stay.
\<close>

locale engine =
  fixes gen :: "nat \<Rightarrow> cast \<Rightarrow> cast"
  assumes gen_index: "cast_index (gen n c) = cast_index c"
    and gen_size: "cast_size (gen n c) = cast_size c"
begin

lemma gen_empty: "cast_vals c = [] \<Longrightarrow> gen n c = c"
  using gen_index[of n c] gen_size[of n c] by (intro cast_eqI) auto

lemma gen_type: "type_to_string (gen n c) = type_to_string c"
  using gen_index[of n c] by (cases c; cases "gen n c") auto

end

interpretation uniform: engine "\<lambda>n. generate_result (raw n)" for raw
  by unfold_locales (simp_all add: generate_result_def)

end
