(* ===== verification/Cmd_Types.thy ===== *)
theory Cmd_Types
  imports Dice
begin

text \<open>
  The command vocabulary of include/sign/cmd.hpp and sign/commands.hpp: the commands with their
  parameters, their identifiers, the two dictionaries that say which invoker a command goes to,
  and the response codes.
\<close>

subsection \<open>Response codes (include/sign/cmd.hpp)\<close>

text \<open>
  A response arrives from the other side of the bridge as an arbitrary \<open>int64_t\<close> that the code
  casts to the command's enum without a check, so responses are integers and the enumerators
  are constants.
\<close>

type_synonym rcode = int

abbreviation R_OK :: rcode where "R_OK \<equiv> 0"
abbreviation R_INVALID_STATE :: rcode where "R_INVALID_STATE \<equiv> - 1"
abbreviation R_INTEROP_FAILURE :: rcode where "R_INTEROP_FAILURE \<equiv> - 2"
abbreviation R_BLUETOOTH_OFF :: rcode where "R_BLUETOOTH_OFF \<equiv> 2"
abbreviation R_LISTEN_FAILED :: rcode where "R_LISTEN_FAILED \<equiv> 3"
abbreviation R_CONNECTION_NOT_FOUND :: rcode where "R_CONNECTION_NOT_FOUND \<equiv> 4"
abbreviation R_NO_BT_ADAPTER :: rcode where "R_NO_BT_ADAPTER \<equiv> 5"
abbreviation R_USER_DECLINED :: rcode where "R_USER_DECLINED \<equiv> 6"
abbreviation R_SOCKET_ERROR :: rcode where "R_SOCKET_ERROR \<equiv> 7"

definition rcode_to_string :: "rcode \<Rightarrow> string" where
  "rcode_to_string code =
     (if code = R_OK then ''OK''
      else if code = R_INVALID_STATE then ''INVALID_STATE''
      else if code = R_INTEROP_FAILURE then ''INTEROP_FAILURE''
      else if code = R_BLUETOOTH_OFF then ''BLUETOOTH_OFF''
      else if code = R_LISTEN_FAILED then ''LISTEN_FAILED''
      else if code = R_CONNECTION_NOT_FOUND then ''CONNECTION_NOT_FOUND''
      else if code = R_NO_BT_ADAPTER then ''NO_BT_ADAPTER''
      else if code = R_USER_DECLINED then ''USER_DECLINED''
      else if code = R_SOCKET_ERROR then ''SOCKET_ERROR''
      else ''Unknown'')"

subsection \<open>Commands (sign/commands.hpp)\<close>

text \<open>One constructor per command, its parameters in the order of its traits.\<close>

datatype command =
    StartListening string string int      \<comment> \<open>uuid, name, discoverability duration in seconds\<close>
  | StartDiscovery string string bool     \<comment> \<open>uuid, name, include paired\<close>
  | StopListening
  | StopDiscovery
  | CloseConnection string string         \<comment> \<open>error message, remote mac address\<close>
  | EnableBluetooth
  | NegotiationStart
  | NegotiationStop string                \<comment> \<open>nominee name\<close>
  | SendMessage string string             \<comment> \<open>message, remote mac address\<close>
  | SendLongMessage string string         \<comment> \<open>message, remote mac address\<close>
  | ShowAndExit string
  | ShowToast string int                  \<comment> \<open>text, duration in seconds\<close>
  | ShowNotification string
  | ShowRequest string nat u32 string     \<comment> \<open>type, size, threshold (0 = not set), name\<close>
  | ShowResponse cast string int string   \<comment> \<open>numbers, type, success count (-1 = not set), name\<close>
  | ShowLongResponse cast string int string
  | ResetGame
  | ResetConnections

definition COMMAND_ID :: "int \<Rightarrow> int" where
  "COMMAND_ID i = i * 256"

text \<open>The identifiers of the traits, written with the macro \<open>COMMAND_ID\<close> as in the source.\<close>

fun cmd_id :: "command \<Rightarrow> int" where
  "cmd_id (StartListening _ _ _) = COMMAND_ID 100"
| "cmd_id (StartDiscovery _ _ _) = COMMAND_ID 101"
| "cmd_id StopListening = COMMAND_ID 102"
| "cmd_id StopDiscovery = COMMAND_ID 103"
| "cmd_id (CloseConnection _ _) = COMMAND_ID 104"
| "cmd_id EnableBluetooth = COMMAND_ID 105"
| "cmd_id NegotiationStart = COMMAND_ID 106"
| "cmd_id (NegotiationStop _) = COMMAND_ID 107"
| "cmd_id (SendMessage _ _) = COMMAND_ID 108"
| "cmd_id (SendLongMessage _ _) = COMMAND_ID 108"
| "cmd_id (ShowAndExit _) = COMMAND_ID 109"
| "cmd_id (ShowToast _ _) = COMMAND_ID 110"
| "cmd_id (ShowNotification _) = COMMAND_ID 111"
| "cmd_id (ShowRequest _ _ _ _) = COMMAND_ID 112"
| "cmd_id (ShowResponse _ _ _ _) = COMMAND_ID 113"
| "cmd_id (ShowLongResponse _ _ _ _) = COMMAND_ID 113"
| "cmd_id ResetGame = COMMAND_ID 114"
| "cmd_id ResetConnections = COMMAND_ID 115"

text \<open>The concept \<open>BtCommand\<close>: membership in \<open>internal::BtDictionary\<close>.\<close>

fun bt_command :: "command \<Rightarrow> bool" where
  "bt_command EnableBluetooth = True"
| "bt_command (StartListening _ _ _) = True"
| "bt_command (StartDiscovery _ _ _) = True"
| "bt_command StopListening = True"
| "bt_command StopDiscovery = True"
| "bt_command (CloseConnection _ _) = True"
| "bt_command (SendMessage _ _) = True"
| "bt_command (SendLongMessage _ _) = True"
| "bt_command ResetConnections = True"
| "bt_command _ = False"

text \<open>The concept \<open>UiCommand\<close>: membership in \<open>internal::UiDictionary\<close>.\<close>

fun ui_command :: "command \<Rightarrow> bool" where
  "ui_command NegotiationStart = True"
| "ui_command (NegotiationStop _) = True"
| "ui_command (ShowAndExit _) = True"
| "ui_command (ShowToast _ _) = True"
| "ui_command (ShowNotification _) = True"
| "ui_command (ShowRequest _ _ _ _) = True"
| "ui_command (ShowResponse _ _ _ _) = True"
| "ui_command (ShowLongResponse _ _ _ _) = True"
| "ui_command ResetGame = True"
| "ui_command _ = False"

text \<open>
  Every command belongs to exactly one dictionary, so the overloads of
  \<open>CommandAdapter::Command\<close> never clash.
\<close>

lemma ui_iff_not_bt: "ui_command c \<longleftrightarrow> \<not> bt_command c"
  by (cases c) auto

lemma cmd_id_bounds: "COMMAND_ID 100 \<le> cmd_id c \<and> cmd_id c \<le> COMMAND_ID 115"
  by (cases c) (auto simp: COMMAND_ID_def)

lemma cmd_id_aligned: "256 dvd cmd_id c"
  by (cases c) (auto simp: COMMAND_ID_def)

text \<open>Commands that share an identifier share the window of identifiers, others never do.\<close>

lemma cmd_id_windows_disjoint:
  assumes "cmd_id c \<le> i" "i < cmd_id c + 256" "cmd_id d \<le> i" "i < cmd_id d + 256"
  shows "cmd_id c = cmd_id d"
proof -
  obtain k where k: "cmd_id c = 256 * k" using cmd_id_aligned[of c] by (rule dvdE)
  obtain l where l: "cmd_id d = 256 * l" using cmd_id_aligned[of d] by (rule dvdE)
  have "k < l + 1" "l < k + 1" using assms unfolding k l by linarith+
  then show ?thesis by (simp add: k l)
qed

end
