(* ===== verification/Cmd_Manager.thy ===== *)
theory Cmd_Manager
  imports Cmd_Types
begin

text \<open>
  \<open>cmd::Manager\<close> of sign/commandmanager.cpp: the table of commands that wait for a response, the
  choice of a free identifier, the hand-over to the external invoker, and the routing of a
  response to the coroutine that awaits it.  Coroutine handles are a type parameter.
\<close>

subsection \<open>State\<close>

record 'k cmd_data =
  cd_callback :: "'k option"
  cd_response :: rcode

text \<open>
  \<open>m_pendingCmds\<close> is an \<open>unordered_map<int32_t, CommandData>\<close> that is only accessed by key, so an
  association list with distinct keys.  \<open>mg_calls\<close> counts the calls of
  \<open>IExternalInvoker::Invoke\<close> and \<open>mg_sent\<close> records the ones that were accepted, oldest first.
\<close>

record ('k, 'c) id_manager =
  mg_pending :: "(int \<times> 'k cmd_data) list"
  mg_calls :: nat
  mg_sent :: "(int \<times> 'c) list"

text \<open>The manager of the program; the echo controller has commands of its own.\<close>

type_synonym 'k manager = "('k, command) id_manager"

definition manager_init :: "('k, 'c) id_manager" where
  "manager_init = \<lparr>mg_pending = [], mg_calls = 0, mg_sent = []\<rparr>"

abbreviation used_ids :: "(int \<times> 'a) list \<Rightarrow> int set" where
  "used_ids p \<equiv> fst ` set p"

definition INVALID_CMD_ID :: int where
  "INVALID_CMD_ID = 0"

text \<open>\<open>CommandData{}\<close>: no callback yet, and the response a discarded command would read.\<close>

definition cmd_data_init :: "'k cmd_data" where
  "cmd_data_init = \<lparr>cd_callback = None, cd_response = R_INTEROP_FAILURE\<rparr>"

subsection \<open>Choosing an identifier\<close>

lemma next_free_id_measure:
  assumes "i \<in> used_ids p"
  shows "length (filter (\<lambda>e. i + 1 \<le> fst e) p) < length (filter (\<lambda>e. i \<le> fst e) p)"
proof -
  from assms obtain v where mem: "(i, v) \<in> set p" by auto
  have "filter (\<lambda>e. i + 1 \<le> fst e) p = filter (\<lambda>e. i + 1 \<le> fst e) (filter (\<lambda>e. i \<le> fst e) p)"
    by (auto intro: filter_cong)
  moreover have "(i, v) \<in> set (filter (\<lambda>e. i \<le> fst e) p)" using mem by simp
  ultimately show ?thesis
    by (metis (no_types, lifting) fst_conv length_filter_less not_less_iff_gr_or_eq zless_add1_eq leD)
qed

text \<open>The loop \<open>while (m_pendingCmds.count(id)) ++id;\<close> of \<open>IssueCommand\<close>.\<close>

function next_free_id :: "(int \<times> 'a) list \<Rightarrow> int \<Rightarrow> int" where
  "next_free_id p i = (if i \<in> used_ids p then next_free_id p (i + 1) else i)"
  by pat_completeness auto

termination next_free_id
  by (relation "measure (\<lambda>(p, i). length (filter (\<lambda>e. i \<le> fst e) p))")
     (simp_all add: next_free_id_measure del: add_le_same_cancel1)

declare next_free_id.simps [simp del]

subsection \<open>Operations\<close>

text \<open>
  \<open>Manager::IssueCommand\<close>, for a command \<open>c\<close> whose \<open>GetId\<close> is \<open>base\<close>.  \<open>accept n\<close> is what the \<open>n\<close>-th
  call of the external invoker returns.  The result is the identifier of the \<open>FutureResponse\<close>.
\<close>

definition issue ::
  "(nat \<Rightarrow> bool) \<Rightarrow> int \<Rightarrow> 'c \<Rightarrow> ('k, 'c) id_manager \<Rightarrow> int \<times> ('k, 'c) id_manager" where
  "issue accept base c m =
     (let i = next_free_id (mg_pending m) base in
      if i - base \<ge> COMMAND_ID 1 then (INVALID_CMD_ID, m)
      else
        let m1 = m\<lparr>mg_calls := Suc (mg_calls m)\<rparr> in
        if \<not> accept (mg_calls m) then (INVALID_CMD_ID, m1)
        else (i, m1\<lparr>mg_sent := mg_sent m1 @ [(i, c)],
                    mg_pending := al_assign i cmd_data_init (mg_pending m1)\<rparr>))"

text \<open>\<open>GetId\<close> of the commands of the program is the identifier of their traits.\<close>

definition issue_command ::
  "(nat \<Rightarrow> bool) \<Rightarrow> command \<Rightarrow> 'k manager \<Rightarrow> int \<times> 'k manager" where
  "issue_command accept c m = issue accept (cmd_id c) c m"

lemmas issue_defs = issue_command_def issue_def

text \<open>
  \<open>FutureResponse::await_ready\<close>, \<open>await_suspend\<close> and \<open>await_resume\<close>.  \<open>None\<close> is the abort of the
  assertion in \<open>await_suspend\<close>, which is compiled into every build of this file.
\<close>

definition await_ready :: "int \<Rightarrow> bool" where
  "await_ready i \<longleftrightarrow> i = INVALID_CMD_ID"

definition await_suspend :: "int \<Rightarrow> 'k \<Rightarrow> ('k, 'c) id_manager \<Rightarrow> ('k, 'c) id_manager option" where
  "await_suspend i h m =
     (case map_of (mg_pending m) i of
        None \<Rightarrow> None
      | Some d \<Rightarrow>
          Some (m\<lparr>mg_pending := al_assign i (d\<lparr>cd_callback := Some h\<rparr>) (mg_pending m)\<rparr>))"

definition await_resume :: "int \<Rightarrow> ('k, 'c) id_manager \<Rightarrow> rcode" where
  "await_resume i m =
     (case map_of (mg_pending m) i of None \<Rightarrow> R_INTEROP_FAILURE | Some d \<Rightarrow> cd_response d)"

text \<open>
  \<open>Manager::SubmitResponse\<close> in its three steps: \<open>submit_store\<close> writes the response into the entry
  and yields the callback, the caller runs the callback while the entry is still in the
  table, and \<open>submit_erase\<close> removes the entry.  \<open>None\<close> is the early return for an unknown
  identifier.
\<close>

definition submit_store :: "int \<Rightarrow> rcode \<Rightarrow> ('k, 'c) id_manager \<Rightarrow> ('k option \<times> ('k, 'c) id_manager) option" where
  "submit_store i r m =
     (case map_of (mg_pending m) i of
        None \<Rightarrow> None
      | Some d \<Rightarrow>
          Some (cd_callback d,
                m\<lparr>mg_pending := al_assign i (d\<lparr>cd_response := r\<rparr>) (mg_pending m)\<rparr>))"

definition submit_erase :: "int \<Rightarrow> ('k, 'c) id_manager \<Rightarrow> ('k, 'c) id_manager" where
  "submit_erase i m = m\<lparr>mg_pending := al_erase i (mg_pending m)\<rparr>"

text \<open>
  \<open>Manager::~Manager\<close>: while the table is not empty, the callback of the first entry is resumed
  (it reads \<open>INTEROP_FAILURE\<close> unless a response was stored) and the entry erased.  \<open>resume\<close> is what
  the resumed coroutine does to the manager; entries it adds are drained too, so the loop runs
  on fuel.
\<close>

fun manager_drain ::
  "('k \<Rightarrow> rcode \<Rightarrow> ('k, 'c) id_manager \<Rightarrow> ('k, 'c) id_manager) \<Rightarrow> nat \<Rightarrow> ('k, 'c) id_manager \<Rightarrow> ('k, 'c) id_manager option" where
  "manager_drain resume fuel m =
     (case mg_pending m of
        [] \<Rightarrow> Some m
      | (i, d) # _ \<Rightarrow>
          (case fuel of
             0 \<Rightarrow> None
           | Suc fuel' \<Rightarrow>
               (let m1 = (case cd_callback d of
                            None \<Rightarrow> m
                          | Some h \<Rightarrow> resume h (await_resume i m) m)
                in manager_drain resume fuel' (submit_erase i m1))))"

declare manager_drain.simps [simp del]

subsection \<open>The identifier pool\<close>

text \<open>
  What the manager promises about a fresh identifier, whatever the table: it is the least one
  that is not in use from the command's base on.
\<close>

locale id_pool =
  fixes used :: "'p \<Rightarrow> int set"
    and alloc :: "'p \<Rightarrow> int \<Rightarrow> int"
  assumes alloc_ge: "b \<le> alloc p b"
    and alloc_free: "alloc p b \<notin> used p"
    and alloc_least: "b \<le> i \<Longrightarrow> i < alloc p b \<Longrightarrow> i \<in> used p"
begin

lemma alloc_eq_base: "b \<notin> used p \<Longrightarrow> alloc p b = b"
  using alloc_ge[of b p] alloc_least[of b b p] by (cases "alloc p b = b") auto

lemma alloc_in_window: "alloc p b < b + n \<longleftrightarrow> (\<exists>i. b \<le> i \<and> i < b + n \<and> i \<notin> used p)"
  using alloc_ge alloc_free alloc_least by (metis not_less dual_order.strict_trans2)

lemma alloc_full: "b + n \<le> alloc p b \<longleftrightarrow> {b..<b + n} \<subseteq> used p"
  using alloc_in_window[of p b n] by (auto simp: subset_iff not_less)

lemma alloc_unique:
  "b \<le> i \<Longrightarrow> i \<notin> used p \<Longrightarrow> (\<And>j. b \<le> j \<Longrightarrow> j < i \<Longrightarrow> j \<in> used p) \<Longrightarrow> alloc p b = i"
  using alloc_ge alloc_free alloc_least by (metis linorder_less_linear)

end

lemma next_free_id_least:
  "i \<le> next_free_id p i \<and> next_free_id p i \<notin> used_ids p \<and>
   (\<forall>j. i \<le> j \<longrightarrow> j < next_free_id p i \<longrightarrow> j \<in> used_ids p)"
proof (induction p i rule: next_free_id.induct)
  case (1 p i)
  show ?case
  proof (cases "i \<in> used_ids p")
    case True
    have step: "next_free_id p i = next_free_id p (i + 1)"
      using True by (simp add: next_free_id.simps [of p i])
    have "j \<in> used_ids p" if "i \<le> j" "j < next_free_id p (i + 1)" for j
      using that True 1 by (cases "j = i") auto
    with 1 True step show ?thesis by auto
  next
    case False
    then show ?thesis by (auto simp: next_free_id.simps [of p i])
  qed
qed

interpretation ids: id_pool used_ids next_free_id
  using next_free_id_least by unfold_locales blast+

subsection \<open>Invariant\<close>

text \<open>
  Identifiers are distinct and each lies in the window of 256 identifiers of some command, so
  \<open>INVALID_CMD_ID\<close> is never pending.
\<close>

definition in_window :: "command \<Rightarrow> int \<Rightarrow> bool" where
  "in_window c i \<longleftrightarrow> cmd_id c \<le> i \<and> i < cmd_id c + COMMAND_ID 1"

definition manager_inv :: "('k, 'c) id_manager \<Rightarrow> bool" where
  "manager_inv m \<longleftrightarrow>
     al_wf (mg_pending m) \<and> (\<forall>i \<in> used_ids (mg_pending m). \<exists>c. in_window c i)"

lemma in_window_not_invalid: "in_window c i \<Longrightarrow> i \<noteq> INVALID_CMD_ID"
  using cmd_id_bounds[of c] by (auto simp: in_window_def INVALID_CMD_ID_def COMMAND_ID_def)

lemma manager_inv_init: "manager_inv manager_init"
  by (simp add: manager_inv_def manager_init_def al_wf_def)

lemma invalid_not_pending: "manager_inv m \<Longrightarrow> INVALID_CMD_ID \<notin> used_ids (mg_pending m)"
  unfolding manager_inv_def using in_window_not_invalid by blast

subsection \<open>Issuing\<close>

text \<open>The three ways \<open>IssueCommand\<close> ends.\<close>

lemma issue_command_cases:
  obtains (full) "{cmd_id c..<cmd_id c + COMMAND_ID 1} \<subseteq> used_ids (mg_pending m)"
      "issue_command acc c m = (INVALID_CMD_ID, m)"
  | (refused) "\<not> acc (mg_calls m)"
      "issue_command acc c m = (INVALID_CMD_ID, m\<lparr>mg_calls := Suc (mg_calls m)\<rparr>)"
  | (sent) i where "acc (mg_calls m)" "in_window c i" "i \<notin> used_ids (mg_pending m)"
      "issue_command acc c m =
         (i, m\<lparr>mg_calls := Suc (mg_calls m), mg_sent := mg_sent m @ [(i, c)],
               mg_pending := al_assign i cmd_data_init (mg_pending m)\<rparr>)"
proof -
  let ?i = "next_free_id (mg_pending m) (cmd_id c)"
  consider "?i - cmd_id c \<ge> COMMAND_ID 1" | "?i - cmd_id c < COMMAND_ID 1" by linarith
  then show thesis
  proof cases
    case 1
    then show thesis
      using ids.alloc_full[of "cmd_id c" "COMMAND_ID 1" "mg_pending m"]
      by (intro full) (simp_all add: issue_defs Let_def)
  next
    case 2
    then have "in_window c ?i"
      using ids.alloc_ge by (simp add: in_window_def)
    then show thesis
      using 2 ids.alloc_free refused sent
      by (cases "acc (mg_calls m)") (auto simp: issue_defs Let_def)
  qed
qed

lemma issue_command_inv: "manager_inv m \<Longrightarrow> manager_inv (snd (issue_command acc c m))"
  by (rule issue_command_cases [of c m acc]) (auto simp: manager_inv_def al.invar_assign)

lemma manager_inv_assign:
  assumes "manager_inv m" and "i \<in> used_ids (mg_pending m)"
  shows "manager_inv (m\<lparr>mg_pending := al_assign i d (mg_pending m)\<rparr>)"
  using assms unfolding manager_inv_def by (simp add: al.invar_assign insert_absorb del: ball_simps)

text \<open>An accepted command is appended to the table, a refused one leaves it alone.\<close>

lemma issue_command_ctx:
  assumes "issue_command acc c m = (i, m')" and "\<not> await_ready i"
  shows "i \<notin> used_ids (mg_pending m)" 
    and "mg_pending m' = mg_pending m @ [(i, cmd_data_init)]"
    and "mg_sent m' = mg_sent m @ [(i, c)]"
  by (rule issue_command_cases [of c m acc]; use assms in \<open>simp add: await_ready_def al_assign_fresh\<close>)+

lemma issue_command_not_ctx:
  assumes "issue_command acc c m = (i, m')" and "await_ready i"
  shows "mg_pending m' = mg_pending m \<and> mg_sent m' = mg_sent m"
  by (rule issue_command_cases [of c m acc])
    (use assms in_window_not_invalid in \<open>auto simp: await_ready_def\<close>)

text \<open>
  \<open>issues acc m m'\<close>: between \<open>m\<close> and \<open>m'\<close> commands were only issued, and the accepted ones are as many
  as the calls the invokers accepted.
\<close>

definition issues :: "(nat \<Rightarrow> bool) \<Rightarrow> ('k, 'c) id_manager \<Rightarrow> ('k, 'c) id_manager \<Rightarrow> bool" where
  "issues acc m m' \<longleftrightarrow>
     mg_calls m \<le> mg_calls m' \<and>
     (\<exists>new. mg_sent m' = mg_sent m @ new \<and> length new = length (filter acc [mg_calls m..<mg_calls m']))"

lemma issues_same: "mg_calls m' = mg_calls m \<Longrightarrow> mg_sent m' = mg_sent m \<Longrightarrow> issues acc m m'"
  by (simp add: issues_def)

lemma issues_cong:
  "mg_calls n = mg_calls m \<Longrightarrow> mg_sent n = mg_sent m \<Longrightarrow> issues acc n m' = issues acc m m'"
  "mg_calls n' = mg_calls m' \<Longrightarrow> mg_sent n' = mg_sent m' \<Longrightarrow> issues acc m n' = issues acc m m'"
  by (simp_all add: issues_def)

lemma issues_trans:
  assumes "issues acc m n" "issues acc n k"
  shows "issues acc m k"
proof -
  have "[mg_calls m..<mg_calls k] = [mg_calls m..<mg_calls n] @ [mg_calls n..<mg_calls k]"
    using assms upt_add_eq_append[of "mg_calls m" "mg_calls n" "mg_calls k - mg_calls n"]
    by (simp add: issues_def)
  with assms show ?thesis by (auto simp: issues_def)
qed

lemma issues_issue_command: "issues acc m (snd (issue_command acc c m))"
  by (rule issue_command_cases[of c m acc]) (auto simp: issues_def)

text \<open>The assertion in \<open>await_suspend\<close> holds right after the command was issued.\<close>

lemma await_suspend_after_issue:
  assumes "issue_command acc c m = (i, m')" and "\<not> await_ready i"
  shows "await_suspend i h m' =
    Some (m'\<lparr>mg_pending := al_assign i (cmd_data_init\<lparr>cd_callback := Some h\<rparr>) (mg_pending m')\<rparr>)"
  by (rule issue_command_cases [of c m acc])
     (use assms in \<open>auto simp: await_suspend_def await_ready_def map_of_al_assign\<close>)

lemma await_suspend_inv: "await_suspend i h m = Some m' \<Longrightarrow> manager_inv m \<Longrightarrow> manager_inv m'"
  using manager_inv_assign[of m i]
  by (auto simp: await_suspend_def domI dom_map_of_conv_image_fst[symmetric] split: option.splits)

lemma submit_store_inv: "submit_store i r m = Some (h, m') \<Longrightarrow> manager_inv m \<Longrightarrow> manager_inv m'"
  using manager_inv_assign[of m i]
  by (auto simp: submit_store_def domI dom_map_of_conv_image_fst[symmetric] split: option.splits)

lemma submit_erase_inv: "manager_inv m \<Longrightarrow> manager_inv (submit_erase i m)"
  by (auto simp: submit_erase_def manager_inv_def al.invar_erase)

text \<open>The resumed coroutine reads the response that was submitted.\<close>

lemma await_resume_after_store:
  "submit_store i r m = Some (h, m') \<Longrightarrow> await_resume i m' = r"
  by (auto simp: submit_store_def await_resume_def map_of_al_assign split: option.splits)

lemma await_resume_invalid: "manager_inv m \<Longrightarrow> await_resume INVALID_CMD_ID m = R_INTEROP_FAILURE"
  using invalid_not_pending[of m]
  by (auto simp: await_resume_def dest: map_of_SomeD intro: rev_image_eqI split: option.splits)

subsection \<open>Properties\<close>

text \<open>
  \<open>IssueCommand\<close> gives a command the least free identifier of its window of 256, records it as
  pending without a callback and hands it to the invoker; the result is the invalid identifier
  exactly when the window is full or the invoker refuses, and then nothing is pending.
\<close>

theorem issue_command_spec:
  assumes "issue_command acc c m = (i, m')"
  shows "if {cmd_id c..<cmd_id c + COMMAND_ID 1} \<subseteq> used_ids (mg_pending m) \<or> \<not> acc (mg_calls m)
         then i = INVALID_CMD_ID \<and> mg_pending m' = mg_pending m \<and> mg_sent m' = mg_sent m
         else in_window c i \<and> {cmd_id c..<i} \<subseteq> used_ids (mg_pending m) \<and>
              i \<notin> used_ids (mg_pending m) \<and> i \<noteq> INVALID_CMD_ID \<and>
              mg_pending m' = mg_pending m @ [(i, cmd_data_init)] \<and>
              mg_sent m' = mg_sent m @ [(i, c)]"
proof (cases "{cmd_id c..<cmd_id c + COMMAND_ID 1} \<subseteq> used_ids (mg_pending m)")
  case True
  then show ?thesis using assms ids.alloc_full[of "cmd_id c" "COMMAND_ID 1" "mg_pending m"]
    by (simp add: issue_defs Let_def)
next
  case False
  let ?i = "next_free_id (mg_pending m) (cmd_id c)"
  have w: "in_window c ?i"
    using False ids.alloc_full[of "cmd_id c" "COMMAND_ID 1" "mg_pending m"] ids.alloc_ge
    by (simp add: in_window_def)
  have "{cmd_id c..<?i} \<subseteq> used_ids (mg_pending m)" using ids.alloc_least by auto
  then show ?thesis
    using False assms w ids.alloc_free in_window_not_invalid[OF w]
    by (auto simp: issue_defs Let_def in_window_def al_assign_fresh split: if_splits)
qed

theorem issue_command_spec_witness:
  "\<exists>m' :: nat manager.
     issue_command (\<lambda>_. True) StopListening
       \<lparr>mg_pending = [(102 * 256, cmd_data_init)], mg_calls = 0, mg_sent = []\<rparr> = (102 * 256 + 1, m') \<and>
     mg_sent m' = [(102 * 256 + 1, StopListening)]"
proof -
  let ?m = "\<lparr>mg_pending = [(102 * 256, cmd_data_init)], mg_calls = 0, mg_sent = []\<rparr> :: nat manager"
  obtain i m' where im: "issue_command (\<lambda>_. True) StopListening ?m = (i, m')" by fastforce
  have i: "i = 102 * 256 + 1"
    using im by (auto simp: issue_defs Let_def next_free_id.simps COMMAND_ID_def)
  have "102 * 256 + 1 \<in> {cmd_id StopListening..<cmd_id StopListening + COMMAND_ID 1} - used_ids (mg_pending ?m)"
    by (simp add: COMMAND_ID_def)
  then show ?thesis using issue_command_spec[OF im] im i by (auto split: if_splits)
qed

text \<open>
  C32. Awaiting a command that was just issued never trips the assertion in \<open>await_suspend\<close>, and the
  response that is submitted for it is the one its coroutine reads: the callback that
  \<open>SubmitResponse\<close> runs is the one that was suspended, \<open>await_resume\<close> yields the submitted code,
  and afterwards the identifier is free again.
\<close>

theorem response_routing:
  assumes "issue_command acc c m = (i, m1)" and "\<not> await_ready i"
  shows "\<exists>m2 m3. await_suspend i h m1 = Some m2 \<and> submit_store i r m2 = Some (Some h, m3) \<and>
                 await_resume i m3 = r \<and> i \<notin> used_ids (mg_pending (submit_erase i m3)) \<and>
                 mg_pending (submit_erase i m3) = mg_pending m"
proof -
  note new = issue_command_ctx[OF assms]
  define m2 where
    "m2 = m1\<lparr>mg_pending := al_assign i (cmd_data_init\<lparr>cd_callback := Some h\<rparr>) (mg_pending m1)\<rparr>"
  have susp: "await_suspend i h m1 = Some m2"
    using await_suspend_after_issue[OF assms] by (simp add: m2_def)
  have "map_of (mg_pending m2) i = Some (cmd_data_init\<lparr>cd_callback := Some h\<rparr>)"
    by (simp add: m2_def map_of_al_assign)
  then obtain m3 where m3: "submit_store i r m2 = Some (Some h, m3)"
    and p3: "mg_pending m3 = al_assign i (cmd_data_init\<lparr>cd_callback := Some h, cd_response := r\<rparr>) (mg_pending m2)"
    by (simp add: submit_store_def)
  have "mg_pending m2 = mg_pending m @ [(i, cmd_data_init\<lparr>cd_callback := Some h\<rparr>)]"
    using new by (simp add: m2_def al_assign_snoc)
  then have "mg_pending m3 = mg_pending m @ [(i, cmd_data_init\<lparr>cd_callback := Some h, cd_response := r\<rparr>)]"
    using new by (simp add: p3 al_assign_snoc)
  then have "mg_pending (submit_erase i m3) = mg_pending m"
    using new(1) al_erase_notin[of i "mg_pending m"] by (simp add: submit_erase_def al_erase_def)
  then show ?thesis using susp m3 await_resume_after_store[OF m3] new(1) by auto
qed

theorem response_routing_witness:
  "\<exists>i m1 m2 m3. issue_command (\<lambda>_. True) ResetGame manager_init = (i, m1) \<and>
     await_suspend i ''coroutine'' m1 = Some m2 \<and>
     submit_store i R_OK m2 = Some (Some ''coroutine'', m3) \<and> await_resume i m3 = R_OK"
proof -
  obtain i m1 where im: "issue_command (\<lambda>_. True) ResetGame (manager_init :: string manager) = (i, m1)"
    by fastforce
  have "\<not> await_ready i"
    using im by (auto simp: issue_defs Let_def next_free_id.simps manager_init_def
        COMMAND_ID_def await_ready_def INVALID_CMD_ID_def)
  then show ?thesis using response_routing[OF im, of "''coroutine''" R_OK] im by blast
qed

text \<open>
  The destructor terminates: when the resumed coroutines issue no further commands, it drains
  the table in as many iterations as there are entries.
\<close>

theorem manager_drain_terminates:
  assumes "\<And>h r n. mg_pending (resume h r n) = mg_pending n" and "al_wf (mg_pending m)"
  shows "\<exists>m'. manager_drain resume (length (mg_pending m)) m = Some m' \<and> mg_pending m' = []"
  using assms(2)
proof (induction "length (mg_pending m)" arbitrary: m)
  case 0
  then show ?case by (simp add: manager_drain.simps)
next
  case (Suc n)
  then obtain i d rest where p: "mg_pending m = (i, d) # rest" by (cases "mg_pending m") auto
  define m1 where "m1 = (case cd_callback d of None \<Rightarrow> m | Some h \<Rightarrow> resume h (await_resume i m) m)"
  have "mg_pending m1 = mg_pending m" using assms(1) by (simp add: m1_def split: option.split)
  moreover have "i \<notin> fst ` set rest" "al_wf rest" using Suc.prems p by (auto simp: al_wf_def)
  ultimately have e: "mg_pending (submit_erase i m1) = rest"
    using al_erase_notin[of i rest] p by (simp add: submit_erase_def al_erase_def)
  then obtain m' where "manager_drain resume (length rest) (submit_erase i m1) = Some m'" "mg_pending m' = []"
    using Suc.hyps(1)[of "submit_erase i m1"] Suc.hyps(2) p \<open>al_wf rest\<close> by auto
  then show ?case by (subst manager_drain.simps) (simp add: p m1_def[symmetric] Let_def)
qed

theorem manager_drain_terminates_witness:
  "\<exists>m'. manager_drain (\<lambda>h r n. n\<lparr>mg_calls := mg_calls n + 1\<rparr>) 2
     \<lparr>mg_pending = [(7, cmd_data_init\<lparr>cd_callback := Some ()\<rparr>), (8, cmd_data_init)],
      mg_calls = 0, mg_sent = []\<rparr> = Some m' \<and> mg_pending m' = []"
  using manager_drain_terminates[of "\<lambda>h r n. n\<lparr>mg_calls := mg_calls n + 1\<rparr>"
      "\<lparr>mg_pending = [(7, cmd_data_init\<lparr>cd_callback := Some ()\<rparr>), (8, cmd_data_init)],
       mg_calls = 0, mg_sent = []\<rparr>"]
  by (simp add: al_wf_def numeral_2_eq_2)

end
