(* ===== verification/Worker.thy ===== *)
theory Worker
  imports Prelude "HOL-Library.Multiset"
begin

text \<open>
  \<open>async::Worker\<close> of dispatch/src/common/worker.cpp: a thread that runs delayed tasks from a
  multimap keyed by their time.  The threads that schedule and the worker's own thread
  interleave, so the worker is a step relation; times are milliseconds of the steady clock.
\<close>

subsection \<open>The multimap of tasks\<close>

text \<open>
  \<open>std::multimap::emplace\<close>: the new element goes to the upper bound of its key, behind the
  elements with the same key.
\<close>

fun mm_emplace :: "'k::linorder \<Rightarrow> 'v \<Rightarrow> ('k \<times> 'v) list \<Rightarrow> ('k \<times> 'v) list" where
  "mm_emplace t x [] = [(t, x)]"
| "mm_emplace t x (p # ps) = (if t < fst p then (t, x) # p # ps else p # mm_emplace t x ps)"

lemma set_mm_emplace [simp]: "set (mm_emplace t x ps) = insert (t, x) (set ps)"
  by (induction ps) auto

lemma length_mm_emplace [simp]: "length (mm_emplace t x ps) = Suc (length ps)"
  by (induction ps) auto

lemma mset_mm_emplace: "mset (mm_emplace t x ps) = add_mset (t, x) (mset ps)"
  by (induction ps) auto

lemma sorted_mm_emplace: "sorted (map fst ps) \<Longrightarrow> sorted (map fst (mm_emplace t x ps))"
  by (induction ps) auto

text \<open>On a sorted multimap \<open>emplace\<close> is a stable insertion.\<close>

lemma mm_emplace_split:
  "sorted (map fst ps) \<Longrightarrow>
   mm_emplace t x ps = filter (\<lambda>p. fst p \<le> t) ps @ (t, x) # filter (\<lambda>p. \<not> fst p \<le> t) ps"
proof (induction ps)
  case (Cons p ps)
  show ?case
  proof (cases "t < fst p")
    case True
    with Cons.prems have "\<forall>q \<in> set (p # ps). \<not> fst q \<le> t" by fastforce
    then have "filter (\<lambda>p. fst p \<le> t) (p # ps) = []" "filter (\<lambda>p. \<not> fst p \<le> t) (p # ps) = p # ps"
      by (simp_all add: filter_empty_conv filter_id_conv del: filter.simps)
    with True show ?thesis by simp
  next
    case False
    then have "fst p \<le> t" by simp
    with Cons False show ?thesis by simp
  qed
qed simp

lemma mm_emplace_stable:
  "sorted (map fst ps) \<Longrightarrow>
   filter (\<lambda>p. fst p = s) (mm_emplace t x ps) =
     filter (\<lambda>p. fst p = s) ps @ (if s = t then [(t, x)] else [])"
proof (induction ps)
  case (Cons p ps)
  show ?case
  proof (cases "t < fst p")
    case True
    with Cons.prems have "s = t \<Longrightarrow> filter (\<lambda>q. fst q = s) (p # ps) = []"
      by (auto simp: filter_empty_conv)
    with True show ?thesis by auto
  next
    case False
    with Cons show ?thesis by simp
  qed
qed simp

text \<open>The interface a client of the queue relies on: earliest first, and first come first served.\<close>

locale timed_queue =
  fixes put :: "nat \<Rightarrow> 'v \<Rightarrow> (nat \<times> 'v) list \<Rightarrow> (nat \<times> 'v) list"
  assumes put_sorted: "sorted (map fst q) \<Longrightarrow> sorted (map fst (put t x q))"
    and put_stable: "sorted (map fst q) \<Longrightarrow>
      filter (\<lambda>p. fst p = s) (put t x q) =
        filter (\<lambda>p. fst p = s) q @ (if s = t then [(t, x)] else [])"
    and put_set: "set (put t x q) = insert (t, x) (set q)"
begin

fun put_all :: "(nat \<times> 'v) list \<Rightarrow> (nat \<times> 'v) list \<Rightarrow> (nat \<times> 'v) list" where
  "put_all [] q = q"
| "put_all (p # ps) q = put_all ps (put (fst p) (snd p) q)"

lemma put_all_sorted: "sorted (map fst q) \<Longrightarrow> sorted (map fst (put_all ps q))"
  by (induction ps arbitrary: q) (auto intro: put_sorted)

text \<open>Tasks of one due time keep the order in which they were submitted.\<close>

lemma put_all_stable:
  "sorted (map fst q) \<Longrightarrow>
   filter (\<lambda>p. fst p = s) (put_all ps q) =
     filter (\<lambda>p. fst p = s) q @ filter (\<lambda>p. fst p = s) ps"
  by (induction ps arbitrary: q) (auto simp: put_stable put_sorted)

lemma put_all_set: "set (put_all ps q) = set ps \<union> set q"
  by (induction ps arbitrary: q) (auto simp: put_set)

text \<open>The head is due no later than anything else.\<close>

lemma head_earliest:
  assumes "sorted (map fst q)" "put_all ps q = (t, x) # rest" "(u, y) \<in> set ps \<union> set q"
  shows "t \<le> u"
proof -
  have "sorted (map fst ((t, x) # rest))" using put_all_sorted[OF assms(1), of ps] assms(2) by simp
  moreover have "(u, y) \<in> set ((t, x) # rest)" using assms put_all_set[of ps q] by auto
  ultimately show ?thesis by force
qed

end

interpretation mm: timed_queue mm_emplace
  by unfold_locales (simp_all add: sorted_mm_emplace mm_emplace_stable)

subsection \<open>The worker\<close>

text \<open>A job is a task or the lambda with which the destructor stops the thread.\<close>

datatype 'a job = Task 'a | StopJob

record 'a worker =
  wk_capacity :: nat
  wk_stop :: bool
  wk_tasks :: "(nat \<times> 'a job) list"
  wk_running :: "'a job option"      \<comment> \<open>the local variable \<open>work\<close> of \<open>Run\<close> while it executes\<close>
  wk_now :: nat

definition worker_init :: "nat \<Rightarrow> 'a worker" where
  "worker_init cap = \<lparr>wk_capacity = cap, wk_stop = False, wk_tasks = [], wk_running = None, wk_now = 0\<rparr>"

text \<open>
  \<open>Schedule\<close> waits until there is room, \<open>None\<close> is a caller that waits; \<open>TrySchedule\<close> returns
  false instead.  Both read the clock when they are called, at \<open>called\<close>, which may be long before
  they get the lock.
\<close>

definition schedule :: "nat \<Rightarrow> nat \<Rightarrow> 'a job \<Rightarrow> 'a worker \<Rightarrow> 'a worker option" where
  "schedule called delay work w =
     (let timeToFire = called + delay in
      if length (wk_tasks w) < wk_capacity w
      then Some (w\<lparr>wk_tasks := mm_emplace timeToFire work (wk_tasks w)\<rparr>)
      else None)"

definition try_schedule :: "nat \<Rightarrow> nat \<Rightarrow> 'a job \<Rightarrow> 'a worker \<Rightarrow> bool \<times> 'a worker" where
  "try_schedule called delay work w =
     (let timeToFire = called + delay in
      if length (wk_tasks w) \<ge> wk_capacity w then (False, w)
      else (True, w\<lparr>wk_tasks := mm_emplace timeToFire work (wk_tasks w)\<rparr>))"

text \<open>
  \<open>GetNextTask\<close>: waits while the multimap is empty or its first task is not due; \<open>None\<close> is the
  waiting thread.  The result is the task with the time it was due.
\<close>

definition get_next_task :: "'a worker \<Rightarrow> (nat \<times> 'a job \<times> 'a worker) option" where
  "get_next_task w =
     (case wk_tasks w of
        [] \<Rightarrow> None
      | (t, job) # rest \<Rightarrow> if t > wk_now w then None else Some (t, job, w\<lparr>wk_tasks := rest\<rparr>))"

text \<open>
  The steps: time passes, some thread schedules, the worker's loop takes a task
  (\<open>while (!m_stop)\<close>), and the running task ends, normally or with an exception that \<open>Run\<close>
  hands to the exception handler.
\<close>

datatype 'a wk_label = Tick nat | Put nat "'a job" | Refused "'a job" | Take nat "'a job" | Done "'a job"

inductive wk_step :: "'a worker \<Rightarrow> 'a wk_label \<Rightarrow> 'a worker \<Rightarrow> bool" where
  tick: "wk_step w (Tick d) (w\<lparr>wk_now := wk_now w + d\<rparr>)"
| put: "called \<le> wk_now w \<Longrightarrow> schedule called d j w = Some w' \<Longrightarrow> wk_step w (Put (called + d) j) w'"
| try_put: "called \<le> wk_now w \<Longrightarrow> try_schedule called d j w = (True, w') \<Longrightarrow>
    wk_step w (Put (called + d) j) w'"
| refused: "called \<le> wk_now w \<Longrightarrow> try_schedule called d j w = (False, w') \<Longrightarrow>
    wk_step w (Refused j) w'"
| take: "wk_running w = None \<Longrightarrow> \<not> wk_stop w \<Longrightarrow> get_next_task w = Some (t, j, w') \<Longrightarrow>
    wk_step w (Take t j) (w'\<lparr>wk_running := Some j\<rparr>)"
| fin: "wk_running w = Some j \<Longrightarrow>
    wk_step w (Done j) (w\<lparr>wk_running := None, wk_stop := (wk_stop w \<or> j = StopJob)\<rparr>)"

inductive_cases wk_step_TakeE: "wk_step w (Take t j) w'"
inductive_simps wk_step_Take: "wk_step w (Take t j) w'"
inductive_simps wk_step_Refused: "wk_step w (Refused j) w'"

inductive wk_run :: "'a worker \<Rightarrow> 'a wk_label list \<Rightarrow> 'a worker \<Rightarrow> bool" where
  wk_nil: "wk_run w [] w"
| wk_snoc: "wk_run w ls w' \<Longrightarrow> wk_step w' l w'' \<Longrightarrow> wk_run w (ls @ [l]) w''"

subsection \<open>Invariant and order\<close>

definition wk_inv :: "'a worker \<Rightarrow> bool" where
  "wk_inv w \<longleftrightarrow> sorted (map fst (wk_tasks w)) \<and> length (wk_tasks w) \<le> wk_capacity w"

lemma wk_inv_init: "wk_inv (worker_init cap)"
  by (simp add: wk_inv_def worker_init_def)

lemma wk_step_inv: "wk_step w l w' \<Longrightarrow> wk_inv w \<Longrightarrow> wk_inv w'"
  by (induction rule: wk_step.induct)
     (auto simp: wk_inv_def schedule_def try_schedule_def get_next_task_def Let_def sorted_mm_emplace
       split: if_splits list.splits)

lemma wk_run_inv: "wk_run w ls w' \<Longrightarrow> wk_inv w \<Longrightarrow> wk_inv w'"
  by (induction rule: wk_run.induct) (auto intro: wk_step_inv)

text \<open>The jobs that were put in, and taken out, with due time \<open>s\<close>.\<close>

fun puts_at :: "nat \<Rightarrow> 'a wk_label list \<Rightarrow> 'a job list" where
  "puts_at s [] = []"
| "puts_at s (Put t j # ls) = (if t = s then j # puts_at s ls else puts_at s ls)"
| "puts_at s (_ # ls) = puts_at s ls"

fun takes_at :: "nat \<Rightarrow> 'a wk_label list \<Rightarrow> 'a job list" where
  "takes_at s [] = []"
| "takes_at s (Take t j # ls) = (if t = s then j # takes_at s ls else takes_at s ls)"
| "takes_at s (_ # ls) = takes_at s ls"

definition queued_at :: "nat \<Rightarrow> 'a worker \<Rightarrow> 'a job list" where
  "queued_at s w = map snd (filter (\<lambda>p. fst p = s) (wk_tasks w))"

lemma puts_at_append [simp]: "puts_at s (ks @ ls) = puts_at s ks @ puts_at s ls"
  by (induction s ks rule: puts_at.induct) auto

lemma takes_at_append [simp]: "takes_at s (ks @ ls) = takes_at s ks @ takes_at s ls"
  by (induction s ks rule: takes_at.induct) auto

lemma wk_step_queued:
  "wk_step w l w' \<Longrightarrow> wk_inv w \<Longrightarrow> queued_at s w @ puts_at s [l] = takes_at s [l] @ queued_at s w'"
  by (induction rule: wk_step.induct)
     (auto simp: queued_at_def wk_inv_def schedule_def try_schedule_def get_next_task_def Let_def
       mm_emplace_stable split: if_splits list.splits)

text \<open>Once stopped, always stopped.\<close>

lemma wk_step_stop: "wk_step w l w' \<Longrightarrow> wk_stop w \<Longrightarrow> wk_stop w' \<and> (\<forall>t j. l \<noteq> Take t j)"
  by (induction rule: wk_step.induct) (auto simp: schedule_def try_schedule_def Let_def split: if_splits)

lemma wk_run_stop: "wk_run w ls w' \<Longrightarrow> wk_stop w \<Longrightarrow> wk_stop w' \<and> (\<forall>t j. Take t j \<notin> set ls)"
proof (induction rule: wk_run.induct)
  case (wk_snoc w ls w' l w'')
  then show ?case using wk_step_stop[of w' l w''] by auto
qed simp

text \<open>
  A class of jobs whose due times never decrease from one to the next, as those one thread submits
  without a delay.
\<close>

fun puts :: "'a wk_label list \<Rightarrow> (nat \<times> 'a job) list" where
  "puts [] = []"
| "puts (Put t j # ls) = (t, j) # puts ls"
| "puts (_ # ls) = puts ls"

fun takes :: "'a wk_label list \<Rightarrow> (nat \<times> 'a job) list" where
  "takes [] = []"
| "takes (Take t j # ls) = (t, j) # takes ls"
| "takes (_ # ls) = takes ls"

lemma puts_append [simp]: "puts (ks @ ls) = puts ks @ puts ls"
  by (induction ks rule: puts.induct) auto

lemma takes_append [simp]: "takes (ks @ ls) = takes ks @ takes ls"
  by (induction ks rule: takes.induct) auto

lemma filter_mm_emplace:
  assumes "sorted (map fst ps)" "\<forall>p \<in> set ps. P p \<longrightarrow> fst p \<le> t"
    and "P (t, x)"
  shows "filter P (mm_emplace t x ps) = filter P ps @ [(t, x)]"
proof -
  have "filter P (filter (\<lambda>p. fst p \<le> t) ps) = filter P ps"
    using assms(2) by (auto intro: filter_cong)
  moreover have "filter P (filter (\<lambda>p. \<not> fst p \<le> t) ps) = []"
    using assms(2) by (auto simp: filter_empty_conv)
  ultimately show ?thesis using assms(3) by (simp add: mm_emplace_split[OF assms(1)] del: filter_filter)
qed

lemma filter_mm_emplace_not:
  "\<not> P (t, x) \<Longrightarrow> filter P (mm_emplace t x ps) = filter P ps"
  by (induction ps) auto

lemma wk_step_class:
  assumes "wk_step w l w'" "wk_inv w" "\<forall>p \<in> set (puts [l]). P p \<longrightarrow> (\<forall>q \<in> set (wk_tasks w). P q \<longrightarrow> fst q \<le> fst p)"
  shows "filter P (wk_tasks w) @ filter P (puts [l]) = filter P (takes [l]) @ filter P (wk_tasks w')"
  using assms
proof (induction rule: wk_step.induct)
  case (put called w d j w')
  then show ?case
    using filter_mm_emplace[of "wk_tasks w" P "called + d" j]
    by (auto simp: schedule_def wk_inv_def Let_def filter_mm_emplace_not split: if_splits)
next
  case (try_put called w d j w')
  then show ?case
    using filter_mm_emplace[of "wk_tasks w" P "called + d" j]
    by (auto simp: try_schedule_def wk_inv_def Let_def filter_mm_emplace_not split: if_splits)
qed (auto simp: try_schedule_def get_next_task_def Let_def split: if_splits list.splits)

lemma worker_class_order:
  assumes "wk_run (worker_init cap) ls w" "sorted (map fst (filter P (puts ls)))"
  shows "filter P (puts ls) = filter P (takes ls) @ filter P (wk_tasks w)"
  using assms
proof (induction "worker_init cap :: 'a worker" ls w rule: wk_run.induct)
  case wk_nil
  then show ?case by (simp add: worker_init_def)
next
  case (wk_snoc ls w' l w'')
  have inv: "wk_inv w'" using wk_run_inv[OF wk_snoc.hyps(1)] wk_inv_init by blast
  have IH: "filter P (puts ls) = filter P (takes ls) @ filter P (wk_tasks w')"
    using wk_snoc.hyps(2) wk_snoc.prems by (simp add: sorted_append)
  have "fst q \<le> fst p" if "p \<in> set (puts [l])" "P p" "q \<in> set (wk_tasks w')" "P q" for p q
  proof -
    have "q \<in> set (filter P (puts ls))" using IH that by simp
    then have "fst q \<in> set (map fst (filter P (puts ls)))" by (metis image_set imageI)
    moreover have "fst p \<in> set (map fst (filter P (puts [l])))" using that by simp
    ultimately show ?thesis
      using wk_snoc.prems unfolding puts_append filter_append map_append sorted_append by blast
  qed
  then show ?case using wk_step_class[OF wk_snoc.hyps(3) inv, of P] IH by simp
qed

subsection \<open>Properties\<close>

text \<open>
  In every run of the worker, whatever the interleaving of the threads, the tasks of one due
  time are executed in the order in which they were submitted, none is lost and none is executed
  twice: what was put in is what was taken out followed by what is still queued.
\<close>

theorem worker_fifo:
  assumes "wk_run (worker_init cap) ls w"
  shows "puts_at s ls = takes_at s ls @ queued_at s w"
  using assms
proof (induction "worker_init cap :: 'a worker" ls w rule: wk_run.induct)
  case wk_nil
  then show ?case by (simp add: queued_at_def worker_init_def)
next
  case (wk_snoc ls w' l w'')
  have "wk_inv w'" using wk_run_inv[OF wk_snoc.hyps(1)] wk_inv_init by blast
  then show ?case using wk_step_queued[OF wk_snoc.hyps(3), of s] wk_snoc.hyps(2) by simp
qed

definition worker_example :: "nat wk_label list" where
  "worker_example = [Put 5 (Task 1), Put 3 (Task 2), Tick 4, Take 3 (Task 2)]"

lemma worker_example_run:
  "\<exists>w. wk_run (worker_init 2) worker_example w \<and> wk_tasks w = [(5, Task 1)]"
proof -
  let ?w0 = "worker_init 2 :: nat worker"
  let ?w1 = "?w0\<lparr>wk_tasks := [(5, Task 1)]\<rparr>"
  let ?w2 = "?w0\<lparr>wk_tasks := [(3, Task 2), (5, Task 1)]\<rparr>"
  let ?w3 = "?w2\<lparr>wk_now := 4\<rparr>"
  let ?w4 = "?w3\<lparr>wk_tasks := [(5, Task 1)], wk_running := Some (Task 2)\<rparr>"
  have 1: "wk_step ?w0 (Put 5 (Task 1)) ?w1"
    using wk_step.put[of 0 ?w0 5 "Task 1" ?w1] by (simp add: schedule_def worker_init_def)
  have 2: "wk_step ?w1 (Put 3 (Task 2)) ?w2"
    using wk_step.put[of 0 ?w1 3 "Task 2" ?w2] by (simp add: schedule_def worker_init_def)
  have 3: "wk_step ?w2 (Tick 4) ?w3"
    using wk_step.tick[of ?w2 4] by (simp add: worker_init_def)
  have 4: "wk_step ?w3 (Take 3 (Task 2)) ?w4"
    using wk_step.take[of ?w3 3 "Task 2" "?w3\<lparr>wk_tasks := [(5, Task 1)]\<rparr>"]
    by (simp add: get_next_task_def worker_init_def)
  have "wk_run ?w0 ([] @ [Put 5 (Task 1)] @ [Put 3 (Task 2)] @ [Tick 4] @ [Take 3 (Task 2)]) ?w4"
    using wk_snoc[OF wk_snoc[OF wk_snoc[OF wk_snoc[OF wk_nil 1] 2] 3] 4] by simp
  then show ?thesis unfolding worker_example_def by (intro exI[of _ ?w4]) simp
qed

theorem worker_fifo_witness:
  "\<exists>w. puts_at 3 worker_example = takes_at 3 worker_example @ queued_at 3 w \<and>
       wk_tasks w = [(5, Task 1)] \<and> takes_at 3 worker_example = [Task 2]"
  using worker_example_run worker_fifo[of 2 worker_example _ 3]
  by (auto simp: worker_example_def)

text \<open>
  The queue never exceeds its capacity and stays in the order of the due times, so a task that
  is taken is due, and nothing that is left is due earlier.
\<close>

theorem worker_take_earliest:
  assumes "wk_run (worker_init cap) ls w" and "wk_step w (Take t j) w'"
  shows "t \<le> wk_now w \<and> (\<forall>p \<in> set (wk_tasks w'). t \<le> fst p) \<and> length (wk_tasks w) \<le> cap"
proof -
  have inv: "wk_inv w" using wk_run_inv[OF assms(1)] wk_inv_init by blast
  have "wk_run v ls w \<Longrightarrow> wk_capacity w = wk_capacity v" for v
    by (induction rule: wk_run.induct)
       (auto elim!: wk_step.cases simp: schedule_def try_schedule_def get_next_task_def Let_def
         split: if_splits list.splits)
  then have "wk_capacity w = cap" using assms(1) by (simp add: worker_init_def)
  with inv show ?thesis using assms(2)
    by (fastforce simp: wk_step_Take get_next_task_def wk_inv_def split: list.splits if_splits)
qed

theorem worker_take_earliest_witness:
  "\<exists>w w' :: nat worker. wk_step w (Take 0 (Task 7)) w' \<and>
     (\<forall>p \<in> set (wk_tasks w'). 0 \<le> fst p) \<and> length (wk_tasks w) \<le> 1"
proof -
  let ?w0 = "worker_init 1 :: nat worker"
  let ?w1 = "?w0\<lparr>wk_tasks := [(0, Task 7)]\<rparr>"
  have "wk_step ?w0 (Put 0 (Task 7)) ?w1"
    using wk_step.put[of 0 ?w0 0 "Task 7" ?w1] by (simp add: schedule_def worker_init_def)
  then have r: "wk_run ?w0 ([] @ [Put 0 (Task 7)]) ?w1" by (rule wk_snoc[OF wk_nil])
  have s: "wk_step ?w1 (Take 0 (Task 7)) (?w1\<lparr>wk_tasks := [], wk_running := Some (Task 7)\<rparr>)"
    using wk_step.take[of ?w1 0 "Task 7" "?w1\<lparr>wk_tasks := []\<rparr>"]
    by (simp add: get_next_task_def worker_init_def)
  show ?thesis using worker_take_earliest[OF r s] s by blast
qed

text \<open>
  C33. Tasks that one thread submits without a delay, or any others whose due times never decrease
  from one to the next, are executed in the order in which they were submitted, in every run and
  whatever timers and tasks of other threads come in between; none is lost and none is executed
  twice.
\<close>

theorem worker_class_in_order:
  assumes "wk_run (worker_init cap) ls w" "sorted (map fst (filter P (puts ls)))"
  shows "filter P (puts ls) = filter P (takes ls) @ filter P (wk_tasks w)"
  using assms by (rule worker_class_order)

theorem worker_class_in_order_witness:
  "\<exists>w :: nat worker. filter (\<lambda>p. snd p = Task 2) (puts worker_example) =
         filter (\<lambda>p. snd p = Task 2) (takes worker_example) @ filter (\<lambda>p. snd p = Task 2) (wk_tasks w) \<and>
       wk_tasks w = [(5, Task 1)] \<and> takes worker_example = [(3, Task 2)]"
proof -
  obtain w where r: "wk_run (worker_init 2) worker_example w" and t: "wk_tasks w = [(5, Task 1)]"
    using worker_example_run by blast
  have "sorted (map fst (filter (\<lambda>p. snd p = Task 2) (puts worker_example)))"
    by (simp add: worker_example_def)
  from worker_class_in_order[OF r this] t show ?thesis
    by (intro exI[of _ w]) (simp add: worker_example_def)
qed

end
