(* ===== verification/Fsm_Base.thy ===== *)
theory Fsm_Base
  imports Cmd_Manager Worker
begin

text \<open>
  What the four states of the state machine share: devices, the suspended coroutines, the
  context (fsm/context.hpp) with the command adapter (ctrl/commandadapter.cpp) and the timer
  (ctrl/timer.cpp).

  A coroutine that waits is a \<open>frame\<close>: its program point and the local variables it still
  needs.  It sits in the command manager's table when it awaits a response, and in the timer
  queue when it awaits a timeout.  A frame of a state object carries that object's serial
  number; when the object is destroyed its tasks are cancelled, and a cancelled coroutine that
  is resumed only throws \<open>CanceledException\<close> and is freed (utils/task.hpp).
\<close>

subsection \<open>Devices (bt/device.hpp)\<close>

record device =
  dv_name :: string
  dv_mac :: string

text \<open>\<open>operator==\<close> and \<open>std::hash<bt::Device>\<close> look at the address only.\<close>

definition device_eq :: "device \<Rightarrow> device \<Rightarrow> bool" where
  "device_eq lhs rhs \<longleftrightarrow> dv_mac lhs = dv_mac rhs"

text \<open>
  \<open>std::unordered_set<bt::Device>\<close>: at most one device per address; \<open>insert\<close> keeps the element
  that is already there.  The list order is the order of iteration.
\<close>

type_synonym devices = "device list"

definition dv_count :: "device \<Rightarrow> devices \<Rightarrow> bool" where
  "dv_count d ps \<longleftrightarrow> (\<exists>p \<in> set ps. device_eq p d)"

definition dv_insert :: "device \<Rightarrow> devices \<Rightarrow> devices" where
  "dv_insert d ps = (if dv_count d ps then ps else ps @ [d])"

definition dv_erase :: "device \<Rightarrow> devices \<Rightarrow> devices" where
  "dv_erase d ps = filter (\<lambda>p. \<not> device_eq p d) ps"

definition dv_find :: "device \<Rightarrow> devices \<Rightarrow> device option" where
  "dv_find d ps = find (\<lambda>p. device_eq p d) ps"

definition dv_wf :: "devices \<Rightarrow> bool" where
  "dv_wf ps \<longleftrightarrow> distinct (map dv_mac ps)"

text \<open>\<open>bt::Device{"", mac}\<close>\<close>

definition dv_of_mac :: "string \<Rightarrow> device" where
  "dv_of_mac mac = \<lparr>dv_name = [], dv_mac = mac\<rparr>"

lemma dv_count_iff: "dv_count d ps \<longleftrightarrow> dv_mac d \<in> dv_mac ` set ps"
  unfolding dv_count_def device_eq_def by (metis imageE imageI)

lemma dv_wf_insert: "dv_wf ps \<Longrightarrow> dv_wf (dv_insert d ps)"
  by (auto simp: dv_wf_def dv_insert_def dv_count_iff)

lemma dv_wf_erase: "dv_wf ps \<Longrightarrow> dv_wf (dv_erase d ps)"
  by (simp add: dv_wf_def dv_erase_def distinct_map_filter)

lemma dv_macs_insert: "dv_mac ` set (dv_insert d ps) = insert (dv_mac d) (dv_mac ` set ps)"
  by (auto simp: dv_insert_def dv_count_iff)

lemma dv_macs_erase: "dv_mac ` set (dv_erase d ps) = dv_mac ` set ps - {dv_mac d}"
  by (auto simp: dv_erase_def device_eq_def)

subsection \<open>Suspended coroutines\<close>

text \<open>The state a \<open>SwitchToState<S>(ctx, args...)\<close> will construct, with its arguments.\<close>

datatype target =
    T_None
  | T_Idle bool                                   \<comment> \<open>startNewGame\<close>
  | T_Connecting
  | T_Negotiating devices string                  \<comment> \<open>peers, local mac\<close>
  | T_NegotiatingWith devices string device string \<comment> \<open>and the offer that started it\<close>
  | T_Playing devices string string               \<comment> \<open>peers, local mac, generator mac\<close>

text \<open>
  Who called \<open>RemotePeerManager::Send\<close>: a root task, or \<open>SendRequestToGenerator\<close> with its request
  and the value of \<open>attempt\<close>.
\<close>

datatype send_caller = SendRoot | SendAttempt string nat

datatype frame =
    F_Switch target
  \<comment> \<open>StateIdle::RequestBluetoothOn, with the serial number of the task\<close>
  | F_IdleEnable nat nat | F_IdleWait nat nat
  \<comment> \<open>StateConnecting: the numbers are the object and \<open>retriesLeft\<close>\<close>
  | F_ConnDiscovery nat nat | F_ConnDiscoveryWait nat nat
  | F_ConnListening nat nat | F_ConnListeningWait nat nat
  | F_ConnHello nat nat string string | F_ConnDisconnect nat string
  | F_ConnAttempt nat nat
  \<comment> \<open>StateNegotiating\<close>
  | F_NegStart nat | F_NegRound nat
  | F_NegOffer nat device | F_NegOfferDisconnect nat device | F_NegDisconnect nat string
  \<comment> \<open>StatePlaying and its RemotePeerManagers\<close>
  | F_PlayIgnore nat
  | F_PlaySend nat string string nat send_caller | F_PlayAttempt nat string string nat
  | F_PlayShowRequest nat | F_PlayShowResponse nat

text \<open>The object a coroutine belongs to; \<open>SwitchToState\<close> is detached.\<close>

fun frame_owner :: "frame \<Rightarrow> nat option" where
  "frame_owner (F_Switch _) = None"
| "frame_owner (F_IdleEnable sid _) = Some sid"
| "frame_owner (F_IdleWait sid _) = Some sid"
| "frame_owner (F_ConnDiscovery sid _) = Some sid"
| "frame_owner (F_ConnDiscoveryWait sid _) = Some sid"
| "frame_owner (F_ConnListening sid _) = Some sid"
| "frame_owner (F_ConnListeningWait sid _) = Some sid"
| "frame_owner (F_ConnHello sid _ _ _) = Some sid"
| "frame_owner (F_ConnDisconnect sid _) = Some sid"
| "frame_owner (F_ConnAttempt sid _) = Some sid"
| "frame_owner (F_NegStart sid) = Some sid"
| "frame_owner (F_NegRound sid) = Some sid"
| "frame_owner (F_NegOffer sid _) = Some sid"
| "frame_owner (F_NegOfferDisconnect sid _) = Some sid"
| "frame_owner (F_NegDisconnect sid _) = Some sid"
| "frame_owner (F_PlayIgnore sid) = Some sid"
| "frame_owner (F_PlaySend sid _ _ _ _) = Some sid"
| "frame_owner (F_PlayAttempt sid _ _ _) = Some sid"
| "frame_owner (F_PlayShowRequest sid) = Some sid"
| "frame_owner (F_PlayShowResponse sid) = Some sid"

subsection \<open>Context\<close>

text \<open>
  The collaborators a controller is created with: the external invokers (the \<open>n\<close>-th call of
  \<open>Invoke\<close> is accepted or not), the serializer, and the engine (the \<open>n\<close>-th call of
  \<open>GenerateResult\<close>).
\<close>

record env =
  e_accept :: "nat \<Rightarrow> bool"
  e_ser_hello :: "hello \<Rightarrow> string"
  e_ser_offer :: "offer \<Rightarrow> string"
  e_ser_request :: "request \<Rightarrow> string"
  e_ser_response :: "response \<Rightarrow> string"
  e_deserialize :: "string \<Rightarrow> message outcome"
  e_generate :: "nat \<Rightarrow> cast \<Rightarrow> cast"

text \<open>Calls on the global \<open>cmd::pool\<close>, in order.\<close>

datatype pool_call = PoolShrinkToFit | PoolResize nat

text \<open>
  What the state objects act on: the command manager, the queue of the main worker as far as
  timers are concerned, the global \<open>g_negotiationRound\<close>, the number of calls of the engine, and
  the calls on the command pool.
\<close>

record ctx =
  cx_mgr :: "frame manager"
  cx_timers :: "(nat \<times> frame) list"
  cx_now :: nat
  cx_round :: u32
  cx_gen :: nat
  cx_pool :: "pool_call list"

definition ctx_init :: ctx where
  "ctx_init = \<lparr>cx_mgr = manager_init, cx_timers = [], cx_now = 0, cx_round = 0, cx_gen = 0,
               cx_pool = []\<rparr>"

text \<open>
  \<open>CommandAdapter::Command\<close>, awaited by the coroutine that continues as \<open>f\<close>: with \<open>True\<close> the
  coroutine is suspended in the manager's table, with \<open>False\<close> the response is ready and the
  caller goes on with \<open>INTEROP_FAILURE\<close>.
\<close>

definition await_command :: "env \<Rightarrow> command \<Rightarrow> frame \<Rightarrow> ctx \<Rightarrow> bool \<times> ctx" where
  "await_command e c f x =
     (let (i, m) = issue_command (e_accept e) c (cx_mgr x) in
      if await_ready i then (False, x\<lparr>cx_mgr := m\<rparr>)
      else (True, x\<lparr>cx_mgr := the (await_suspend i f m)\<rparr>))"

text \<open>\<open>CommandAdapter::FireAndForget\<close>: the \<open>FutureResponse\<close> is dropped.\<close>

definition fire_and_forget :: "env \<Rightarrow> command \<Rightarrow> ctx \<Rightarrow> ctx" where
  "fire_and_forget e c x = x\<lparr>cx_mgr := snd (issue_command (e_accept e) c (cx_mgr x))\<rparr>"

text \<open>\<open>Timer::WaitFor\<close>: the scheduler gets the handle and \<open>max(0ms, timeout)\<close>.\<close>

definition wait_for :: "int \<Rightarrow> frame \<Rightarrow> ctx \<Rightarrow> ctx" where
  "wait_for timeout f x =
     x\<lparr>cx_timers := mm_emplace (cx_now x + nat (max 0 timeout)) f (cx_timers x)\<rparr>"

text \<open>The part of \<open>Context::SwitchToState\<close> before its suspension.\<close>

definition switch_to :: "target \<Rightarrow> ctx \<Rightarrow> ctx" where
  "switch_to t x = wait_for 0 (F_Switch t) x"

definition pool_call :: "pool_call \<Rightarrow> ctx \<Rightarrow> ctx" where
  "pool_call p x = x\<lparr>cx_pool := cx_pool x @ [p]\<rparr>"

subsection \<open>Facts about the context\<close>

text \<open>Every coroutine that waits somewhere.\<close>

definition waiting :: "ctx \<Rightarrow> frame multiset" where
  "waiting x = mset (List.map_filter (cd_callback \<circ> snd) (mg_pending (cx_mgr x))) +
               image_mset snd (mset (cx_timers x))"

text \<open>The switches that are still to happen, in the order in which their timers run.\<close>

fun switch_target :: "frame \<Rightarrow> target option" where
  "switch_target (F_Switch t) = Some t"
| "switch_target _ = None"

definition switches :: "ctx \<Rightarrow> target list" where
  "switches x = List.map_filter (switch_target \<circ> snd) (cx_timers x)"

text \<open>A coroutine that awaits a response is not a switch.\<close>

definition plain_callbacks :: "(int \<times> frame cmd_data) list \<Rightarrow> bool" where
  "plain_callbacks ps \<longleftrightarrow> (\<forall>(i, d) \<in> set ps. \<forall>f. cd_callback d = Some f \<longrightarrow> switch_target f = None)"

text \<open>Identifiers and timers are in order, and every pending switch waits for a timer that is due.\<close>

definition ctx_inv :: "ctx \<Rightarrow> bool" where
  "ctx_inv x \<longleftrightarrow>
     manager_inv (cx_mgr x) \<and> plain_callbacks (mg_pending (cx_mgr x)) \<and> sorted (map fst (cx_timers x)) \<and>
     (\<forall>(t, f) \<in> set (cx_timers x). switch_target f \<noteq> None \<longrightarrow> t \<le> cx_now x)"

text \<open>
  \<open>grows e N x x'\<close>: an operation of a state object leads from \<open>x\<close> to \<open>x'\<close> and suspends the
  coroutines \<open>N\<close> on the way.  It keeps the invariant, takes no time, touches no command that was
  pending before, only issues commands, and puts its switches behind those that are pending.
\<close>

definition grows :: "env \<Rightarrow> frame multiset \<Rightarrow> ctx \<Rightarrow> ctx \<Rightarrow> bool" where
  "grows e N x x' \<longleftrightarrow>
     (ctx_inv x \<longrightarrow> ctx_inv x') \<and> waiting x' = waiting x + N \<and> cx_now x' = cx_now x \<and>
     (\<forall>i d. map_of (mg_pending (cx_mgr x)) i = Some d \<longrightarrow>
            map_of (mg_pending (cx_mgr x')) i = Some d) \<and>
     issues (e_accept e) (cx_mgr x) (cx_mgr x') \<and>
     (ctx_inv x \<longrightarrow> (\<exists>new. switches x' = switches x @ new \<and> (\<forall>t \<in> set new. F_Switch t \<in># N)))"

lemma ctx_init_inv: "ctx_inv ctx_init" "waiting ctx_init = {#}"
  by (simp_all add: ctx_inv_def ctx_init_def waiting_def manager_init_def manager_inv_def al_wf_def
      map_filter_simps plain_callbacks_def)

lemma grows_refl: "grows e {#} x x"
  by (simp add: grows_def issues_same)

lemma grows_trans:
  assumes "grows e N x y" "grows e M y z"
  shows "grows e (N + M) x z"
proof -
  have "\<exists>new. switches z = switches x @ new \<and> (\<forall>t \<in> set new. F_Switch t \<in># N + M)" if inv: "ctx_inv x"
  proof -
    obtain n where "switches y = switches x @ n" "\<forall>t \<in> set n. F_Switch t \<in># N"
      using assms(1) inv by (auto simp: grows_def)
    moreover obtain m where "switches z = switches y @ m" "\<forall>t \<in> set m. F_Switch t \<in># M"
      using assms inv by (auto simp: grows_def)
    ultimately show ?thesis by (intro exI[of _ "n @ m"]) auto
  qed
  then show ?thesis using assms issues_trans unfolding grows_def by auto
qed

lemma switches_simps [simp]:
  "switches (x\<lparr>cx_mgr := m\<rparr>) = switches x" "switches (x\<lparr>cx_pool := p\<rparr>) = switches x"
  "switches (x\<lparr>cx_round := r\<rparr>) = switches x" "switches (x\<lparr>cx_gen := n\<rparr>) = switches x"
  "switches (x\<lparr>cx_now := d\<rparr>) = switches x"
  by (simp_all add: switches_def)

lemma ctx_inv_mgr: "ctx_inv x \<Longrightarrow> manager_inv (cx_mgr x)"
  by (simp add: ctx_inv_def)

lemma waiting_mgr: 
  "mg_pending m = mg_pending (cx_mgr x) @ ps \<Longrightarrow>
   waiting (x\<lparr>cx_mgr := m\<rparr>) = waiting x + mset (List.map_filter (cd_callback \<circ> snd) ps)"
  by (simp add: waiting_def map_filter_append)

lemma grows_issue:
  assumes "issue_command (e_accept e) c (cx_mgr x) = (i, m)"
  shows "grows e {#} x (x\<lparr>cx_mgr := m\<rparr>)"
proof -
  have inv: "ctx_inv x \<Longrightarrow> plain_callbacks (mg_pending m) \<Longrightarrow> ctx_inv (x\<lparr>cx_mgr := m\<rparr>)"
    using issue_command_inv[of "cx_mgr x" "e_accept e" c] assms by (simp add: ctx_inv_def)
  have new: "issues (e_accept e) (cx_mgr x) m" using issues_issue_command assms by (metis snd_conv)
  show ?thesis
  proof (cases "await_ready i")
    case True
    then have "mg_pending m = mg_pending (cx_mgr x)"
      using issue_command_not_ctx assms by blast
    then show ?thesis using inv new waiting_mgr[of m x "[]"] by (simp add: grows_def map_filter_simps ctx_inv_def)
  next
    case False
    note new = new issue_command_ctx[OF assms False]
    from new(3) have "waiting (x\<lparr>cx_mgr := m\<rparr>) = waiting x"
      by (simp add: waiting_mgr map_filter_simps cmd_data_init_def)
    moreover have "ctx_inv x \<Longrightarrow> plain_callbacks (mg_pending m)"
      using new(3) by (auto simp: ctx_inv_def plain_callbacks_def cmd_data_init_def)
    ultimately show ?thesis using inv new
      by (auto simp: grows_def map_add_def map_of_eq_None_keys dest: map_of_SomeD split: option.splits)
  qed
qed

lemma grows_fire_and_forget: "grows e {#} x (fire_and_forget e c x)"
  using grows_issue[of e c x] unfolding fire_and_forget_def
  by (metis surjective_pairing)

lemma grows_await_command:
  assumes "await_command e c f x = (suspended, x')" "switch_target f = None"
  shows "grows e (if suspended then {#f#} else {#}) x x'"
proof -
  obtain i m where im: "issue_command (e_accept e) c (cx_mgr x) = (i, m)" by fastforce
  show ?thesis
  proof (cases "await_ready i")
    case True
    then show ?thesis using assms im grows_issue[OF im] by (auto simp: await_command_def)
  next
    case False
    note new = issue_command_ctx[OF im False]
    have iss: "issues (e_accept e) (cx_mgr x) m" using issues_issue_command im by (metis snd_conv)
    let ?m = "m\<lparr>mg_pending := mg_pending (cx_mgr x) @ [(i, cmd_data_init\<lparr>cd_callback := Some f\<rparr>)]\<rparr>"
    have susp: "await_suspend i f m = Some ?m"
      using await_suspend_after_issue[OF im False] new by (simp add: al_assign_snoc)
    then have x': "suspended" "x' = x\<lparr>cx_mgr := ?m\<rparr>"
      using assms im False by (auto simp: await_command_def)
    have "manager_inv (cx_mgr x) \<Longrightarrow> manager_inv ?m"
      using await_suspend_inv[OF susp] issue_command_inv[of "cx_mgr x"] im by (metis snd_conv)
    then have "ctx_inv x \<longrightarrow> ctx_inv x'" using assms(2)
      by (auto simp: x' ctx_inv_def plain_callbacks_def cmd_data_init_def)
    moreover have "waiting x' = waiting x + {#f#}"
      using waiting_mgr[of ?m x] by (simp add: x' map_filter_simps cmd_data_init_def)
    moreover have "issues (e_accept e) (cx_mgr x) ?m" using iss by (simp add: issues_def)
    ultimately show ?thesis using new
      by (auto simp: grows_def x' map_add_def map_of_eq_None_keys dest: map_of_SomeD split: option.splits)
  qed
qed

text \<open>When a command suspends its coroutine, and what a command that does not suspend leaves.\<close>

definition window_full :: "command \<Rightarrow> ctx \<Rightarrow> bool" where
  "window_full c x \<longleftrightarrow> {cmd_id c..<cmd_id c + COMMAND_ID 1} \<subseteq> used_ids (mg_pending (cx_mgr x))"

lemma window_not_full: "mg_pending (cx_mgr x) = [] \<Longrightarrow> \<not> window_full c x"
  by (simp add: window_full_def COMMAND_ID_def)

lemma await_command_suspends:
  "fst (await_command e c f x) \<longleftrightarrow> \<not> window_full c x \<and> e_accept e (mg_calls (cx_mgr x))"
  using in_window_not_invalid[of c]
  by (rule_tac issue_command_cases[of c "cx_mgr x" "e_accept e"])
     (auto simp: await_command_def await_ready_def window_full_def in_window_def)

lemma await_command_ready:
  assumes "\<not> fst (await_command e c f x)"
  shows "snd (await_command e c f x) =
    (if window_full c x then x else x\<lparr>cx_mgr := (cx_mgr x)\<lparr>mg_calls := Suc (mg_calls (cx_mgr x))\<rparr>\<rparr>)"
proof (cases rule: issue_command_cases[of c "cx_mgr x" "e_accept e"])
  case full
  then show ?thesis using assms by (simp add: await_command_def await_ready_def window_full_def)
next
  case refused
  then show ?thesis using assms ids.alloc_full[of "cmd_id c" "COMMAND_ID 1" "mg_pending (cx_mgr x)"]
    by (auto simp: await_command_def await_ready_def window_full_def issue_defs Let_def split: if_splits)
next
  case (sent i)
  then show ?thesis using assms in_window_not_invalid[of c i]
    by (simp add: await_command_def await_ready_def)
qed

lemma map_filter_emplace:
  "g x = None \<Longrightarrow> List.map_filter (g \<circ> snd) (mm_emplace t x ps) = List.map_filter (g \<circ> snd) ps"
  by (induction ps) (auto simp: map_filter_simps split: option.split)

lemma map_filter_none: "(\<And>p. p \<in> set ps \<Longrightarrow> g p = None) \<Longrightarrow> List.map_filter g ps = []"
  by (induction ps) (auto simp: map_filter_simps)

lemma map_filter_emplace_last:
  assumes "sorted (map fst ps)" "\<forall>(s, y) \<in> set ps. g y \<noteq> None \<longrightarrow> s \<le> t" "g x = Some z"
  shows "List.map_filter (g \<circ> snd) (mm_emplace t x ps) = List.map_filter (g \<circ> snd) ps @ [z]"
  using assms
proof (induction ps)
  case (Cons p ps)
  show ?case
  proof (cases "t < fst p")
    case True
    then have "(g \<circ> snd) q = None" if "q \<in> set (p # ps)" for q
      using that Cons.prems(1,2) by (cases q) fastforce
    then have "List.map_filter (g \<circ> snd) (p # ps) = []" by (rule map_filter_none)
    moreover have "List.map_filter (g \<circ> snd) (mm_emplace t x (p # ps)) = z # List.map_filter (g \<circ> snd) (p # ps)"
      using True Cons.prems(3) by (simp add: List.map_filter_def)
    ultimately show ?thesis by (simp only: append_Nil)
  qed (use Cons in \<open>auto simp: map_filter_simps split: option.split\<close>)
qed (simp add: map_filter_simps)

lemma switches_switch_to: "ctx_inv x \<Longrightarrow> switches (switch_to t x) = switches x @ [t]"
  by (simp add: switches_def switch_to_def wait_for_def ctx_inv_def map_filter_emplace_last)

lemma grows_wait_for:
  assumes "switch_target f = None"
  shows "grows e {#f#} x (wait_for t f x)"
  using assms
  by (auto simp: grows_def wait_for_def waiting_def mset_mm_emplace ctx_inv_def sorted_mm_emplace issues_same
      switches_def map_filter_emplace)

lemma waiting_wait_for: "f \<in># waiting (wait_for t f x)"
  by (simp add: wait_for_def waiting_def mset_mm_emplace)

lemma grows_switch_to: "grows e {#F_Switch t#} x (switch_to t x)"
  using switches_switch_to[of x t]
  by (auto simp: grows_def switch_to_def wait_for_def waiting_def mset_mm_emplace ctx_inv_def sorted_mm_emplace
      issues_same)

lemma waiting_switch_to: "F_Switch t \<in># waiting (switch_to t x)"
  using grows_switch_to[of _ t x] by (simp add: grows_def)

lemma waiting_grows: "grows e N x y \<Longrightarrow> f \<in># waiting x \<Longrightarrow> f \<in># waiting y"
  by (simp add: grows_def)

lemma grows_pool_call: "grows e {#} x (pool_call p x)"
  by (simp add: grows_def pool_call_def waiting_def ctx_inv_def issues_same)

lemma grows_round: "grows e {#} x (x\<lparr>cx_round := r\<rparr>)"
  by (simp add: grows_def waiting_def ctx_inv_def issues_same)

lemma grows_gen: "grows e {#} x (x\<lparr>cx_gen := n\<rparr>)"
  by (simp add: grows_def waiting_def ctx_inv_def issues_same)

text \<open>\<open>adds e P x x'\<close>: the same, with every new coroutine in the class \<open>P\<close>.\<close>

named_theorems adds_rules \<open>composition of operations that only suspend coroutines of one class\<close>

definition adds :: "env \<Rightarrow> (frame \<Rightarrow> bool) \<Rightarrow> ctx \<Rightarrow> ctx \<Rightarrow> bool" where
  "adds e P x x' \<longleftrightarrow> (\<exists>N. grows e N x x' \<and> (\<forall>f \<in># N. P f))"

lemma adds_grows: "grows e N x x' \<Longrightarrow> (\<forall>f \<in># N. P f) \<Longrightarrow> adds e P x x'"
  by (auto simp: adds_def)

lemma adds_refl: "adds e P x x"
  by (rule adds_grows[OF grows_refl]) simp

lemma adds_trans: "adds e P x y \<Longrightarrow> adds e P y z \<Longrightarrow> adds e P x z"
  unfolding adds_def using grows_trans by (metis union_iff)

lemma adds_mono: "adds e P x y \<Longrightarrow> (\<And>f. P f \<Longrightarrow> Q f) \<Longrightarrow> adds e Q x y"
  unfolding adds_def by blast

lemma adds_await [adds_rules]: "P f \<Longrightarrow> switch_target f = None \<Longrightarrow> adds e P x (snd (await_command e c f x))"
  using grows_await_command[of e c f x] by (cases "await_command e c f x") (auto intro!: adds_grows split: if_splits)

lemma adds_fire [adds_rules]: "adds e P x (fire_and_forget e c x)"
  using grows_fire_and_forget by (rule adds_grows) simp

lemma adds_wait_for [adds_rules]: "switch_target f = None \<Longrightarrow> P f \<Longrightarrow> adds e P x (wait_for t f x)"
  by (rule adds_grows[OF grows_wait_for]) simp_all

lemma adds_switch_to [adds_rules]: "P (F_Switch t) \<Longrightarrow> adds e P x (switch_to t x)"
  using grows_switch_to by (rule adds_grows) simp

lemma adds_pool_call [adds_rules]: "adds e P x (pool_call p x)"
  using grows_pool_call by (rule adds_grows) simp

lemma adds_round [adds_rules]: "adds e P x (x\<lparr>cx_round := r\<rparr>)"
  using grows_round by (rule adds_grows) simp

lemma adds_gen [adds_rules]: "adds e P x (x\<lparr>cx_gen := n\<rparr>)"
  using grows_gen by (rule adds_grows) simp

text \<open>The same rules for the last operation of a sequence.\<close>

lemma adds_after:
  "adds e P x y \<Longrightarrow> adds e P x (fire_and_forget e c y)"
  "adds e P x y \<Longrightarrow> switch_target f = None \<Longrightarrow> P f \<Longrightarrow> adds e P x (wait_for t f y)"
  "adds e P x y \<Longrightarrow> P (F_Switch g) \<Longrightarrow> adds e P x (switch_to g y)"
  "adds e P x y \<Longrightarrow> adds e P x (y\<lparr>cx_gen := n\<rparr>)"
  by (auto elim!: adds_trans intro: adds_rules)

text \<open>The two ways on from a command: suspended, or the response is ready.\<close>

lemma adds_await_case [adds_rules]:
  assumes "P f" "switch_target f = None" and "\<And>x'. adds e P x x' \<Longrightarrow> adds e P x (snd (k x'))"
  shows "adds e P x (snd (case await_command e c f x of (True, x') \<Rightarrow> (s, x') | (False, x') \<Rightarrow> k x'))"
  using assms adds_await[of P f e x c] by (auto split: prod.split bool.split)

lemma adds_fold:
  assumes "\<And>y x. y \<in> set ys \<Longrightarrow> adds e P x (g y x)"
  shows "adds e P x (fold g ys x)"
  using assms by (induction ys arbitrary: x) (auto intro: adds_refl adds_trans)

lemma adds_await_cases:
  assumes "adds e P x0 x" "P f" "switch_target f = None" "\<And>y. adds e P x0 y \<Longrightarrow> Q (k y)" "\<And>y. adds e P x0 y \<Longrightarrow> Q (s, y)"
  shows "Q (case await_command e c f x of (True, x') \<Rightarrow> (s, x') | (False, x') \<Rightarrow> k x')"
  using assms adds_trans[OF assms(1) adds_await[of P, OF assms(2,3)], of c]
  by (auto split: prod.split bool.split)

end
