(* ===== verification/Text_Conv.thy ===== *)
theory Text_Conv
  imports Prelude "HOL-Library.Char_ord"
begin

text \<open>
  The standard library's number conversions the code uses, on byte strings: \<open>std::to_string\<close> and
  \<open>std::to_chars\<close> of unsigned numbers, \<open>std::stoul\<close> (64-bit \<open>unsigned long\<close>) and \<open>std::stoi\<close>,
  with their exceptions, and the character classes of the C locale.
\<close>

abbreviation char_code :: "char \<Rightarrow> nat" where
  "char_code c \<equiv> of_char c"

definition is_space :: "char \<Rightarrow> bool" where
  "is_space c \<longleftrightarrow> (9 \<le> char_code c \<and> char_code c \<le> 13) \<or> char_code c = 32"

definition is_digit :: "char \<Rightarrow> bool" where
  "is_digit c \<longleftrightarrow> 48 \<le> char_code c \<and> char_code c \<le> 57"

definition is_alpha :: "char \<Rightarrow> bool" where
  "is_alpha c \<longleftrightarrow> (65 \<le> char_code c \<and> char_code c \<le> 90) \<or> (97 \<le> char_code c \<and> char_code c \<le> 122)"

definition digit_char :: "nat \<Rightarrow> char" where
  "digit_char d = char_of (48 + d)"

definition digit_value :: "char \<Rightarrow> nat" where
  "digit_value c = char_code c - 48"

subsection \<open>Printing\<close>

fun to_string :: "nat \<Rightarrow> string" where
  "to_string n = (if n < 10 then [digit_char n] else to_string (n div 10) @ [digit_char (n mod 10)])"

declare to_string.simps [simp del]

definition int_to_string :: "int \<Rightarrow> string" where
  "int_to_string i = (if i < 0 then CHR ''-'' # to_string (nat (- i)) else to_string (nat i))"

subsection \<open>Parsing\<close>

definition dec_value :: "string \<Rightarrow> nat" where
  "dec_value ds = foldl (\<lambda>n c. n * 10 + digit_value c) 0 ds"

text \<open>
  \<open>strtoul\<close> and \<open>strtol\<close> in base 10: white space is skipped, a sign is optional, the longest
  prefix of digits counts and the rest is ignored; \<open>None\<close> when there is no digit.
\<close>

definition parse_decimal :: "string \<Rightarrow> (bool \<times> nat) option" where
  "parse_decimal str =
     (let t = dropWhile is_space str;
          (neg, u) = (case t of
                        [] \<Rightarrow> (False, [])
                      | c # cs \<Rightarrow> if c = CHR ''-'' then (True, cs)
                                  else if c = CHR ''+'' then (False, cs) else (False, c # cs));
          ds = takeWhile is_digit u
      in if ds = [] then None else Some (neg, dec_value ds))"

definition stoul :: "string \<Rightarrow> nat outcome" where
  "stoul str =
     (case parse_decimal str of
        None \<Rightarrow> Throw InvalidArgument
      | Some (neg, n) \<Rightarrow>
          if n \<ge> 2 ^ 64 then Throw OutOfRange
          else Ok (if neg then (2 ^ 64 - n) mod 2 ^ 64 else n))"

definition stoi :: "string \<Rightarrow> int outcome" where
  "stoi str =
     (case parse_decimal str of
        None \<Rightarrow> Throw InvalidArgument
      | Some (neg, n) \<Rightarrow>
          (let i = (if neg then - int n else int n) in
           if i < - (2 ^ 31) \<or> i \<ge> 2 ^ 31 then Throw OutOfRange else Ok i))"

subsection \<open>Round trips\<close>

lemma digit_char_code: "d < 10 \<Longrightarrow> char_code (digit_char d) = 48 + d"
  by (simp add: digit_char_def)

lemma digit_char_simps [simp]:
  assumes "d < 10"
  shows "is_digit (digit_char d)" "digit_value (digit_char d) = d" "\<not> is_space (digit_char d)"
    "digit_char d \<noteq> CHR ''-''" "digit_char d \<noteq> CHR ''+''"
proof -
  have c: "char_code (digit_char d) = 48 + d" using assms by (rule digit_char_code)
  show "is_digit (digit_char d)" "digit_value (digit_char d) = d" "\<not> is_space (digit_char d)"
    using c assms by (simp_all add: is_digit_def digit_value_def is_space_def)
  show "digit_char d \<noteq> CHR ''-''" "digit_char d \<noteq> CHR ''+''" using c by auto
qed

lemma to_string_digits: "\<forall>c \<in> set (to_string n). is_digit c"
proof (induction n rule: to_string.induct)
  case (1 n)
  then show ?case by (subst to_string.simps) auto
qed

lemma to_string_nonempty [simp]: "to_string n \<noteq> []"
  by (subst to_string.simps) simp

lemma dec_value_snoc: "dec_value (ds @ [c]) = dec_value ds * 10 + digit_value c"
  by (simp add: dec_value_def)

lemma dec_value_to_string [simp]: "dec_value (to_string n) = n"
proof (induction n rule: to_string.induct)
  case (1 n)
  show ?case
  proof (cases "n < 10")
    case True
    then show ?thesis by (subst to_string.simps) (simp add: dec_value_def)
  next
    case False
    with 1 show ?thesis by (subst to_string.simps) (simp add: dec_value_snoc)
  qed
qed

lemma parse_decimal_to_string: "parse_decimal (to_string n) = Some (False, n)"
proof -
  obtain c cs where s: "to_string n = c # cs" by (cases "to_string n") auto
  have d: "\<forall>x \<in> set (to_string n). is_digit x" by (rule to_string_digits)
  then have "is_digit c" using s by simp
  then have "\<not> is_space c" "c \<noteq> CHR ''-''" "c \<noteq> CHR ''+''"
    by (auto simp: is_digit_def is_space_def)
  moreover have "takeWhile is_digit (c # cs) = c # cs" using d s by (simp add: takeWhile_eq_all_conv)
  moreover have "dec_value (c # cs) = n" using s dec_value_to_string[of n] by simp
  ultimately show ?thesis by (simp add: parse_decimal_def s)
qed

lemma stoul_to_string: "n < 2 ^ 64 \<Longrightarrow> stoul (to_string n) = Ok n"
  by (simp add: stoul_def parse_decimal_to_string)

lemma stoi_to_string:
  "stoi (to_string n) = (if n < 2 ^ 31 then Ok (int n) else Throw OutOfRange)"
  by (auto simp: stoi_def parse_decimal_to_string Let_def)

lemma stoul_not_Undef [simp]: "stoul s \<noteq> Undef"
  by (auto simp: stoul_def split: option.splits)

lemma stoi_not_Undef [simp]: "stoi s \<noteq> Undef"
  by (auto simp: stoi_def Let_def split: option.splits)

end
