(* ===== verification/Events.thy ===== *)
theory Events
  imports Fsm_Base Text_Conv
begin

text \<open>
  The events of sign/events.cpp and sign/events.hpp: each handler checks its arguments and calls
  one virtual function of the current state.
\<close>

text \<open>The virtual functions of \<open>fsm::StateBase\<close> (fsm/statebase.hpp), with their arguments.\<close>

datatype state_call =
    OnBluetoothOn | OnBluetoothOff
  | OnDeviceConnected device | OnDeviceDisconnected device
  | OnConnectivityEstablished | OnNewGame
  | OnMessageReceived device string
  | OnCastRequest request
  | OnGameStopped
  | OnSocketReadFailure device

text \<open>The \<open>ID\<close>s of the handlers.\<close>

abbreviation EV_RemoteDeviceConnected :: int where "EV_RemoteDeviceConnected \<equiv> 10"
abbreviation EV_RemoteDeviceDisconnected :: int where "EV_RemoteDeviceDisconnected \<equiv> 11"
abbreviation EV_ConnectivityEstablished :: int where "EV_ConnectivityEstablished \<equiv> 12"
abbreviation EV_NewGameRequested :: int where "EV_NewGameRequested \<equiv> 13"
abbreviation EV_MessageReceived :: int where "EV_MessageReceived \<equiv> 14"
abbreviation EV_CastRequestIssued :: int where "EV_CastRequestIssued \<equiv> 15"
abbreviation EV_GameStopped :: int where "EV_GameStopped \<equiv> 16"
abbreviation EV_BluetoothOn :: int where "EV_BluetoothOn \<equiv> 17"
abbreviation EV_BluetoothOff :: int where "EV_BluetoothOff \<equiv> 18"
abbreviation EV_SocketReadFailed :: int where "EV_SocketReadFailed \<equiv> 19"

text \<open>
  Each handler yields the call it makes, or \<open>None\<close> where it returns false.  The three handlers
  of a device take "mac", "name".
\<close>

definition device_args :: "string list \<Rightarrow> device option" where
  "device_args args =
     (if length args < 2 \<or> args ! 0 = [] then None
      else Some \<lparr>dv_name = args ! 1, dv_mac = args ! 0\<rparr>)"

definition remote_device_connected :: "string list \<Rightarrow> state_call option" where
  "remote_device_connected args = map_option OnDeviceConnected (device_args args)"

definition remote_device_disconnected :: "string list \<Rightarrow> state_call option" where
  "remote_device_disconnected args = map_option OnDeviceDisconnected (device_args args)"

definition message_received :: "string list \<Rightarrow> state_call option" where
  "message_received args =
     (if length args < 3 then None
      else Some (OnMessageReceived \<lparr>dv_name = args ! 2, dv_mac = args ! 1\<rparr> (args ! 0)))"

text \<open>\<open>threshold\<close> is an \<open>optional<uint32_t>\<close> that is assigned an \<open>int\<close>.\<close>

definition cast_request_issued :: "string list \<Rightarrow> state_call option" where
  "cast_request_issued args =
     (if length args < 2 then None
      else
        (case obind (stoul (args ! 1)) (\<lambda>n.
              obind (make_cast (args ! 0) n) (\<lambda>c.
              if length args = 3
              then obind (stoi (args ! 2)) (\<lambda>t.
                     Ok \<lparr>rq_cast = c, rq_threshold = Some (word_of_int t)\<rparr>)
              else Ok \<lparr>rq_cast = c, rq_threshold = None\<rparr>)) of
           Ok request \<Rightarrow> Some (OnCastRequest request)
         | _ \<Rightarrow> None))"

definition socket_read_failed :: "string list \<Rightarrow> state_call option" where
  "socket_read_failed args = map_option OnSocketReadFailure (device_args args)"

text \<open>
  The handler map \<open>Controller::CreateEventHandlers\<close> builds from \<open>event::Dictionary\<close>; the handlers
  without arguments are written in place.
\<close>

definition event_handler :: "int \<Rightarrow> (string list \<Rightarrow> state_call option) option" where
  "event_handler eventId =
     (if eventId = EV_RemoteDeviceConnected then Some remote_device_connected
      else if eventId = EV_RemoteDeviceDisconnected then Some remote_device_disconnected
      else if eventId = EV_ConnectivityEstablished then Some (\<lambda>_. Some OnConnectivityEstablished)
      else if eventId = EV_NewGameRequested then Some (\<lambda>_. Some OnNewGame)
      else if eventId = EV_MessageReceived then Some message_received
      else if eventId = EV_CastRequestIssued then Some cast_request_issued
      else if eventId = EV_GameStopped then Some (\<lambda>_. Some OnGameStopped)
      else if eventId = EV_BluetoothOn then Some (\<lambda>_. Some OnBluetoothOn)
      else if eventId = EV_BluetoothOff then Some (\<lambda>_. Some OnBluetoothOff)
      else if eventId = EV_SocketReadFailed then Some socket_read_failed
      else None)"

subsection \<open>Properties\<close>

text \<open>
  A request the user interface sends, the name of a die, the number of dice and a threshold in
  decimal, reaches the state as exactly this request with dice that show nothing yet; a threshold
  the code cannot read as an \<open>int\<close> makes the handler refuse the event.
\<close>

theorem cast_request_roundtrip:
  assumes "cast_size c < 2 ^ 64"
  shows "cast_request_issued [type_to_string c, to_string (cast_size c), to_string (unat t)] =
           (if unat t < 2 ^ 31
            then Some (OnCastRequest \<lparr>rq_cast = cast_update (map (\<lambda>_. 0)) c, rq_threshold = Some t\<rparr>)
            else None) \<and>
         cast_request_issued [type_to_string c, to_string (cast_size c)] =
           Some (OnCastRequest \<lparr>rq_cast = cast_update (map (\<lambda>_. 0)) c, rq_threshold = None\<rparr>)"
proof -
  have "cast_update (\<lambda>_. replicate (cast_size c) 0) c = cast_update (map (\<lambda>_. 0)) c"
    by (cases c) (simp_all add: map_replicate_const)
  then show ?thesis using assms
    by (simp add: cast_request_issued_def stoul_to_string stoi_to_string make_cast_type_to_string)
qed

theorem cast_request_roundtrip_witness:
  "cast_request_issued [''D6'', to_string 1, to_string 5] =
     Some (OnCastRequest \<lparr>rq_cast = D6 [0], rq_threshold = Some 5\<rparr>)"
  using cast_request_roundtrip[of "D6 [1]" 5] by simp



end
