(* ===== verification/State_Object.thy ===== *)
theory State_Object
  imports Fsm_Base
begin

text \<open>
  What a state object owes the controller: how its members and its waiting coroutines relate,
  stated once as a contract (the locales \<open>state_object\<close> and \<open>fsm_state_object\<close>) that the theories of
  the four states interpret.
\<close>

subsection \<open>Waiting coroutines\<close>

text \<open>How many of the waiting coroutines are of one kind.\<close>

definition tasks :: "(frame \<Rightarrow> bool) \<Rightarrow> frame multiset \<Rightarrow> nat" where
  "tasks P W = size (filter_mset P W)"

lemma tasks_simps [simp]:
  "tasks P {#} = 0"
  "tasks P (add_mset f W) = (if P f then Suc (tasks P W) else tasks P W)"
  "tasks P (W + V) = tasks P W + tasks P V"
  by (auto simp: tasks_def)

lemma tasks_none: "(\<And>f. f \<in># W \<Longrightarrow> \<not> P f) \<Longrightarrow> tasks P W = 0"
  by (induction W) auto

lemma tasks_0: "tasks P W = 0 \<Longrightarrow> f \<in># W \<Longrightarrow> \<not> P f"
  by (induction W) (auto split: if_splits)

text \<open>The sets of peers that travel with a switch have one device per address.\<close>

fun target_ok :: "target \<Rightarrow> bool" where
  "target_ok (T_Negotiating peers _) = dv_wf peers"
| "target_ok (T_NegotiatingWith peers _ _ _) = dv_wf peers"
| "target_ok (T_Playing peers _ _) = dv_wf peers"
| "target_ok _ = True"

fun switch_ok :: "frame \<Rightarrow> bool" where
  "switch_ok (F_Switch t) = target_ok t"
| "switch_ok _ = False"

text \<open>
  All waiting coroutines belong to objects constructed so far, and every pending switch carries
  well-formed arguments.
\<close>

definition frames_ok :: "nat \<Rightarrow> frame multiset \<Rightarrow> bool" where
  "frames_ok next W \<longleftrightarrow>
     (\<forall>f \<in># W. (\<forall>own. frame_owner f = Some own \<longrightarrow> own < next) \<and>
               (\<forall>t. f = F_Switch t \<longrightarrow> target_ok t))"

lemma switch_ok_F_Switch: "switch_ok f \<Longrightarrow> \<exists>t. f = F_Switch t \<and> target_ok t"
  by (cases f) auto

lemma frames_ok_add:
  assumes "frames_ok next W" "\<forall>f \<in># N. frame_owner f = Some sid \<or> switch_ok f" "sid < next"
  shows "frames_ok next (W + N)"
proof -
  have "(\<forall>own. frame_owner f = Some own \<longrightarrow> own < next) \<and> (\<forall>t. f = F_Switch t \<longrightarrow> target_ok t)"
    if "frame_owner f = Some sid \<or> switch_ok f" for f
    using that assms(3) by (auto dest: switch_ok_F_Switch)
  with assms(1,2) show ?thesis unfolding frames_ok_def by auto
qed

text \<open>Operations that suspend nothing.\<close>

definition quiet :: "env \<Rightarrow> ctx \<Rightarrow> ctx \<Rightarrow> bool" where
  "quiet e x y \<longleftrightarrow> grows e {#} x y"

lemma quiet_refl: "quiet e x x"
  by (simp add: quiet_def grows_refl)

lemma quiet_step: "quiet e x y \<Longrightarrow> grows e {#} y z \<Longrightarrow> quiet e x z"
  unfolding quiet_def using grows_trans by fastforce

lemma quiet_fire: "quiet e x y \<Longrightarrow> quiet e x (fire_and_forget e c y)"
  by (rule quiet_step[OF _ grows_fire_and_forget])

lemma quiet_pool: "quiet e x y \<Longrightarrow> quiet e x (pool_call p y)"
  by (rule quiet_step[OF _ grows_pool_call])

lemma quiet_round: "quiet e x y \<Longrightarrow> quiet e x (y\<lparr>cx_round := r\<rparr>)"
  by (rule quiet_step[OF _ grows_round])

lemma quiet_gen: "quiet e x y \<Longrightarrow> quiet e x (y\<lparr>cx_gen := n\<rparr>)"
  by (rule quiet_step[OF _ grows_gen])

lemmas quiet_intros = quiet_refl quiet_fire quiet_pool quiet_round quiet_gen

lemma quiet_fold: "(\<And>v w. quiet e x w \<Longrightarrow> quiet e x (f v w)) \<Longrightarrow> quiet e x y \<Longrightarrow> quiet e x (fold f vs y)"
  by (induction vs arbitrary: y) auto

subsection \<open>The contract\<close>

text \<open>
  The contract between a state object and the controller.  \<open>frames\<close> are the coroutines the
  object may suspend, and \<open>inv\<close> relates the object to the coroutines that wait; it looks at the
  object's own coroutines only.  \<open>ok\<close> says of an operation, started while the coroutines \<open>W\<close>
  wait, that it only suspends such coroutines and ends in the invariant.
\<close>

locale state_object =
  fixes frames :: "nat \<Rightarrow> frame \<Rightarrow> bool"
    and inv :: "nat \<Rightarrow> 's \<Rightarrow> frame multiset \<Rightarrow> bool"
  assumes inv_foreign: "frame_owner f \<noteq> Some sid \<Longrightarrow> inv sid s (add_mset f W) = inv sid s W"
    and inv_frames: "inv sid s W \<Longrightarrow> f \<in># W \<Longrightarrow> frame_owner f = Some sid \<Longrightarrow> frames sid f"
    and frames_owned: "frames sid f \<Longrightarrow> frame_owner f = Some sid \<or> switch_ok f"
begin

definition ok :: "env \<Rightarrow> nat \<Rightarrow> frame multiset \<Rightarrow> ctx \<Rightarrow> 's \<times> ctx \<Rightarrow> bool" where
  "ok e sid W x r \<longleftrightarrow>
     (\<exists>N. grows e N x (snd r) \<and> (\<forall>f \<in># N. frames sid f) \<and> inv sid (fst r) (W + N))"

lemma okI:
  "grows e N x x' \<Longrightarrow> (\<forall>f \<in># N. frames sid f) \<Longrightarrow> inv sid s' (W + N) \<Longrightarrow> ok e sid W x (s', x')"
  by (auto simp: ok_def)

lemma ok_after:
  assumes "grows e M x y" "\<forall>f \<in># M. frames sid f" "ok e sid (W + M) y r"
  shows "ok e sid W x r"
proof -
  from assms(3) obtain N
    where N: "grows e N y (snd r)" "\<forall>f \<in># N. frames sid f" "inv sid (fst r) (W + M + N)"
    by (auto simp: ok_def)
  show ?thesis unfolding ok_def
    using grows_trans[OF assms(1) N(1)] N(2,3) assms(2)
    by (intro exI[of _ "M + N"]) (auto simp: add.assoc)
qed

lemma ok_seq:
  assumes "ok e sid W x r" and "\<And>V. inv sid (fst r) V \<Longrightarrow> ok e sid V (snd r) r'"
  shows "ok e sid W x r'"
  using assms ok_after unfolding ok_def[of e sid W x r] by blast

lemma inv_switch [simp]: "inv sid s (add_mset (F_Switch t) W) = inv sid s W"
  by (simp add: inv_foreign)

lemma ok_quiet: "quiet e x y \<Longrightarrow> ok e sid W y r \<Longrightarrow> ok e sid W x r"
  by (rule ok_after[where M = "{#}"]) (auto simp: quiet_def)

lemma ok_stay: "quiet e x y \<Longrightarrow> inv sid s W \<Longrightarrow> ok e sid W x (s, y)"
  by (rule okI[where N = "{#}"]) (auto simp: quiet_def)

lemma ok_here: "inv sid s W \<Longrightarrow> ok e sid W x (s, x)"
  by (rule ok_stay[OF quiet_refl])

lemma ok_wait:
  "quiet e x y \<Longrightarrow> switch_target f = None \<Longrightarrow> frames sid f \<Longrightarrow> inv sid s (add_mset f W) \<Longrightarrow>
   ok e sid W x (s, wait_for t f y)"
  by (rule ok_quiet, assumption, rule okI[OF grows_wait_for]) auto

lemma ok_switch:
  "quiet e x y \<Longrightarrow> frames sid (F_Switch t) \<Longrightarrow> inv sid s W \<Longrightarrow> ok e sid W x (s, switch_to t y)"
  by (rule ok_quiet, assumption, rule okI[OF grows_switch_to]) auto

text \<open>Both continuations of a command.\<close>

lemma ok_command:
  assumes "frames sid f" "switch_target f = None" "inv sid s (add_mset f W)" "\<And>y. ok e sid W y (k y)"
  shows "ok e sid W x (case await_command e c f x of (True, x') \<Rightarrow> (s, x') | (False, x') \<Rightarrow> k x')"
proof -
  obtain b x' where c: "await_command e c f x = (b, x')" by fastforce
  show ?thesis using assms grows_await_command[OF c] c
    by (cases b) (auto intro: okI[where N = "{#f#}"] ok_quiet simp: quiet_def)
qed

lemma ok_command_end:
  assumes "frames sid f" "switch_target f = None" "inv sid s (add_mset f W)" "inv sid s W"
  shows "ok e sid W x (s, snd (await_command e c f x))"
  using ok_command[OF assms(1-3), of e "\<lambda>y. (s, y)" x c] ok_here[OF assms(4)]
  by (cases "await_command e c f x") (auto split: bool.splits)

text \<open>Operations that suspend any number of coroutines of which the invariant keeps no count.\<close>

lemma ok_adds:
  assumes "adds e P x y" "\<And>f. P f \<Longrightarrow> frames sid f" 
    "\<And>f V. P f \<Longrightarrow> inv sid s V \<Longrightarrow> inv sid s (add_mset f V)" "inv sid s W"
  shows "ok e sid W x (s, y)"
proof -
  obtain N where N: "grows e N x y" "\<forall>f \<in># N. P f" using assms(1) by (auto simp: adds_def)
  from N(2) have "inv sid s (W + N)" by (induction N) (use assms in auto)
  with N assms(2) show ?thesis by (intro okI) auto
qed

lemma ok_frames:
  "ok e sid W x r \<Longrightarrow> sid < next \<Longrightarrow> frames_ok next W \<Longrightarrow>
   \<exists>N. grows e N x (snd r) \<and> inv sid (fst r) (W + N) \<and> frames_ok next (W + N) \<and> (\<forall>f \<in># N. frames sid f)"
  using frames_owned frames_ok_add unfolding ok_def by metis

end

text \<open>
  A state of the state machine: its virtual functions keep the contract, and so does the
  resumption of one of its coroutines, which then no longer waits.
\<close>

locale fsm_state_object = state_object frames inv
  for frames :: "nat \<Rightarrow> frame \<Rightarrow> bool" and inv :: "nat \<Rightarrow> 's \<Rightarrow> frame multiset \<Rightarrow> bool" +
  fixes call :: "env \<Rightarrow> nat \<Rightarrow> 'c \<Rightarrow> 's \<Rightarrow> ctx \<Rightarrow> ('s \<times> ctx) option"
    and resume :: "env \<Rightarrow> nat \<Rightarrow> frame \<Rightarrow> rcode \<Rightarrow> 's \<Rightarrow> ctx \<Rightarrow> ('s \<times> ctx) option"
  assumes call_ok: "inv sid s W \<Longrightarrow> call e sid c s x = Some r \<Longrightarrow> ok e sid W x r"
    and resume_ok: "inv sid s W \<Longrightarrow> f \<in># W \<Longrightarrow> frame_owner f = Some sid \<Longrightarrow>
      resume e sid f code s x = Some r \<Longrightarrow> ok e sid (W - {#f#}) x r"
begin

lemma call_frames:
  "inv sid s W \<Longrightarrow> call e sid c s x = Some r \<Longrightarrow> sid < next \<Longrightarrow> frames_ok next W \<Longrightarrow>
   \<exists>N. grows e N x (snd r) \<and> inv sid (fst r) (W + N) \<and> frames_ok next (W + N) \<and> (\<forall>f \<in># N. frames sid f)"
  using call_ok ok_frames by metis

lemma resume_frames:
  assumes "inv sid s W" "f \<in># W" "frame_owner f = Some sid" "resume e sid f code s x = Some r"
    "sid < next" "frames_ok next W"
  shows "\<exists>N. grows e N x (snd r) \<and> inv sid (fst r) (W - {#f#} + N) \<and> frames_ok next (W - {#f#} + N) \<and>
             (\<forall>f \<in># N. frames sid f)"
proof -
  have "frames_ok next (W - {#f#})" using assms(6) by (auto simp: frames_ok_def dest: in_diffD)
  then show ?thesis using resume_ok[OF assms(1-4)] ok_frames[OF _ assms(5)] by metis
qed

text \<open>No history makes the object hold a coroutine of another object.\<close>

lemma call_waiting: 
  assumes "inv sid s (waiting x)" "call e sid c s x = Some r"
  shows "inv sid (fst r) (waiting (snd r))"
  using call_ok[OF assms] by (auto simp: ok_def grows_def)

end

end
