(* ===== verification/Fsm_Idle.thy ===== *)
theory Fsm_Idle
  imports Events State_Object
begin

text \<open>
  \<open>fsm::StateIdle\<close> (fsm/stateidle.cpp): waits until Bluetooth is on and a game was requested.
  An operation takes the serial number of the object, the object and the context.
\<close>

text \<open>
  \<open>id_enableBt\<close> is the task \<open>m_enableBtTask\<close>: the serial number of the coroutine the handle holds
  while that coroutine has not finished, \<open>None\<close> when the handle converts to false.
  \<open>id_next\<close> numbers the coroutines the handle has held.
\<close>

record idle =
  id_enableBt :: "nat option"
  id_next :: nat
  id_newGamePending :: bool
  id_bluetoothOn :: bool

text \<open>
  The coroutine \<open>RequestBluetoothOn\<close>: \<open>idle_sleep\<close> is the branch that waits for a second,
  \<open>idle_request\<close> the loop from its head, \<open>idle_enable_result\<close> the rest of the body after the
  response.
\<close>

definition idle_finish :: "idle \<Rightarrow> idle" where
  "idle_finish s = s\<lparr>id_enableBt := None\<rparr>"

definition idle_sleep :: "nat \<Rightarrow> nat \<Rightarrow> idle \<Rightarrow> ctx \<Rightarrow> idle \<times> ctx" where
  "idle_sleep sid tid s x = (s, wait_for 1000 (F_IdleWait sid tid) x)"

definition idle_request :: "env \<Rightarrow> nat \<Rightarrow> nat \<Rightarrow> idle \<Rightarrow> ctx \<Rightarrow> idle \<times> ctx" where
  "idle_request e sid tid s x =
     (if id_bluetoothOn s then (idle_finish s, x)
      else
        (case await_command e EnableBluetooth (F_IdleEnable sid tid) x of
           (True, x') \<Rightarrow> (s, x')
         | (False, x') \<Rightarrow> idle_sleep sid tid s x'))"

definition idle_enable_result ::
  "env \<Rightarrow> nat \<Rightarrow> nat \<Rightarrow> rcode \<Rightarrow> idle \<Rightarrow> ctx \<Rightarrow> idle \<times> ctx" where
  "idle_enable_result e sid tid result s x =
     (if result = R_INTEROP_FAILURE \<or> result = R_INVALID_STATE then idle_sleep sid tid s x
      else if result = R_OK then
        (let x1 = (if id_newGamePending s then switch_to T_Connecting x else x)
         in idle_request e sid tid (s\<lparr>id_bluetoothOn := True\<rparr>) x1)
      else if result = R_NO_BT_ADAPTER then
        (let x1 = fire_and_forget e (ShowAndExit ''Cannot proceed due to a fatal failure.'') x;
             x2 = switch_to T_None x1
         in (idle_finish s, x2))
      else if result = R_USER_DECLINED then (idle_finish s, x)
      else idle_request e sid tid s x)"

text \<open>\<open>m_enableBtTask = RequestBluetoothOn(); m_enableBtTask.Run(Executor());\<close>\<close>

definition idle_start_request :: "env \<Rightarrow> nat \<Rightarrow> idle \<Rightarrow> ctx \<Rightarrow> idle \<times> ctx" where
  "idle_start_request e sid s x =
     (let tid = id_next s
      in idle_request e sid tid (s\<lparr>id_enableBt := Some tid, id_next := Suc tid\<rparr>) x)"

definition idle_on_new_game :: "env \<Rightarrow> nat \<Rightarrow> idle \<Rightarrow> ctx \<Rightarrow> idle \<times> ctx" where
  "idle_on_new_game e sid s x =
     (let s1 = s\<lparr>id_newGamePending := True\<rparr> in
      if id_bluetoothOn s1 then (s1, switch_to T_Connecting x)
      else if id_enableBt s1 = None then idle_start_request e sid s1 x
      else (s1, x))"

definition idle_on_bluetooth_on :: "env \<Rightarrow> nat \<Rightarrow> idle \<Rightarrow> ctx \<Rightarrow> idle \<times> ctx" where
  "idle_on_bluetooth_on e sid s x =
     (let s1 = s\<lparr>id_bluetoothOn := True\<rparr>;
          s2 = s1\<lparr>id_enableBt := None\<rparr>
      in if id_newGamePending s2 then (s2, switch_to T_Connecting x) else (s2, x))"

definition idle_on_bluetooth_off :: "env \<Rightarrow> nat \<Rightarrow> idle \<Rightarrow> ctx \<Rightarrow> idle \<times> ctx" where
  "idle_on_bluetooth_off e sid s x =
     (let s1 = s\<lparr>id_bluetoothOn := False\<rparr> in
      if id_enableBt s1 = None then idle_start_request e sid s1 x else (s1, x))"

text \<open>The constructor.\<close>

definition idle_construct :: "env \<Rightarrow> nat \<Rightarrow> bool \<Rightarrow> ctx \<Rightarrow> idle \<times> ctx" where
  "idle_construct e sid startNewGame x =
     (let s0 = \<lparr>id_enableBt = None, id_next = 0, id_newGamePending = False, id_bluetoothOn = False\<rparr>;
          (s1, x1) = idle_start_request e sid s0 x;
          x2 = pool_call PoolShrinkToFit x1
      in if startNewGame then idle_on_new_game e sid s1 x2 else (s1, x2))"

text \<open>A resumed coroutine of this object; one the handle no longer holds was cancelled.\<close>

definition idle_alive :: "nat \<Rightarrow> idle \<Rightarrow> bool" where
  "idle_alive tid s \<longleftrightarrow> id_enableBt s = Some tid"

subsection \<open>Dispatch\<close>

text \<open>
  The virtual functions of this state (one it does not override does nothing, fsm/statebase.hpp),
  and what a coroutine of this object does when it is resumed with a response (a timeout passes
  one too, which is not read).
\<close>

fun call_idle :: "env \<Rightarrow> nat \<Rightarrow> state_call \<Rightarrow> idle \<Rightarrow> ctx \<Rightarrow> (idle \<times> ctx) option" where
  "call_idle e sid OnBluetoothOn s x = Some (idle_on_bluetooth_on e sid s x)"
| "call_idle e sid OnBluetoothOff s x = Some (idle_on_bluetooth_off e sid s x)"
| "call_idle e sid OnNewGame s x = Some (idle_on_new_game e sid s x)"
| "call_idle e sid _ s x = Some (s, x)"

fun resume_idle :: "env \<Rightarrow> nat \<Rightarrow> frame \<Rightarrow> rcode \<Rightarrow> idle \<Rightarrow> ctx \<Rightarrow> (idle \<times> ctx) option" where
  "resume_idle e sid (F_IdleEnable _ tid) r s x =
     Some (if idle_alive tid s then idle_enable_result e sid tid r s x else (s, x))"
| "resume_idle e sid (F_IdleWait _ tid) r s x =
     Some (if idle_alive tid s then idle_request e sid tid s x else (s, x))"
| "resume_idle e sid _ r s x = Some (s, x)"

subsection \<open>Invariant\<close>

text \<open>
  The coroutines of an idle object.  When \<open>m_enableBtTask\<close> holds an unfinished coroutine, this one
  waits exactly once and Bluetooth is off; \<open>idle_running\<close> is the variant while that coroutine is
  being executed.
\<close>

fun idle_frame :: "nat \<Rightarrow> frame \<Rightarrow> bool" where
  "idle_frame sid (F_IdleEnable own _) = (own = sid)"
| "idle_frame sid (F_IdleWait own _) = (own = sid)"
| "idle_frame sid (F_Switch t) = (t = T_Connecting \<or> t = T_None)"
| "idle_frame sid _ = False"

fun idle_task :: "nat \<Rightarrow> nat \<Rightarrow> frame \<Rightarrow> bool" where
  "idle_task sid tid (F_IdleEnable own t) = (own = sid \<and> t = tid)"
| "idle_task sid tid (F_IdleWait own t) = (own = sid \<and> t = tid)"
| "idle_task sid tid _ = False"

definition idle_waits :: "nat \<Rightarrow> nat \<Rightarrow> idle \<Rightarrow> frame multiset \<Rightarrow> bool" where
  "idle_waits n sid s W \<longleftrightarrow>
     (\<forall>f \<in># W. frame_owner f = Some sid \<longrightarrow> idle_frame sid f) \<and>
     (\<forall>tid. 0 < tasks (idle_task sid tid) W \<longrightarrow> tid < id_next s) \<and>
     (\<forall>tid. id_enableBt s = Some tid \<longrightarrow> tid < id_next s \<and> tasks (idle_task sid tid) W = n)"

definition idle_inv :: "nat \<Rightarrow> idle \<Rightarrow> frame multiset \<Rightarrow> bool" where
  "idle_inv sid s W \<longleftrightarrow>
     idle_waits 1 sid s W \<and> (id_enableBt s \<noteq> None \<longrightarrow> \<not> id_bluetoothOn s)"

definition idle_running :: "nat \<Rightarrow> nat \<Rightarrow> idle \<Rightarrow> frame multiset \<Rightarrow> bool" where
  "idle_running sid tid s W \<longleftrightarrow> idle_waits 0 sid s W \<and> id_enableBt s = Some tid"

lemma idle_task_owner: "idle_task sid tid f \<Longrightarrow> frame_owner f = Some sid \<and> idle_frame sid f"
  by (cases f) auto

lemma idle_waits_foreign:
  "frame_owner f \<noteq> Some sid \<Longrightarrow> idle_waits n sid s (add_mset f W) = idle_waits n sid s W"
  using idle_task_owner[of sid _ f] by (auto simp: idle_waits_def)

interpretation idle: state_object idle_frame idle_inv
proof
  show "idle_inv sid s (add_mset f W) = idle_inv sid s W" if "frame_owner f \<noteq> Some sid" for f sid s W
    using that by (simp add: idle_inv_def idle_waits_foreign)
  show "idle_frame sid f" if "idle_inv sid s W" "f \<in># W" "frame_owner f = Some sid" for f sid s W
    using that by (auto simp: idle_inv_def idle_waits_def)
  show "frame_owner f = Some sid \<or> switch_ok f" if "idle_frame sid f" for sid f
    using that by (cases f) auto
qed

text \<open>The task suspends itself, ends, or is started anew.\<close>

lemma idle_running_suspend:
  "idle_running sid tid s W \<Longrightarrow> \<not> id_bluetoothOn s \<Longrightarrow> idle_task sid tid f \<Longrightarrow>
   idle_inv sid s (add_mset f W)"
  using idle_task_owner[of sid tid f]
  by (cases f) (auto simp: idle_running_def idle_inv_def idle_waits_def)

lemma idle_running_finish: "idle_running sid tid s W \<Longrightarrow> idle_inv sid (idle_finish s) W"
  by (simp add: idle_running_def idle_inv_def idle_waits_def idle_finish_def)

lemma idle_running_on:
  "idle_running sid tid s W \<Longrightarrow> idle_running sid tid (s\<lparr>id_bluetoothOn := b\<rparr>) W"
  by (simp add: idle_running_def idle_waits_def)

lemma idle_inv_start:
  assumes "idle_inv sid s W"
  shows "idle_running sid (id_next s) (s\<lparr>id_enableBt := Some (id_next s), id_next := Suc (id_next s)\<rparr>) W"
proof -
  have "tasks (idle_task sid (id_next s)) W = 0"
    using assms unfolding idle_inv_def idle_waits_def by (metis less_irrefl neq0_conv)
  with assms show ?thesis
    by (auto simp: idle_running_def idle_inv_def idle_waits_def less_Suc_eq)
qed

lemma idle_inv_newGame: "idle_inv sid (s\<lparr>id_newGamePending := b\<rparr>) W = idle_inv sid s W"
  by (simp add: idle_inv_def idle_waits_def)

lemma idle_inv_cancel: 
  "idle_inv sid s W \<Longrightarrow> idle_inv sid (s\<lparr>id_bluetoothOn := b, id_enableBt := None\<rparr>) W"
  by (simp add: idle_inv_def idle_waits_def)

lemma idle_inv_off: "idle_inv sid s W \<Longrightarrow> idle_inv sid (s\<lparr>id_bluetoothOn := False\<rparr>) W"
  by (simp add: idle_inv_def idle_waits_def)

subsection \<open>Every operation keeps it\<close>

lemma idle_sleep_ok:
  "idle_running sid tid s W \<Longrightarrow> \<not> id_bluetoothOn s \<Longrightarrow> idle.ok e sid W x (idle_sleep sid tid s x)"
  unfolding idle_sleep_def
  by (auto intro!: idle.ok_wait quiet_refl idle_running_suspend)

lemma idle_request_ok:
  "idle_running sid tid s W \<Longrightarrow> idle.ok e sid W x (idle_request e sid tid s x)"
  unfolding idle_request_def
  by (auto intro!: idle.ok_command idle_sleep_ok quiet_refl
      intro: idle.ok_stay idle_running_finish idle_running_suspend)

lemma idle_enable_result_ok:
  assumes run: "idle_running sid tid s W" and off: "\<not> id_bluetoothOn s"
  shows "idle.ok e sid W x (idle_enable_result e sid tid r s x)"
proof -
  have req: "idle.ok e sid W y (idle_request e sid tid (s\<lparr>id_bluetoothOn := True\<rparr>) y)" for y
    by (intro idle_request_ok idle_running_on run)
  have "idle.ok e sid W x (idle_request e sid tid (s\<lparr>id_bluetoothOn := True\<rparr>) (switch_to T_Connecting x))"
    by (rule idle.ok_after[OF grows_switch_to])
       (use run idle_waits_foreign in \<open>auto intro!: idle_request_ok idle_running_on simp: idle_running_def\<close>)
  then show ?thesis
    unfolding idle_enable_result_def Let_def
    using req idle_sleep_ok[OF run off] idle_request_ok[OF run] idle_running_finish[OF run]
    by (auto intro!: idle.ok_switch quiet_intros intro: idle.ok_stay)
qed

lemma idle_start_request_ok:
  "idle_inv sid s W \<Longrightarrow> idle.ok e sid W x (idle_start_request e sid s x)"
  unfolding idle_start_request_def Let_def by (intro idle_request_ok idle_inv_start)

lemma idle_call_ok:
  assumes "idle_inv sid s W" and "call_idle e sid c s x = Some r"
  shows "idle.ok e sid W x r"
  using assms
  by (cases c)
     (auto simp: idle_on_new_game_def idle_on_bluetooth_on_def idle_on_bluetooth_off_def Let_def
       idle_inv_newGame idle_inv_cancel idle_inv_off
       intro!: idle.ok_switch idle.ok_here idle_start_request_ok quiet_refl)

lemma idle_resume_ok:
  assumes inv: "idle_inv sid s W" and f: "f \<in># W" "frame_owner f = Some sid"
    and res: "resume_idle e sid f code s x = Some r"
  shows "idle.ok e sid (W - {#f#}) x r"
proof -
  obtain V where W: "W = add_mset f V" using f(1) by (metis multi_member_split)
  obtain tid where t: "idle_task sid tid f" 
    using inv f idle.inv_frames by (cases f) fastforce+
  show ?thesis
  proof (cases "id_enableBt s = Some tid")
    case True
    then have "idle_running sid tid s V" "\<not> id_bluetoothOn s"
      using inv W t by (auto simp: idle_running_def idle_inv_def idle_waits_def split: if_splits)
    then show ?thesis using t res W True
      by (cases f) (auto simp: idle_alive_def intro: idle_request_ok idle_enable_result_ok)
  next
    case False
    then have "idle_inv sid s V" using inv W t
      by (cases f) (auto simp: idle_inv_def idle_waits_def split: if_splits)
    then show ?thesis using t res W False
      by (cases f) (auto simp: idle_alive_def intro!: idle.ok_here)
  qed
qed

interpretation idle: fsm_state_object idle_frame idle_inv call_idle resume_idle
  using idle_call_ok idle_resume_ok by unfold_locales blast+

lemma idle_construct_ok:
  assumes "\<forall>f \<in># W. frame_owner f \<noteq> Some sid"
  shows "idle.ok e sid W x (idle_construct e sid b x)"
proof -
  let ?s0 = "\<lparr>id_enableBt = None, id_next = 0, id_newGamePending = False, id_bluetoothOn = False\<rparr>"
  obtain s1 x1 where sx: "idle_start_request e sid ?s0 x = (s1, x1)" by fastforce
  have "tasks (idle_task sid tid) W = 0" for tid
    using assms idle_task_owner[of sid tid] by (intro tasks_none) auto
  then have "idle_inv sid ?s0 W" using assms by (auto simp: idle_inv_def idle_waits_def)
  then have "idle.ok e sid W x (s1, x1)" unfolding sx[symmetric] by (rule idle_start_request_ok)
  moreover have "idle.ok e sid V x1 (idle_construct e sid b x)" if "idle_inv sid s1 V" for V
    using idle_call_ok[OF that, of e OnNewGame] idle.ok_stay[OF quiet_pool[OF quiet_refl] that]
    by (auto simp: idle_construct_def sx Let_def intro: idle.ok_quiet[OF quiet_pool[OF quiet_refl]])
  ultimately show ?thesis by (auto intro: idle.ok_seq)
qed

subsection \<open>Properties\<close>

text \<open>
  A game starts as soon as it is requested and Bluetooth is on, in whichever order the two
  happen: when the second of the two events has been handled, the switch to connecting waits.
\<close>

theorem idle_connects:
  "F_Switch T_Connecting \<in># waiting (snd (case_prod (idle_on_new_game e sid) (idle_on_bluetooth_on e sid s x))) \<and>
   F_Switch T_Connecting \<in># waiting (snd (case_prod (idle_on_bluetooth_on e sid) (idle_on_new_game e sid s x)))"
proof
  show "F_Switch T_Connecting \<in># waiting (snd (case_prod (idle_on_new_game e sid) (idle_on_bluetooth_on e sid s x)))"
    by (simp add: idle_on_new_game_def idle_on_bluetooth_on_def Let_def waiting_switch_to split: prod.split)
  have "id_newGamePending (fst (idle_on_new_game e sid s x))"
    by (auto simp: idle_on_new_game_def idle_start_request_def idle_request_def idle_finish_def
        idle_sleep_def Let_def split: prod.split bool.split)
  then show "F_Switch T_Connecting \<in># waiting (snd (case_prod (idle_on_bluetooth_on e sid) (idle_on_new_game e sid s x)))"
    by (simp add: idle_on_bluetooth_on_def Let_def waiting_switch_to case_prod_beta)
qed

text \<open>
  The request to enable Bluetooth is repeated until it is settled: a coroutine that is answered
  anything but success, a missing adapter or a refusal of the user goes on waiting, as the same
  task; the three final answers end it, and only a missing adapter leaves the application without a
  state.
\<close>

theorem idle_enable_result_spec:
  assumes "id_enableBt s = Some tid" and "\<not> id_bluetoothOn s"
    and "idle_enable_result e sid tid r s x = (s', x')"
  shows "(if r = R_OK \<or> r = R_NO_BT_ADAPTER \<or> r = R_USER_DECLINED
          then id_enableBt s' = None
          else id_enableBt s' = Some tid \<and>
               (F_IdleEnable sid tid \<in># waiting x' \<or> F_IdleWait sid tid \<in># waiting x')) \<and>
         (id_bluetoothOn s' \<longleftrightarrow> r = R_OK) \<and>
         (r = R_NO_BT_ADAPTER \<longrightarrow> F_Switch T_None \<in># waiting x') \<and>
         (r = R_OK \<and> id_newGamePending s \<longrightarrow> F_Switch T_Connecting \<in># waiting x')"
proof -
  have "id_enableBt s1 = Some tid \<and> \<not> id_bluetoothOn s1 \<and>
      (F_IdleEnable sid tid \<in># waiting y1 \<or> F_IdleWait sid tid \<in># waiting y1)"
    if "idle_request e sid tid s y = (s1, y1)" for s1 y1 y
    using that assms(1,2) waiting_wait_for grows_await_command[of e EnableBluetooth "F_IdleEnable sid tid" y]
    by (auto simp: idle_request_def idle_sleep_def grows_def split: prod.splits bool.splits)
  moreover have "idle_request e sid tid (s\<lparr>id_bluetoothOn := True\<rparr>) y =
      (idle_finish (s\<lparr>id_bluetoothOn := True\<rparr>), y)" for y
    by (simp add: idle_request_def)
  ultimately show ?thesis using assms waiting_wait_for waiting_switch_to
    by (auto simp: idle_enable_result_def idle_finish_def idle_sleep_def Let_def split: if_splits)
qed

theorem idle_enable_result_spec_witness:
  "id_enableBt (fst (idle_enable_result undefined 4 0 R_INTEROP_FAILURE
     \<lparr>id_enableBt = Some 0, id_next = 1, id_newGamePending = False, id_bluetoothOn = False\<rparr> ctx_init)) = Some 0"
  using idle_enable_result_spec[of "\<lparr>id_enableBt = Some 0, id_next = 1, id_newGamePending = False,
      id_bluetoothOn = False\<rparr>" 0 undefined 4 R_INTEROP_FAILURE ctx_init, OF _ _ prod.collapse[symmetric]]
  by simp

end
