(* ===== verification/Fsm_Connecting.thy ===== *)
theory Fsm_Connecting
  imports Events State_Object
begin

text \<open>
  \<open>fsm::StateConnecting\<close> (fsm/stateconnecting.cpp): starts discovery and listening, says hello to
  every device that connects, learns the local address from the first hello it receives, and
  starts the negotiation once connectivity is established.
\<close>

abbreviation APP_UUID :: string where "APP_UUID \<equiv> ''76445157-4f39-42e9-a62e-877390cbb4bb''"
abbreviation APP_NAME :: string where "APP_NAME \<equiv> ''VeriDie''"
abbreviation MAX_SEND_RETRY_COUNT :: nat where "MAX_SEND_RETRY_COUNT \<equiv> 10"
abbreviation MAX_GAME_START_RETRY_COUNT :: nat where "MAX_GAME_START_RETRY_COUNT \<equiv> 30"
abbreviation MAX_DISCOVERY_RETRY_COUNT :: nat where "MAX_DISCOVERY_RETRY_COUNT \<equiv> 2"
abbreviation MAX_LISTENING_RETRY_COUNT :: nat where "MAX_LISTENING_RETRY_COUNT \<equiv> 2"
abbreviation DISCOVERABILITY_DURATION :: int where "DISCOVERABILITY_DURATION \<equiv> 300"

text \<open>\<open>cn_retryStart\<close>: the handle \<open>m_retryStartHandle\<close> holds an unfinished coroutine.\<close>

record connecting =
  cn_discovering :: "bool option"
  cn_listening :: "bool option"
  cn_localMac :: "string option"
  cn_peers :: devices
  cn_retryStart :: bool

definition conn_on_bluetooth_off :: "env \<Rightarrow> nat \<Rightarrow> connecting \<Rightarrow> ctx \<Rightarrow> connecting \<times> ctx" where
  "conn_on_bluetooth_off e sid s x = (s, switch_to (T_Idle True) x)"

definition conn_on_device_disconnected :: "device \<Rightarrow> connecting \<Rightarrow> connecting" where
  "conn_on_device_disconnected remote s = s\<lparr>cn_peers := dv_erase remote (cn_peers s)\<rparr>"

definition conn_detect_fatal_failure :: "env \<Rightarrow> connecting \<Rightarrow> ctx \<Rightarrow> ctx" where
  "conn_detect_fatal_failure e s x =
     (if cn_listening s = Some False \<and> cn_discovering s = Some False
      then switch_to T_None
             (fire_and_forget e (ShowAndExit ''Cannot proceed due to a fatal failure.'') x)
      else x)"

subsection \<open>DisconnectDevice and SendHelloTo\<close>

text \<open>
  \<open>DisconnectDevice\<close>: the loop \<open>while (response == INVALID_STATE)\<close>.  A response that is ready at
  once is \<open>INTEROP_FAILURE\<close> and ends it.
\<close>

definition conn_disconnect :: "env \<Rightarrow> nat \<Rightarrow> string \<Rightarrow> connecting \<Rightarrow> ctx \<Rightarrow> connecting \<times> ctx" where
  "conn_disconnect e sid mac s x =
     (s, snd (await_command e (CloseConnection [] mac) (F_ConnDisconnect sid mac) x))"

definition conn_disconnect_result ::
  "env \<Rightarrow> nat \<Rightarrow> string \<Rightarrow> rcode \<Rightarrow> connecting \<Rightarrow> ctx \<Rightarrow> connecting \<times> ctx" where
  "conn_disconnect_result e sid mac response s x =
     (if response = R_INVALID_STATE then conn_disconnect e sid mac s x else (s, x))"

text \<open>
  \<open>SendHelloTo\<close>: one iteration of its loop, with \<open>retriesLeft\<close>.  A response that is ready at once
  is \<open>INTEROP_FAILURE\<close>, for which no branch acts and the loop ends.
\<close>

definition conn_send_hello ::
  "env \<Rightarrow> nat \<Rightarrow> nat \<Rightarrow> string \<Rightarrow> string \<Rightarrow> connecting \<Rightarrow> ctx \<Rightarrow> connecting \<times> ctx" where
  "conn_send_hello e sid retriesLeft hello mac s x =
     (if \<not> dv_count (dv_of_mac mac) (cn_peers s) then (s, x)
      else (s, snd (await_command e (SendMessage hello mac)
                      (F_ConnHello sid retriesLeft hello mac) x)))"

text \<open>
  The rest of the iteration after the response.  After a socket error the coroutine awaits
  \<open>DisconnectDevice\<close> and then ends, since its response is not \<open>INVALID_STATE\<close>.
\<close>

definition conn_hello_result ::
  "env \<Rightarrow> nat \<Rightarrow> nat \<Rightarrow> string \<Rightarrow> string \<Rightarrow> rcode \<Rightarrow> connecting \<Rightarrow> ctx \<Rightarrow> connecting \<times> ctx" where
  "conn_hello_result e sid retriesLeft hello mac response s x =
     (if response = R_CONNECTION_NOT_FOUND then
        (conn_on_device_disconnected (dv_of_mac mac) s, x)
      else if response = R_SOCKET_ERROR then
        conn_disconnect e sid mac (s\<lparr>cn_peers := dv_erase (dv_of_mac mac) (cn_peers s)\<rparr>) x
      else if retriesLeft - 1 > 0 \<and> response = R_INVALID_STATE then
        conn_send_hello e sid (retriesLeft - 1) hello mac s x
      else (s, x))"

definition conn_on_device_connected ::
  "env \<Rightarrow> nat \<Rightarrow> device \<Rightarrow> connecting \<Rightarrow> ctx \<Rightarrow> connecting \<times> ctx" where
  "conn_on_device_connected e sid remote s x =
     conn_send_hello e sid MAX_SEND_RETRY_COUNT (e_ser_hello e \<lparr>hl_mac = dv_mac remote\<rparr>)
       (dv_mac remote) (s\<lparr>cn_peers := dv_insert remote (cn_peers s)\<rparr>) x"

text \<open>
  \<open>OnMessageReceived\<close>: an exception is logged and swallowed, also the \<open>bad_variant_access\<close> of a
  message that is no hello; \<open>None\<close> when decoding the message is undefined behaviour.
\<close>

definition conn_on_message_received ::
  "env \<Rightarrow> nat \<Rightarrow> device \<Rightarrow> string \<Rightarrow> connecting \<Rightarrow> ctx \<Rightarrow> (connecting \<times> ctx) option" where
  "conn_on_message_received e sid sender message s x =
     (let (s1, x1) = (if \<not> dv_count sender (cn_peers s)
                      then conn_on_device_connected e sid sender s x else (s, x)) in
      if cn_localMac s1 \<noteq> None then Some (s1, x1)
      else
        (case e_deserialize e message of
           Ok (MHello h) \<Rightarrow> Some (s1\<lparr>cn_localMac := Some (hl_mac h)\<rparr>, x1)
         | Ok _ \<Rightarrow> Some (s1, x1)
         | Throw _ \<Rightarrow> Some (s1, x1)
         | Undef \<Rightarrow> None))"

definition conn_on_socket_read_failure ::
  "env \<Rightarrow> nat \<Rightarrow> device \<Rightarrow> connecting \<Rightarrow> ctx \<Rightarrow> connecting \<times> ctx" where
  "conn_on_socket_read_failure e sid from s x =
     (if dv_count from (cn_peers s)
      then conn_disconnect e sid (dv_mac from) (s\<lparr>cn_peers := dv_erase from (cn_peers s)\<rparr>) x
      else (s, x))"

subsection \<open>AttemptNegotiationStart\<close>

text \<open>
  One iteration of its loop.  The arguments of \<open>SwitchToState\<close> are moved out of the members: the
  set of peers and the string are empty afterwards, the optional still holds a value.
\<close>

definition conn_attempt ::
  "env \<Rightarrow> nat \<Rightarrow> nat \<Rightarrow> connecting \<Rightarrow> ctx \<Rightarrow> connecting \<times> ctx" where
  "conn_attempt e sid retriesLeft s x =
     (case cn_localMac s of
        Some mac \<Rightarrow>
          (let x1 = pool_call (PoolResize (length (cn_peers s))) x;
               x2 = switch_to (T_Negotiating (cn_peers s) mac) x1
           in (s\<lparr>cn_peers := [], cn_localMac := Some [], cn_retryStart := False\<rparr>, x2))
      | None \<Rightarrow>
          (let x1 = (if retriesLeft mod 3 = 0
                     then fire_and_forget e (ShowToast ''Getting ready...'' 3) x else x)
           in (s, wait_for 1000 (F_ConnAttempt sid retriesLeft) x1)))"

definition conn_attempt_timeout ::
  "env \<Rightarrow> nat \<Rightarrow> nat \<Rightarrow> connecting \<Rightarrow> ctx \<Rightarrow> connecting \<times> ctx" where
  "conn_attempt_timeout e sid retriesLeft s x =
     (if retriesLeft - 1 > 0 then conn_attempt e sid (retriesLeft - 1) s x
      else
        (let x1 = fire_and_forget e ResetGame x;
             x2 = fire_and_forget e ResetConnections x1;
             x3 = switch_to (T_Idle False) x2
         in (s\<lparr>cn_retryStart := False\<rparr>, x3)))"

definition conn_on_connectivity_established ::
  "env \<Rightarrow> nat \<Rightarrow> connecting \<Rightarrow> ctx \<Rightarrow> connecting \<times> ctx" where
  "conn_on_connectivity_established e sid s x =
     (if cn_retryStart s then (s, x)
      else conn_attempt e sid MAX_GAME_START_RETRY_COUNT (s\<lparr>cn_retryStart := True\<rparr>) x)"

definition conn_on_game_stopped :: "env \<Rightarrow> nat \<Rightarrow> connecting \<Rightarrow> ctx \<Rightarrow> connecting \<times> ctx" where
  "conn_on_game_stopped e sid s x =
     (s, switch_to (T_Idle False) (fire_and_forget e ResetConnections x))"

subsection \<open>KickOffDiscovery\<close>

text \<open>
  \<open>conn_discovery\<close> is the head of the loop, \<open>conn_discovery_result\<close> the switch on the response,
  \<open>conn_discovery_retry\<close> the loop condition after the second of waiting and the code after the
  loop.  Only \<open>INVALID_STATE\<close> reaches that code.
\<close>

definition conn_discovery_result ::
  "env \<Rightarrow> nat \<Rightarrow> nat \<Rightarrow> rcode \<Rightarrow> connecting \<Rightarrow> ctx \<Rightarrow> connecting \<times> ctx" where
  "conn_discovery_result e sid retriesLeft response s x =
     (if response = R_OK then (s\<lparr>cn_discovering := Some True\<rparr>, x)
      else if response = R_BLUETOOTH_OFF then conn_on_bluetooth_off e sid s x
      else if response = R_INVALID_STATE
        then (s, wait_for 1000 (F_ConnDiscoveryWait sid retriesLeft) x)
      else (s\<lparr>cn_discovering := Some False\<rparr>, x))"

definition conn_discovery ::
  "env \<Rightarrow> nat \<Rightarrow> nat \<Rightarrow> connecting \<Rightarrow> ctx \<Rightarrow> connecting \<times> ctx" where
  "conn_discovery e sid retriesLeft s x =
     (case await_command e (StartDiscovery APP_UUID APP_NAME True)
             (F_ConnDiscovery sid retriesLeft) x of
        (True, x') \<Rightarrow> (s, x')
      | (False, x') \<Rightarrow> conn_discovery_result e sid retriesLeft R_INTEROP_FAILURE s x')"

definition conn_discovery_retry ::
  "env \<Rightarrow> nat \<Rightarrow> nat \<Rightarrow> connecting \<Rightarrow> ctx \<Rightarrow> connecting \<times> ctx" where
  "conn_discovery_retry e sid retriesLeft s x =
     (if retriesLeft > 0 then conn_discovery e sid (retriesLeft - 1) s x
      else
        (let s1 = s\<lparr>cn_discovering := Some False\<rparr>
         in (s1, conn_detect_fatal_failure e s1 x)))"

subsection \<open>KickOffListening\<close>

definition conn_listening_result ::
  "env \<Rightarrow> nat \<Rightarrow> nat \<Rightarrow> rcode \<Rightarrow> connecting \<Rightarrow> ctx \<Rightarrow> connecting \<times> ctx" where
  "conn_listening_result e sid retriesLeft response s x =
     (if response = R_OK then (s\<lparr>cn_listening := Some True\<rparr>, x)
      else if response = R_BLUETOOTH_OFF then conn_on_bluetooth_off e sid s x
      else if response = R_USER_DECLINED then
        (let s1 = s\<lparr>cn_listening := Some False\<rparr>
         in (s1, conn_detect_fatal_failure e s1 x))
      else (s, wait_for 1000 (F_ConnListeningWait sid retriesLeft) x))"

definition conn_listening ::
  "env \<Rightarrow> nat \<Rightarrow> nat \<Rightarrow> connecting \<Rightarrow> ctx \<Rightarrow> connecting \<times> ctx" where
  "conn_listening e sid retriesLeft s x =
     (case await_command e (StartListening APP_UUID APP_NAME DISCOVERABILITY_DURATION)
             (F_ConnListening sid retriesLeft) x of
        (True, x') \<Rightarrow> (s, x')
      | (False, x') \<Rightarrow> conn_listening_result e sid retriesLeft R_INTEROP_FAILURE s x')"

definition conn_listening_retry ::
  "env \<Rightarrow> nat \<Rightarrow> nat \<Rightarrow> connecting \<Rightarrow> ctx \<Rightarrow> connecting \<times> ctx" where
  "conn_listening_retry e sid retriesLeft s x =
     (if retriesLeft > 0 then conn_listening e sid (retriesLeft - 1) s x
      else
        (let s1 = s\<lparr>cn_listening := Some False\<rparr>
         in (s1, conn_detect_fatal_failure e s1 x)))"

subsection \<open>Constructor and destructor\<close>

definition conn_construct :: "env \<Rightarrow> nat \<Rightarrow> ctx \<Rightarrow> connecting \<times> ctx" where
  "conn_construct e sid x =
     (let s0 = \<lparr>cn_discovering = None, cn_listening = None, cn_localMac = None, cn_peers = [],
                cn_retryStart = False\<rparr>;
          (s1, x1) = conn_discovery e sid MAX_DISCOVERY_RETRY_COUNT s0 x
      in conn_listening e sid MAX_LISTENING_RETRY_COUNT s1 x1)"

definition conn_destroy :: "env \<Rightarrow> connecting \<Rightarrow> ctx \<Rightarrow> ctx" where
  "conn_destroy e s x =
     (let x1 = (if cn_discovering s = Some True then fire_and_forget e StopDiscovery x else x)
      in if cn_listening s = Some True then fire_and_forget e StopListening x1 else x1)"

subsection \<open>Dispatch\<close>

text \<open>
  The virtual functions of this state (one it does not override does nothing, fsm/statebase.hpp),
  and what a coroutine of this object does when it is resumed with a response (a timeout passes
  one too, which is not read).
\<close>

fun call_connecting ::
  "env \<Rightarrow> nat \<Rightarrow> state_call \<Rightarrow> connecting \<Rightarrow> ctx \<Rightarrow> (connecting \<times> ctx) option" where
  "call_connecting e sid OnBluetoothOff s x = Some (conn_on_bluetooth_off e sid s x)"
| "call_connecting e sid (OnDeviceConnected d) s x = Some (conn_on_device_connected e sid d s x)"
| "call_connecting e sid (OnDeviceDisconnected d) s x = Some (conn_on_device_disconnected d s, x)"
| "call_connecting e sid (OnMessageReceived d m) s x = conn_on_message_received e sid d m s x"
| "call_connecting e sid OnConnectivityEstablished s x =
     Some (conn_on_connectivity_established e sid s x)"
| "call_connecting e sid OnGameStopped s x = Some (conn_on_game_stopped e sid s x)"
| "call_connecting e sid (OnSocketReadFailure d) s x =
     Some (conn_on_socket_read_failure e sid d s x)"
| "call_connecting e sid _ s x = Some (s, x)"

fun resume_connecting ::
  "env \<Rightarrow> nat \<Rightarrow> frame \<Rightarrow> rcode \<Rightarrow> connecting \<Rightarrow> ctx \<Rightarrow> (connecting \<times> ctx) option" where
  "resume_connecting e sid (F_ConnDiscovery _ n) r s x = Some (conn_discovery_result e sid n r s x)"
| "resume_connecting e sid (F_ConnDiscoveryWait _ n) r s x = Some (conn_discovery_retry e sid n s x)"
| "resume_connecting e sid (F_ConnListening _ n) r s x = Some (conn_listening_result e sid n r s x)"
| "resume_connecting e sid (F_ConnListeningWait _ n) r s x = Some (conn_listening_retry e sid n s x)"
| "resume_connecting e sid (F_ConnHello _ n hello mac) r s x =
     Some (conn_hello_result e sid n hello mac r s x)"
| "resume_connecting e sid (F_ConnDisconnect _ mac) r s x =
     Some (conn_disconnect_result e sid mac r s x)"
| "resume_connecting e sid (F_ConnAttempt _ n) r s x = Some (conn_attempt_timeout e sid n s x)"
| "resume_connecting e sid _ r s x = Some (s, x)"

subsection \<open>Invariant\<close>

text \<open>The coroutines of a connecting object, with the bounds of their retry counters.\<close>

fun conn_frame :: "nat \<Rightarrow> frame \<Rightarrow> bool" where
  "conn_frame sid (F_ConnDiscovery own n) = (own = sid \<and> n \<le> MAX_DISCOVERY_RETRY_COUNT)"
| "conn_frame sid (F_ConnDiscoveryWait own n) = (own = sid \<and> n \<le> MAX_DISCOVERY_RETRY_COUNT)"
| "conn_frame sid (F_ConnListening own n) = (own = sid \<and> n \<le> MAX_LISTENING_RETRY_COUNT)"
| "conn_frame sid (F_ConnListeningWait own n) = (own = sid \<and> n \<le> MAX_LISTENING_RETRY_COUNT)"
| "conn_frame sid (F_ConnHello own n _ _) = (own = sid \<and> 0 < n \<and> n \<le> MAX_SEND_RETRY_COUNT)"
| "conn_frame sid (F_ConnDisconnect own _) = (own = sid)"
| "conn_frame sid (F_ConnAttempt own n) = (own = sid \<and> 0 < n \<and> n \<le> MAX_GAME_START_RETRY_COUNT)"
| "conn_frame sid (F_Switch t) =
     (case t of T_None \<Rightarrow> True | T_Idle _ \<Rightarrow> True | T_Negotiating peers _ \<Rightarrow> dv_wf peers | _ \<Rightarrow> False)"
| "conn_frame sid _ = False"

fun conn_discovery_task :: "nat \<Rightarrow> frame \<Rightarrow> bool" where
  "conn_discovery_task sid (F_ConnDiscovery own _) = (own = sid)"
| "conn_discovery_task sid (F_ConnDiscoveryWait own _) = (own = sid)"
| "conn_discovery_task sid _ = False"

fun conn_listening_task :: "nat \<Rightarrow> frame \<Rightarrow> bool" where
  "conn_listening_task sid (F_ConnListening own _) = (own = sid)"
| "conn_listening_task sid (F_ConnListeningWait own _) = (own = sid)"
| "conn_listening_task sid _ = False"

fun conn_attempt_task :: "nat \<Rightarrow> frame \<Rightarrow> bool" where
  "conn_attempt_task sid (F_ConnAttempt own _) = (own = sid)"
| "conn_attempt_task sid _ = False"

text \<open>
  At most one coroutine of \<open>KickOffDiscovery\<close> waits, and only while its outcome is unknown, and
  likewise for \<open>KickOffListening\<close>; one of \<open>AttemptNegotiationStart\<close> waits while the handle says
  so.  A flag is false while the coroutine of its kind is being executed.
\<close>

definition conn_waits :: "bool \<Rightarrow> bool \<Rightarrow> bool \<Rightarrow> nat \<Rightarrow> connecting \<Rightarrow> frame multiset \<Rightarrow> bool" where
  "conn_waits d l a sid s W \<longleftrightarrow>
     dv_wf (cn_peers s) \<and>
     (\<forall>f \<in># W. frame_owner f = Some sid \<longrightarrow> conn_frame sid f) \<and>
     tasks (conn_discovery_task sid) W \<le> (if d \<and> cn_discovering s = None then 1 else 0) \<and>
     tasks (conn_listening_task sid) W \<le> (if l \<and> cn_listening s = None then 1 else 0) \<and>
     tasks (conn_attempt_task sid) W = (if a \<and> cn_retryStart s then 1 else 0)"

abbreviation conn_inv :: "nat \<Rightarrow> connecting \<Rightarrow> frame multiset \<Rightarrow> bool" where
  "conn_inv \<equiv> conn_waits True True True"

lemma conn_task_owner:
  "conn_discovery_task sid f \<or> conn_listening_task sid f \<or> conn_attempt_task sid f \<Longrightarrow>
   frame_owner f = Some sid"
  by (cases f) auto

interpretation conn: state_object conn_frame conn_inv
proof
  show "conn_inv sid s (add_mset f W) = conn_inv sid s W" if "frame_owner f \<noteq> Some sid" for f sid s W
    using that conn_task_owner[of sid f] by (auto simp: conn_waits_def)
  show "conn_frame sid f" if "conn_inv sid s W" "f \<in># W" "frame_owner f = Some sid" for f sid s W
    using that by (auto simp: conn_waits_def)
  show "frame_owner f = Some sid \<or> switch_ok f" if "conn_frame sid f" for sid f
    using that by (cases f) (auto split: target.splits)
qed

lemma conn_waits_peers [simp]:
  "dv_wf ps \<Longrightarrow> conn_waits d l a sid s W \<Longrightarrow> conn_waits d l a sid (s\<lparr>cn_peers := ps\<rparr>) W"
  by (simp add: conn_waits_def)

lemma conn_waits_mac [simp]:
  "conn_waits d l a sid (s\<lparr>cn_localMac := m\<rparr>) W = conn_waits d l a sid s W"
  by (simp add: conn_waits_def)

lemma conn_waits_wf: "conn_waits d l a sid s W \<Longrightarrow> dv_wf (cn_peers s)"
  by (simp add: conn_waits_def)

lemma conn_waits_erase [simp]:
  "conn_waits d l a sid s W \<Longrightarrow> conn_waits d l a sid (s\<lparr>cn_peers := dv_erase p (cn_peers s)\<rparr>) W"
  by (simp add: conn_waits_wf dv_wf_erase)

lemma conn_inv_other:
  "conn_inv sid s W \<Longrightarrow> conn_frame sid f \<Longrightarrow>
   \<not> (conn_discovery_task sid f \<or> conn_listening_task sid f \<or> conn_attempt_task sid f) \<Longrightarrow>
   conn_inv sid s (add_mset f W)"
  by (auto simp: conn_waits_def)

subsection \<open>Every operation keeps it\<close>

lemma conn_disconnect_ok: "conn_inv sid s W \<Longrightarrow> conn.ok e sid W x (conn_disconnect e sid mac s x)"
  unfolding conn_disconnect_def by (rule conn.ok_command_end) (simp_all add: conn_inv_other)

lemma conn_disconnect_result_ok:
  "conn_inv sid s W \<Longrightarrow> conn.ok e sid W x (conn_disconnect_result e sid mac r s x)"
  by (simp add: conn_disconnect_result_def conn_disconnect_ok conn.ok_here)

lemma conn_send_hello_ok:
  "conn_inv sid s W \<Longrightarrow> 0 < n \<Longrightarrow> n \<le> MAX_SEND_RETRY_COUNT \<Longrightarrow>
   conn.ok e sid W x (conn_send_hello e sid n hello mac s x)"
  unfolding conn_send_hello_def
  by (auto intro!: conn.ok_here conn.ok_command_end conn_inv_other)

lemma conn_hello_result_ok:
  "conn_inv sid s W \<Longrightarrow> n \<le> MAX_SEND_RETRY_COUNT \<Longrightarrow>
   conn.ok e sid W x (conn_hello_result e sid n hello mac r s x)"
  unfolding conn_hello_result_def conn_on_device_disconnected_def
  by (auto intro!: conn.ok_here conn_disconnect_ok conn_send_hello_ok)

lemma conn_on_device_connected_ok:
  "conn_inv sid s W \<Longrightarrow> conn.ok e sid W x (conn_on_device_connected e sid d s x)"
  unfolding conn_on_device_connected_def
  by (rule conn_send_hello_ok) (simp_all add: dv_wf_insert conn_waits_wf)

lemma conn_on_message_received_ok:
  assumes "conn_inv sid s W" "conn_on_message_received e sid d m s x = Some r"
  shows "conn.ok e sid W x r"
proof -
  obtain s1 x1 where sx: "(if \<not> dv_count d (cn_peers s) then conn_on_device_connected e sid d s x
                           else (s, x)) = (s1, x1)"
    by fastforce
  have "conn.ok e sid W x (s1, x1)" unfolding sx[symmetric]
    using assms by (auto intro: conn_on_device_connected_ok conn.ok_here)
  moreover have "r = (s1, x1) \<or> (\<exists>mac. r = (s1\<lparr>cn_localMac := Some mac\<rparr>, x1))"
    using assms(2) unfolding conn_on_message_received_def sx
    by (auto split: if_splits outcome.splits message.splits)
  then have "conn.ok e sid V x1 r" if "conn_inv sid s1 V" for V
    using that by (auto intro!: conn.ok_here)
  ultimately show ?thesis by (auto intro: conn.ok_seq)
qed

lemma conn_on_socket_read_failure_ok:
  "conn_inv sid s W \<Longrightarrow> conn.ok e sid W x (conn_on_socket_read_failure e sid d s x)"
  unfolding conn_on_socket_read_failure_def
  by (auto intro!: conn_disconnect_ok conn.ok_here)

text \<open>The retry coroutine while it runs.\<close>

lemma conn_attempt_ok:
  assumes "conn_waits True True False sid s W" "cn_retryStart s" "0 < n" "n \<le> MAX_GAME_START_RETRY_COUNT"
  shows "conn.ok e sid W x (conn_attempt e sid n s x)"
proof (cases "cn_localMac s")
  case None
  have "conn_inv sid s (add_mset (F_ConnAttempt sid n) W)"
    using assms by (auto simp: conn_waits_def)
  with assms None show ?thesis
    by (auto simp: conn_attempt_def Let_def intro!: conn.ok_wait quiet_intros)
next
  case (Some mac)
  have "conn_inv sid (s\<lparr>cn_peers := [], cn_localMac := Some [], cn_retryStart := False\<rparr>) W"
    using assms by (auto simp: conn_waits_def dv_wf_def)
  with assms Some show ?thesis
    by (auto simp: conn_attempt_def Let_def conn_waits_wf intro!: conn.ok_switch quiet_intros)
qed

lemma conn_attempt_end:
  "conn_waits d l False sid s W \<Longrightarrow> conn_waits d l True sid (s\<lparr>cn_retryStart := False\<rparr>) W"
  by (simp add: conn_waits_def)

lemma conn_attempt_timeout_ok:
  assumes "conn_waits True True False sid s W" "cn_retryStart s" "n \<le> MAX_GAME_START_RETRY_COUNT"
  shows "conn.ok e sid W x (conn_attempt_timeout e sid n s x)"
  using assms conn_attempt_end unfolding conn_attempt_timeout_def Let_def
  by (auto intro!: conn_attempt_ok conn.ok_switch quiet_intros)

lemma conn_on_connectivity_established_ok:
  "conn_inv sid s W \<Longrightarrow> conn.ok e sid W x (conn_on_connectivity_established e sid s x)"
  unfolding conn_on_connectivity_established_def
  by (auto intro!: conn_attempt_ok conn.ok_here simp: conn_waits_def)

lemma conn_switch_ok:
  "conn_inv sid s W \<Longrightarrow> conn.ok e sid W x (conn_on_game_stopped e sid s x)"
  "conn_inv sid s W \<Longrightarrow> conn.ok e sid W x (conn_on_bluetooth_off e sid s x)"
  "conn_inv sid s W \<Longrightarrow> conn.ok e sid W x (s, conn_detect_fatal_failure e s x)"
  unfolding conn_on_game_stopped_def conn_on_bluetooth_off_def conn_detect_fatal_failure_def
  by (auto intro!: conn.ok_switch conn.ok_here quiet_intros)

text \<open>Discovery and listening while they run.\<close>

lemma conn_discovery_suspend:
  "conn_waits False True True sid s W \<Longrightarrow> cn_discovering s = None \<Longrightarrow> conn_frame sid f \<Longrightarrow>
   conn_discovery_task sid f \<Longrightarrow> conn_inv sid s (add_mset f W)"
  by (cases f) (auto simp: conn_waits_def)

lemma conn_discovery_end:
  "conn_waits False True True sid s W \<Longrightarrow> conn_inv sid (s\<lparr>cn_discovering := b\<rparr>) W"
  "conn_waits False True True sid s W \<Longrightarrow> conn_inv sid s W"
  by (auto simp: conn_waits_def)

lemma conn_discovery_result_ok:
  "conn_waits False True True sid s W \<Longrightarrow> cn_discovering s = None \<Longrightarrow> n \<le> MAX_DISCOVERY_RETRY_COUNT \<Longrightarrow>
   conn.ok e sid W x (conn_discovery_result e sid n r s x)"
  unfolding conn_discovery_result_def
  by (auto intro!: conn.ok_wait conn.ok_here conn_switch_ok quiet_refl conn_discovery_suspend
      conn_discovery_end(1) intro: conn_discovery_end(2))

lemma conn_discovery_ok:
  "conn_waits False True True sid s W \<Longrightarrow> cn_discovering s = None \<Longrightarrow> n \<le> MAX_DISCOVERY_RETRY_COUNT \<Longrightarrow>
   conn.ok e sid W x (conn_discovery e sid n s x)"
  unfolding conn_discovery_def
  by (rule conn.ok_command) (auto intro!: conn_discovery_result_ok conn_discovery_suspend)

lemma conn_discovery_retry_ok:
  "conn_waits False True True sid s W \<Longrightarrow> cn_discovering s = None \<Longrightarrow> n \<le> MAX_DISCOVERY_RETRY_COUNT \<Longrightarrow>
   conn.ok e sid W x (conn_discovery_retry e sid n s x)"
  unfolding conn_discovery_retry_def Let_def
  by (auto intro!: conn_discovery_ok conn_switch_ok conn_discovery_end(1))

lemma conn_listening_suspend:
  "conn_waits True False True sid s W \<Longrightarrow> cn_listening s = None \<Longrightarrow> conn_frame sid f \<Longrightarrow>
   conn_listening_task sid f \<Longrightarrow> conn_inv sid s (add_mset f W)"
  by (cases f) (auto simp: conn_waits_def)

lemma conn_listening_end:
  "conn_waits True False True sid s W \<Longrightarrow> conn_inv sid (s\<lparr>cn_listening := b\<rparr>) W"
  "conn_waits True False True sid s W \<Longrightarrow> conn_inv sid s W"
  by (auto simp: conn_waits_def)

lemma conn_listening_result_ok:
  "conn_waits True False True sid s W \<Longrightarrow> cn_listening s = None \<Longrightarrow> n \<le> MAX_LISTENING_RETRY_COUNT \<Longrightarrow>
   conn.ok e sid W x (conn_listening_result e sid n r s x)"
  unfolding conn_listening_result_def Let_def
  by (auto intro!: conn.ok_wait conn.ok_here conn_switch_ok quiet_refl conn_listening_suspend
      conn_listening_end(1) intro: conn_listening_end(2))

lemma conn_listening_ok:
  "conn_waits True False True sid s W \<Longrightarrow> cn_listening s = None \<Longrightarrow> n \<le> MAX_LISTENING_RETRY_COUNT \<Longrightarrow>
   conn.ok e sid W x (conn_listening e sid n s x)"
  unfolding conn_listening_def
  by (rule conn.ok_command) (auto intro!: conn_listening_result_ok conn_listening_suspend)

lemma conn_listening_retry_ok:
  "conn_waits True False True sid s W \<Longrightarrow> cn_listening s = None \<Longrightarrow> n \<le> MAX_LISTENING_RETRY_COUNT \<Longrightarrow>
   conn.ok e sid W x (conn_listening_retry e sid n s x)"
  unfolding conn_listening_retry_def Let_def
  by (auto intro!: conn_listening_ok conn_switch_ok conn_listening_end(1))

lemma conn_call_ok:
  "conn_inv sid s W \<Longrightarrow> call_connecting e sid c s x = Some r \<Longrightarrow> conn.ok e sid W x r"
  by (cases c)
     (auto intro!: conn_switch_ok conn_on_device_connected_ok conn_on_connectivity_established_ok
       conn_on_socket_read_failure_ok conn.ok_here simp: conn_on_device_disconnected_def
       intro: conn_on_message_received_ok)

text \<open>A resumed coroutine has left its place of waiting, so the variant with 0 holds.\<close>

lemma conn_resume_waits:
  assumes "conn_inv sid s (add_mset f V)"
  shows "conn_discovery_task sid f \<Longrightarrow> conn_waits False True True sid s V \<and> cn_discovering s = None"
    and "conn_listening_task sid f \<Longrightarrow> conn_waits True False True sid s V \<and> cn_listening s = None"
    and "conn_attempt_task sid f \<Longrightarrow> conn_waits True True False sid s V \<and> cn_retryStart s"
    and "\<not> conn_attempt_task sid f \<Longrightarrow> conn_inv sid s V"
  using assms by (cases f; auto simp: conn_waits_def split: if_splits)+

lemma conn_resume_ok:
  assumes inv: "conn_inv sid s W" and f: "f \<in># W" "frame_owner f = Some sid"
    and res: "resume_connecting e sid f code s x = Some r"
  shows "conn.ok e sid (W - {#f#}) x r"
proof -
  obtain V where W: "W = add_mset f V" using f(1) by (metis multi_member_split)
  have fr: "conn_frame sid f" using conn.inv_frames[OF inv f] .
  show ?thesis using conn_resume_waits[of sid s f V] inv fr res W f(2)
    by (cases f)
       (auto intro!: conn_discovery_result_ok conn_discovery_retry_ok conn_listening_result_ok
         conn_listening_retry_ok conn_hello_result_ok conn_disconnect_result_ok conn.ok_here
         conn_attempt_timeout_ok)
qed

interpretation conn: fsm_state_object conn_frame conn_inv call_connecting resume_connecting
  using conn_call_ok conn_resume_ok by unfold_locales blast+

lemma conn_construct_ok:
  assumes "\<forall>f \<in># W. frame_owner f \<noteq> Some sid"
  shows "conn.ok e sid W x (conn_construct e sid x)"
proof -
  let ?s0 = "\<lparr>cn_discovering = None, cn_listening = None, cn_localMac = None, cn_peers = [],
              cn_retryStart = False\<rparr>"
  have none: "tasks P W = 0" if "\<And>f. P f \<Longrightarrow> frame_owner f = Some sid" for P
    using assms that by (blast intro: tasks_none)
  let ?f = "F_ConnDiscovery sid MAX_DISCOVERY_RETRY_COUNT"
  have "tasks (conn_discovery_task sid) W = 0" "tasks (conn_listening_task sid) W = 0"
    "tasks (conn_attempt_task sid) W = 0"
    using conn_task_owner by (blast intro!: none)+
  then have s0: "conn_waits True False True sid ?s0 (add_mset ?f W)"
    "conn_waits True False True sid (?s0\<lparr>cn_discovering := Some False\<rparr>) W"
    using assms by (auto simp: conn_waits_def dv_wf_def)
  obtain b x1 where c: "await_command e (StartDiscovery APP_UUID APP_NAME True) ?f x = (b, x1)"
    by fastforce
  show ?thesis
    using grows_await_command[OF c] conn_listening_ok[OF s0(1)] conn_listening_ok[OF s0(2)] c
    by (cases b)
       (auto simp: conn_construct_def conn_discovery_def conn_discovery_result_def Let_def
         intro: conn.ok_after[where M = "{#?f#}"] conn.ok_after[where M = "{#}"])
qed

lemma conn_destroy_quiet: "quiet e x (conn_destroy e s x)"
  unfolding conn_destroy_def Let_def by (auto intro!: quiet_intros)

subsection \<open>Properties\<close>

text \<open>
  How far a coroutine is from giving up: its retry counter, and for discovery and listening whether
  the second of waiting is over.
\<close>

fun conn_rank :: "frame \<Rightarrow> nat" where
  "conn_rank (F_ConnDiscovery _ n) = 2 * n + 2"
| "conn_rank (F_ConnDiscoveryWait _ n) = 2 * n + 1"
| "conn_rank (F_ConnListening _ n) = 2 * n + 2"
| "conn_rank (F_ConnListeningWait _ n) = 2 * n + 1"
| "conn_rank (F_ConnHello _ n _ _) = n"
| "conn_rank (F_ConnAttempt _ n) = n"
| "conn_rank _ = 0"

definition conn_below :: "nat \<Rightarrow> frame \<Rightarrow> bool" where
  "conn_below k f \<longleftrightarrow> conn_rank f < k"

lemma conn_below_rank [simp]: "conn_rank f < k \<Longrightarrow> conn_below k f"
  by (simp add: conn_below_def)

lemma conn_disconnect_adds: "0 < k \<Longrightarrow> adds e (conn_below k) x (snd (conn_disconnect e sid mac s x))"
  unfolding conn_disconnect_def by (auto intro: adds_await)

lemma conn_send_hello_adds:
  "n < k \<Longrightarrow> adds e (conn_below k) x (snd (conn_send_hello e sid n hello mac s x))"
  unfolding conn_send_hello_def by (auto intro: adds_await adds_refl)

lemma conn_fatal_adds: "0 < k \<Longrightarrow> adds e (conn_below k) x (conn_detect_fatal_failure e s x)"
  unfolding conn_detect_fatal_failure_def by (auto intro!: adds_after adds_refl)

lemma conn_bluetooth_off_adds:
  "0 < k \<Longrightarrow> adds e (conn_below k) x (snd (conn_on_bluetooth_off e sid s x))"
  unfolding conn_on_bluetooth_off_def by (auto intro: adds_rules)

lemma conn_discovery_result_adds:
  "2 * n + 1 < k \<Longrightarrow> adds e (conn_below k) x (snd (conn_discovery_result e sid n r s x))"
  unfolding conn_discovery_result_def
  by (auto intro: adds_refl conn_bluetooth_off_adds adds_rules)

lemma conn_discovery_adds:
  "2 * n + 2 < k \<Longrightarrow> adds e (conn_below k) x (snd (conn_discovery e sid n s x))"
  unfolding conn_discovery_def
  by (rule adds_await_case) (auto intro!: adds_trans[OF _ conn_discovery_result_adds])

lemma conn_discovery_retry_adds:
  "2 * n < k \<Longrightarrow> adds e (conn_below k) x (snd (conn_discovery_retry e sid n s x))"
  by (cases n) (auto simp: conn_discovery_retry_def Let_def intro: conn_discovery_adds conn_fatal_adds)

lemma conn_listening_result_adds:
  "2 * n + 1 < k \<Longrightarrow> adds e (conn_below k) x (snd (conn_listening_result e sid n r s x))"
  unfolding conn_listening_result_def Let_def
  by (auto intro: adds_refl conn_bluetooth_off_adds conn_fatal_adds adds_rules)

lemma conn_listening_adds:
  "2 * n + 2 < k \<Longrightarrow> adds e (conn_below k) x (snd (conn_listening e sid n s x))"
  unfolding conn_listening_def
  by (rule adds_await_case) (auto intro!: adds_trans[OF _ conn_listening_result_adds])

lemma conn_listening_retry_adds:
  "2 * n < k \<Longrightarrow> adds e (conn_below k) x (snd (conn_listening_retry e sid n s x))"
  by (cases n) (auto simp: conn_listening_retry_def Let_def intro: conn_listening_adds conn_fatal_adds)

lemma conn_attempt_adds:
  "n < k \<Longrightarrow> adds e (conn_below k) x (snd (conn_attempt e sid n s x))"
  unfolding conn_attempt_def Let_def
  by (auto intro!: adds_after adds_refl adds_pool_call split: option.split)

lemma conn_resume_adds:
  assumes "0 < conn_rank f" "resume_connecting e sid f r s x = Some res"
  shows "adds e (conn_below (conn_rank f)) x (snd res)"
  using assms
  by (cases f)
     (auto simp: conn_hello_result_def conn_attempt_timeout_def conn_on_device_disconnected_def Let_def
       intro!: conn_discovery_result_adds conn_listening_result_adds conn_discovery_retry_adds
         conn_listening_retry_adds conn_fatal_adds conn_send_hello_adds conn_disconnect_adds
         conn_attempt_adds adds_after adds_refl)

text \<open>
  The retries of \<open>StateConnecting\<close> are bounded: whatever a coroutine of discovery, listening,
  hello or negotiation start is answered, every coroutine that waits because of it is closer to
  giving up.  With the counters of the constructor there are at most three attempts at discovery
  and at listening, ten hellos to a device and thirty seconds of waiting for the local address.
\<close>

theorem conn_retries_decrease:
  assumes "0 < conn_rank f" and "resume_connecting e sid f r s x = Some (s', x')"
  shows "\<exists>N. waiting x' = waiting x + N \<and> (\<forall>g \<in># N. conn_rank g < conn_rank f)"
  using conn_resume_adds[OF assms] by (auto simp: adds_def grows_def conn_below_def)

theorem conn_retries_decrease_witness:
  "\<exists>N. waiting (wait_for 1000 (F_ConnDiscoveryWait 0 2) ctx_init) = waiting ctx_init + N \<and>
       (\<forall>g \<in># N. conn_rank g < 6)"
  using conn_retries_decrease[of "F_ConnDiscovery 0 2" undefined 0 R_INVALID_STATE undefined ctx_init]
  by (simp add: conn_discovery_result_def)

text \<open>
  The first hello tells the local address, once and for all: a message never changes an
  address that is known, one that is no hello or cannot be decoded leaves it unknown, and the
  sender of any message counts as a peer afterwards, the other peers staying what they are.
\<close>

theorem conn_message_spec:
  assumes "conn_on_message_received e sid sender m s x = Some (s', x')"
  shows "cn_localMac s' =
           (case cn_localMac s of
              Some mac \<Rightarrow> Some mac
            | None \<Rightarrow> (case e_deserialize e m of Ok (MHello h) \<Rightarrow> Some (hl_mac h) | _ \<Rightarrow> None)) \<and>
         dv_mac ` set (cn_peers s') = insert (dv_mac sender) (dv_mac ` set (cn_peers s)) \<and>
         cn_discovering s' = cn_discovering s \<and> cn_listening s' = cn_listening s"
proof -
  have mac: "cn_localMac (fst (conn_on_device_connected e sid sender s x)) = cn_localMac s"
    and peers: "cn_peers (fst (conn_on_device_connected e sid sender s x)) = dv_insert sender (cn_peers s)"
    and rest: "cn_discovering (fst (conn_on_device_connected e sid sender s x)) = cn_discovering s"
      "cn_listening (fst (conn_on_device_connected e sid sender s x)) = cn_listening s"
    by (simp_all add: conn_on_device_connected_def conn_send_hello_def)
  obtain s1 x1 where sx: "(if \<not> dv_count sender (cn_peers s) then conn_on_device_connected e sid sender s x
                           else (s, x)) = (s1, x1)" by fastforce
  then have s1: "cn_localMac s1 = cn_localMac s" "cn_discovering s1 = cn_discovering s"
    "cn_listening s1 = cn_listening s"
    "dv_mac ` set (cn_peers s1) = insert (dv_mac sender) (dv_mac ` set (cn_peers s))"
    using mac peers rest dv_macs_insert[of sender "cn_peers s"]
    by (auto simp: dv_count_iff split: if_splits)
  show ?thesis using assms s1 unfolding conn_on_message_received_def sx
    by (auto split: if_splits option.splits outcome.splits message.splits)
qed

definition hello_env :: env where
  "hello_env = \<lparr>e_accept = (\<lambda>_. True), e_ser_hello = hl_mac, e_ser_offer = of_mac,
     e_ser_request = (\<lambda>_. []), e_ser_response = (\<lambda>_. []),
     e_deserialize = (\<lambda>m. Ok (MHello \<lparr>hl_mac = m\<rparr>)), e_generate = (\<lambda>_ c. c)\<rparr>"

theorem conn_message_spec_witness:
  "\<exists>s' x'. conn_on_message_received hello_env 0 (dv_of_mac ''b'') ''a''
     \<lparr>cn_discovering = None, cn_listening = None, cn_localMac = None, cn_peers = [dv_of_mac ''b''],
      cn_retryStart = False\<rparr> ctx_init = Some (s', x') \<and> cn_localMac s' = Some ''a''"
proof -
  let ?s = "\<lparr>cn_discovering = None, cn_listening = None, cn_localMac = None,
             cn_peers = [dv_of_mac ''b''], cn_retryStart = False\<rparr>"
  obtain s' x' where r: "conn_on_message_received hello_env 0 (dv_of_mac ''b'') ''a'' ?s ctx_init = Some (s', x')"
    by (simp add: conn_on_message_received_def dv_count_iff hello_env_def)
  from conn_message_spec[OF r] r show ?thesis by (simp add: hello_env_def)
qed

end
