(* ===== verification/Fsm_Negotiating.thy ===== *)
theory Fsm_Negotiating
  imports Events State_Object "HOL-Library.List_Lexorder" "HOL-Library.Char_ord"
begin

text \<open>
  \<open>fsm::StateNegotiating\<close> (fsm/statenegotiating.cpp): the devices agree on the generator of the
  random numbers by exchanging offers, each a round and the address nominated in that round.
  Operations return \<open>None\<close> where the code does not come back or dereferences \<open>end()\<close>.
\<close>

text \<open>\<open>m_offers\<close> is a \<open>std::map\<close> from addresses, in the byte-wise order of \<open>std::string\<close>.\<close>

type_synonym offers = "(string \<times> offer) list"

record negotiating =
  ng_localMac :: string
  ng_peers :: devices
  ng_offers :: offers

text \<open>\<open>GetLocalOfferMac\<close>\<close>

definition neg_local_offer_mac :: "u32 \<Rightarrow> offers \<Rightarrow> string" where
  "neg_local_offer_mac round offers = fst (offers ! (unat round mod length offers))"

subsection \<open>DisconnectDevice and SendOffer\<close>

text \<open>
  \<open>DisconnectDevice\<close> repeats the command while the response is \<open>INVALID_STATE\<close> or
  \<open>INTEROP_FAILURE\<close>.  A command that cannot be issued is answered \<open>INTEROP_FAILURE\<close> at once, so
  the loop then runs again without a suspension: \<open>None\<close> if that never ends.  The frame is the
  coroutine that continues, with or without \<open>SendOffer\<close> as its caller.
\<close>

partial_function (option) neg_disconnect :: "env \<Rightarrow> string \<Rightarrow> frame \<Rightarrow> ctx \<Rightarrow> ctx option" where
  "neg_disconnect e mac f x =
     (case await_command e (CloseConnection [] mac) f x of
        (suspended, x') \<Rightarrow> if suspended then Some x' else neg_disconnect e mac f x')"

declare neg_disconnect.simps [code]

definition neg_disconnect_again :: "rcode \<Rightarrow> bool" where
  "neg_disconnect_again response \<longleftrightarrow>
     response = R_INVALID_STATE \<or> response = R_INTEROP_FAILURE"

definition neg_disconnect_result ::
  "env \<Rightarrow> nat \<Rightarrow> string \<Rightarrow> rcode \<Rightarrow> negotiating \<Rightarrow> ctx \<Rightarrow> (negotiating \<times> ctx) option" where
  "neg_disconnect_result e sid mac response s x =
     (if neg_disconnect_again response
      then map_option (Pair s) (neg_disconnect e mac (F_NegDisconnect sid mac) x)
      else Some (s, x))"

definition neg_forget :: "device \<Rightarrow> negotiating \<Rightarrow> negotiating" where
  "neg_forget d s = s\<lparr>ng_peers := dv_erase d (ng_peers s),
                      ng_offers := al_erase (dv_mac d) (ng_offers s)\<rparr>"

text \<open>\<open>SendOffer\<close>: no branch acts on the \<open>INTEROP_FAILURE\<close> of a command that is not issued.\<close>

definition neg_send_offer :: "env \<Rightarrow> nat \<Rightarrow> string \<Rightarrow> device \<Rightarrow> ctx \<Rightarrow> ctx" where
  "neg_send_offer e sid offer receiver x =
     snd (await_command e (SendMessage offer (dv_mac receiver)) (F_NegOffer sid receiver) x)"

definition neg_offer_result ::
  "env \<Rightarrow> nat \<Rightarrow> device \<Rightarrow> rcode \<Rightarrow> negotiating \<Rightarrow> ctx \<Rightarrow> (negotiating \<times> ctx) option" where
  "neg_offer_result e sid receiver response s x =
     (if response = R_SOCKET_ERROR then
        map_option (Pair s)
          (neg_disconnect e (dv_mac receiver) (F_NegOfferDisconnect sid receiver) x)
      else if response = R_CONNECTION_NOT_FOUND then Some (neg_forget receiver s, x)
      else Some (s, x))"

definition neg_offer_disconnect_result ::
  "env \<Rightarrow> nat \<Rightarrow> device \<Rightarrow> rcode \<Rightarrow> negotiating \<Rightarrow> ctx \<Rightarrow> (negotiating \<times> ctx) option" where
  "neg_offer_disconnect_result e sid receiver response s x =
     (if neg_disconnect_again response then
        map_option (Pair s)
          (neg_disconnect e (dv_mac receiver) (F_NegOfferDisconnect sid receiver) x)
      else Some (neg_forget receiver s, x))"

subsection \<open>UpdateAndBroadcastOffer\<close>

definition all_offers_equal :: "offer \<Rightarrow> offers \<Rightarrow> bool" where
  "all_offers_equal localOffer offers \<longleftrightarrow>
     (\<forall>p \<in> set offers. of_round (snd p) = of_round localOffer \<and> of_mac (snd p) = of_mac localOffer)"

fun max_round :: "u32 \<Rightarrow> offers \<Rightarrow> u32" where
  "max_round m [] = m"
| "max_round m (p # ps) = max_round (if m < of_round (snd p) then of_round (snd p) else m) ps"

definition nominee_name :: "string \<Rightarrow> devices \<Rightarrow> string" where
  "nominee_name mac peers =
     (case dv_find (dv_of_mac mac) peers of None \<Rightarrow> ''You'' | Some d \<Rightarrow> dv_name d)"

text \<open>
  One iteration of the loop.  \<open>None\<close> when \<open>m_offers\<close> has no offer of the local device, so that
  \<open>localOffer\<close> is \<open>end()\<close>.  The arguments of the switch to \<open>StatePlaying\<close> are moved out of the
  object.
\<close>

definition neg_update_and_broadcast ::
  "env \<Rightarrow> nat \<Rightarrow> negotiating \<Rightarrow> ctx \<Rightarrow> (negotiating \<times> ctx) option" where
  "neg_update_and_broadcast e sid s x =
     (case map_of (ng_offers s) (ng_localMac s) of
        None \<Rightarrow> None
      | Some localOffer \<Rightarrow>
          if all_offers_equal localOffer (ng_offers s) then
            (let x1 = fire_and_forget e
                        (NegotiationStop (nominee_name (of_mac localOffer) (ng_peers s))) x;
                 x2 = switch_to (T_Playing (ng_peers s) (ng_localMac s) (of_mac localOffer)) x1
             in Some (s\<lparr>ng_peers := [], ng_localMac := [],
                        ng_offers := sm_assign (ng_localMac s) (localOffer\<lparr>of_mac := []\<rparr>)
                                       (ng_offers s)\<rparr>, x2))
          else
            (let maxRound = max_round (cx_round x) (ng_offers s);
                 x1 = (if maxRound > cx_round x then x\<lparr>cx_round := maxRound\<rparr> else x);
                 newOffer = \<lparr>of_mac = neg_local_offer_mac (cx_round x1) (ng_offers s),
                             of_round = cx_round x1\<rparr>;
                 s1 = s\<lparr>ng_offers := sm_assign (ng_localMac s) newOffer (ng_offers s)\<rparr>;
                 x2 = fold (neg_send_offer e sid (e_ser_offer e newOffer)) (ng_peers s1) x1
             in Some (s1, wait_for 1000 (F_NegRound sid) x2)))"

definition neg_start_result ::
  "env \<Rightarrow> nat \<Rightarrow> rcode \<Rightarrow> negotiating \<Rightarrow> ctx \<Rightarrow> (negotiating \<times> ctx) option" where
  "neg_start_result e sid response s x =
     (if response = R_OK then neg_update_and_broadcast e sid s x else Some (s, x))"

text \<open>\<open>StartNegotiation\<close>; a response that is ready at once is \<open>INTEROP_FAILURE\<close> and only logged.\<close>

definition neg_start :: "env \<Rightarrow> nat \<Rightarrow> ctx \<Rightarrow> ctx" where
  "neg_start e sid x = snd (await_command e NegotiationStart (F_NegStart sid) x)"

subsection \<open>Events\<close>

definition neg_on_bluetooth_off :: "env \<Rightarrow> nat \<Rightarrow> negotiating \<Rightarrow> ctx \<Rightarrow> negotiating \<times> ctx" where
  "neg_on_bluetooth_off e sid s x =
     (let x1 = fire_and_forget e ResetConnections x;
          x2 = fire_and_forget e ResetGame x1
      in (s, switch_to (T_Idle False) x2))"

definition neg_on_message_received ::
  "env \<Rightarrow> nat \<Rightarrow> device \<Rightarrow> string \<Rightarrow> negotiating \<Rightarrow> ctx \<Rightarrow> (negotiating \<times> ctx) option" where
  "neg_on_message_received e sid sender message s x =
     (if \<not> dv_count sender (ng_peers s) then Some (s, x)
      else
        (case e_deserialize e message of
           Ok (MOffer offer) \<Rightarrow>
             Some (s\<lparr>ng_offers := sm_assign (dv_mac sender) offer (ng_offers s)\<rparr>, x)
         | Ok _ \<Rightarrow> Some (s, x)
         | Throw _ \<Rightarrow> Some (s, x)
         | Undef \<Rightarrow> None))"

definition neg_on_game_stopped :: "env \<Rightarrow> nat \<Rightarrow> negotiating \<Rightarrow> ctx \<Rightarrow> negotiating \<times> ctx" where
  "neg_on_game_stopped e sid s x =
     (s, switch_to (T_Idle False) (fire_and_forget e ResetConnections x))"

definition neg_on_socket_read_failure ::
  "env \<Rightarrow> nat \<Rightarrow> device \<Rightarrow> negotiating \<Rightarrow> ctx \<Rightarrow> (negotiating \<times> ctx) option" where
  "neg_on_socket_read_failure e sid from s x =
     (if dv_count from (ng_peers s)
      then map_option (Pair (neg_forget from s))
             (neg_disconnect e (dv_mac from) (F_NegDisconnect sid (dv_mac from)) x)
      else Some (s, x))"

subsection \<open>Constructors\<close>

definition neg_initial_offers :: "devices \<Rightarrow> offers" where
  "neg_initial_offers peers =
     fold (\<lambda>d. sm_insert (dv_mac d) \<lparr>of_mac = [], of_round = 0\<rparr>) peers []"

definition neg_construct ::
  "env \<Rightarrow> nat \<Rightarrow> devices \<Rightarrow> string \<Rightarrow> ctx \<Rightarrow> negotiating \<times> ctx" where
  "neg_construct e sid peers localMac x =
     (let r = cx_round x + 1;
          x1 = x\<lparr>cx_round := r\<rparr>;
          offers1 = sm_assign localMac \<lparr>of_mac = [], of_round = r\<rparr> (neg_initial_offers peers);
          offers2 = sm_assign localMac \<lparr>of_mac = neg_local_offer_mac r offers1, of_round = r\<rparr> offers1
      in (\<lparr>ng_localMac = localMac, ng_peers = peers, ng_offers = offers2\<rparr>, neg_start e sid x1))"

definition neg_construct_with ::
  "env \<Rightarrow> nat \<Rightarrow> devices \<Rightarrow> string \<Rightarrow> device \<Rightarrow> string \<Rightarrow> ctx \<Rightarrow> (negotiating \<times> ctx) option" where
  "neg_construct_with e sid peers localMac sender message x =
     (let (s, x1) = neg_construct e sid peers localMac x
      in neg_on_message_received e sid sender message s x1)"

subsection \<open>Dispatch\<close>

text \<open>
  The virtual functions of this state (one it does not override does nothing, fsm/statebase.hpp),
  and what a coroutine of this object does when it is resumed with a response (a timeout passes
  one too, which is not read).
\<close>

fun call_negotiating ::
  "env \<Rightarrow> nat \<Rightarrow> state_call \<Rightarrow> negotiating \<Rightarrow> ctx \<Rightarrow> (negotiating \<times> ctx) option" where
  "call_negotiating e sid OnBluetoothOff s x = Some (neg_on_bluetooth_off e sid s x)"
| "call_negotiating e sid (OnMessageReceived d m) s x = neg_on_message_received e sid d m s x"
| "call_negotiating e sid OnGameStopped s x = Some (neg_on_game_stopped e sid s x)"
| "call_negotiating e sid (OnSocketReadFailure d) s x = neg_on_socket_read_failure e sid d s x"
| "call_negotiating e sid _ s x = Some (s, x)"

fun resume_negotiating ::
  "env \<Rightarrow> nat \<Rightarrow> frame \<Rightarrow> rcode \<Rightarrow> negotiating \<Rightarrow> ctx \<Rightarrow> (negotiating \<times> ctx) option" where
  "resume_negotiating e sid (F_NegStart _) r s x = neg_start_result e sid r s x"
| "resume_negotiating e sid (F_NegRound _) r s x = neg_update_and_broadcast e sid s x"
| "resume_negotiating e sid (F_NegOffer _ d) r s x = neg_offer_result e sid d r s x"
| "resume_negotiating e sid (F_NegOfferDisconnect _ d) r s x =
     neg_offer_disconnect_result e sid d r s x"
| "resume_negotiating e sid (F_NegDisconnect _ mac) r s x = neg_disconnect_result e sid mac r s x"
| "resume_negotiating e sid _ r s x = Some (s, x)"

subsection \<open>Invariant\<close>

fun neg_frame :: "nat \<Rightarrow> frame \<Rightarrow> bool" where
  "neg_frame sid (F_NegStart own) = (own = sid)"
| "neg_frame sid (F_NegRound own) = (own = sid)"
| "neg_frame sid (F_NegOffer own _) = (own = sid)"
| "neg_frame sid (F_NegOfferDisconnect own _) = (own = sid)"
| "neg_frame sid (F_NegDisconnect own _) = (own = sid)"
| "neg_frame sid (F_Switch t) =
     (case t of T_Idle _ \<Rightarrow> True | T_Playing peers _ _ \<Rightarrow> dv_wf peers | _ \<Rightarrow> False)"
| "neg_frame sid _ = False"

text \<open>The one coroutine that starts the negotiation and then runs its rounds.\<close>

fun neg_round_task :: "nat \<Rightarrow> frame \<Rightarrow> bool" where
  "neg_round_task sid (F_NegStart own) = (own = sid)"
| "neg_round_task sid (F_NegRound own) = (own = sid)"
| "neg_round_task sid _ = False"

definition neg_waits :: "nat \<Rightarrow> nat \<Rightarrow> negotiating \<Rightarrow> frame multiset \<Rightarrow> bool" where
  "neg_waits n sid s W \<longleftrightarrow>
     dv_wf (ng_peers s) \<and> sm_wf (ng_offers s) \<and>
     (\<forall>f \<in># W. frame_owner f = Some sid \<longrightarrow> neg_frame sid f) \<and>
     tasks (neg_round_task sid) W \<le> n"

definition neg_inv :: "nat \<Rightarrow> negotiating \<Rightarrow> frame multiset \<Rightarrow> bool" where
  "neg_inv = neg_waits 1"

lemma neg_round_task_owner: "neg_round_task sid f \<Longrightarrow> frame_owner f = Some sid"
  by (cases f) auto

interpretation neg: state_object neg_frame neg_inv
proof
  show "neg_inv sid s (add_mset f W) = neg_inv sid s W" if "frame_owner f \<noteq> Some sid" for f sid s W
    using that neg_round_task_owner[of sid f] by (auto simp: neg_inv_def neg_waits_def)
  show "neg_frame sid f" if "neg_inv sid s W" "f \<in># W" "frame_owner f = Some sid" for f sid s W
    using that by (auto simp: neg_inv_def neg_waits_def)
  show "frame_owner f = Some sid \<or> switch_ok f" if "neg_frame sid f" for sid f
    using that by (cases f) (auto split: target.splits)
qed

lemma neg_inv_other:
  "neg_inv sid s W \<Longrightarrow> neg_frame sid f \<Longrightarrow> \<not> neg_round_task sid f \<Longrightarrow> neg_inv sid s (add_mset f W)"
  by (simp add: neg_inv_def neg_waits_def)

lemma neg_inv_forget: "neg_inv sid s W \<Longrightarrow> neg_inv sid (neg_forget d s) W"
  by (simp add: neg_inv_def neg_waits_def neg_forget_def dv_wf_erase sm_wf_erase)

lemma neg_inv_assign:
  "neg_inv sid s W \<Longrightarrow> neg_inv sid (s\<lparr>ng_offers := sm_assign k v (ng_offers s)\<rparr>) W"
  by (simp add: neg_inv_def neg_waits_def sm_wf_assign)

subsection \<open>Every operation keeps it\<close>

text \<open>When \<open>DisconnectDevice\<close> comes back to its caller at all, it has suspended once.\<close>

lemma neg_disconnect_step_grows:
  assumes "\<And>x' b. rec x' = Some b \<Longrightarrow> grows e {#f#} x' b"
    and "(case await_command e c f x of (suspended, x') \<Rightarrow> if suspended then Some x' else rec x') = Some y"
    and f: "switch_target f = None"
  shows "grows e {#f#} x y"
proof -
  obtain b x' where c: "await_command e c f x = (b, x')" by fastforce
  show ?thesis
    using assms c grows_await_command[OF c f] grows_trans[of e "{#}" x x' "{#f#}" y] by (cases b) auto
qed

lemma neg_disconnect_induct [consumes 1, case_names step]:
  assumes "neg_disconnect e mac f x = Some y"
    and "\<And>x y rec. (\<And>x' y'. rec x' = Some y' \<Longrightarrow> P x' y') \<Longrightarrow>
      (case await_command e (CloseConnection [] mac) f x of
         (suspended, x') \<Rightarrow> if suspended then Some x' else rec x') = Some y \<Longrightarrow> P x y"
  shows "P x y"
proof (rule neg_disconnect.raw_induct[of "\<lambda>e' mac' f' x y. e' = e \<and> mac' = mac \<and> f' = f \<longrightarrow> P x y"
      "(((e, mac), f), x)" y, simplified], goal_cases)
  case (1 rec e' mac' f' x y)
  then show ?case using assms(2)[of "rec e mac f" x y] by blast
next
  case 2
  show ?case using assms(1) .
qed

lemma neg_disconnect_grows:
  "neg_disconnect e mac f x = Some y \<Longrightarrow> switch_target f = None \<Longrightarrow> grows e {#f#} x y"
  by (induction rule: neg_disconnect_induct) (rule neg_disconnect_step_grows)

lemma neg_disconnect_ok:
  assumes "neg_inv sid s W" "neg_frame sid f" "\<not> neg_round_task sid f" "switch_target f = None"
    "map_option (Pair s) (neg_disconnect e mac f x) = Some r"
  shows "neg.ok e sid W x r"
  using assms neg_disconnect_grows[of e mac f x] neg_inv_other
  by (auto intro!: neg.okI[where N = "{#f#}"])

lemma neg_disconnect_frame_ok:
  "neg_inv sid s W \<Longrightarrow> neg_disconnect e mac f x = Some y \<Longrightarrow> neg_frame sid f \<Longrightarrow>
   \<not> neg_round_task sid f \<Longrightarrow> switch_target f = None \<Longrightarrow> neg.ok e sid W x (s, y)"
  by (rule neg_disconnect_ok) auto

lemma neg_disconnect_result_ok:
  "neg_inv sid s W \<Longrightarrow> neg_disconnect_result e sid mac rc s x = Some r \<Longrightarrow> neg.ok e sid W x r"
  by (auto simp: neg_disconnect_result_def neg.ok_here split: if_splits
      intro: neg_disconnect_ok[where f = "F_NegDisconnect sid mac"])

lemma neg_offer_result_ok:
  "neg_inv sid s W \<Longrightarrow> neg_offer_result e sid d rc s x = Some r \<Longrightarrow> neg.ok e sid W x r"
  by (auto simp: neg_offer_result_def neg.ok_here neg_inv_forget split: if_splits
      intro: neg_disconnect_ok[where f = "F_NegOfferDisconnect sid d"])

lemma neg_offer_disconnect_result_ok:
  "neg_inv sid s W \<Longrightarrow> neg_offer_disconnect_result e sid d rc s x = Some r \<Longrightarrow> neg.ok e sid W x r"
  by (auto simp: neg_offer_disconnect_result_def neg.ok_here neg_inv_forget split: if_splits
      intro: neg_disconnect_ok[where f = "F_NegOfferDisconnect sid d"])

lemma neg_on_message_received_ok:
  "neg_inv sid s W \<Longrightarrow> neg_on_message_received e sid d m s x = Some r \<Longrightarrow> neg.ok e sid W x r"
  by (auto simp: neg_on_message_received_def neg.ok_here neg_inv_assign
      split: if_splits outcome.splits message.splits)

lemma neg_on_socket_read_failure_ok:
  "neg_inv sid s W \<Longrightarrow> neg_on_socket_read_failure e sid d s x = Some r \<Longrightarrow> neg.ok e sid W x r"
  by (auto simp: neg_on_socket_read_failure_def split: if_splits
      intro: neg_disconnect_frame_ok neg_inv_forget neg.ok_here)

text \<open>A round: only offers are sent before the second of waiting.\<close>

lemma neg_send_offers_adds:
  "adds e (\<lambda>f. \<exists>d. f = F_NegOffer sid d) x (fold (neg_send_offer e sid offer) ps x)"
  unfolding neg_send_offer_def by (rule adds_fold) (auto intro: adds_rules)

lemma neg_send_offers_ok:
  "neg_inv sid s W \<Longrightarrow> neg.ok e sid W x (s, fold (neg_send_offer e sid offer) ps x)"
  by (rule neg.ok_adds[OF neg_send_offers_adds]) (auto intro: neg_inv_other)

lemma neg_waits_0: "neg_waits 0 sid s W \<Longrightarrow> neg_inv sid s W"
  by (simp add: neg_inv_def neg_waits_def)

lemma neg_waits_suspend: 
  "neg_waits 0 sid s W \<Longrightarrow> neg_frame sid f \<Longrightarrow> neg_inv sid s (add_mset f W)"
  by (simp add: neg_inv_def neg_waits_def)

lemma neg_update_ok:
  assumes inv: "neg_waits 0 sid s W" and r: "neg_update_and_broadcast e sid s x = Some r"
  shows "neg.ok e sid W x r"
proof -
  obtain lo where lo: "map_of (ng_offers s) (ng_localMac s) = Some lo"
    using r by (auto simp: neg_update_and_broadcast_def split: option.splits)
  show ?thesis
  proof (cases "all_offers_equal lo (ng_offers s)")
    case True
    let ?s = "s\<lparr>ng_peers := [], ng_localMac := [],
                ng_offers := sm_assign (ng_localMac s) (lo\<lparr>of_mac := []\<rparr>) (ng_offers s)\<rparr>"
    have "dv_wf (ng_peers s)" "neg_inv sid ?s W"
      using inv by (simp_all add: neg_waits_def neg_inv_def dv_wf_def sm_wf_assign)
    then show ?thesis using r lo True
      by (auto simp: neg_update_and_broadcast_def Let_def intro!: neg.ok_switch quiet_intros)
  next
    case False
    define m where "m = max_round (cx_round x) (ng_offers s)"
    define x1 where "x1 = (if m > cx_round x then x\<lparr>cx_round := m\<rparr> else x)"
    define o1 where "o1 = \<lparr>of_mac = neg_local_offer_mac (cx_round x1) (ng_offers s),
                           of_round = cx_round x1\<rparr>"
    define s1 where "s1 = s\<lparr>ng_offers := sm_assign (ng_localMac s) o1 (ng_offers s)\<rparr>"
    let ?x2 = "fold (neg_send_offer e sid (e_ser_offer e o1)) (ng_peers s1) x1"
    have r': "r = (s1, wait_for 1000 (F_NegRound sid) ?x2)"
      using r lo False
      unfolding neg_update_and_broadcast_def Let_def m_def[symmetric] x1_def[symmetric]
        o1_def[symmetric] s1_def[symmetric] by simp
    have q: "quiet e x x1" by (auto simp: x1_def intro: quiet_intros)
    have s1: "neg_waits 0 sid s1 W"
      using inv by (simp add: s1_def neg_waits_def sm_wf_assign)
    obtain N where N: "grows e N x1 ?x2" "\<forall>f \<in># N. \<exists>d. f = F_NegOffer sid d"
      using neg_send_offers_adds unfolding adds_def by blast
    have "tasks (neg_round_task sid) N = 0" using N(2) by (intro tasks_none) auto
    with N(2) s1 have "neg_waits 0 sid s1 (W + N)" by (auto simp: neg_waits_def)
    then have "neg.ok e sid (W + N) ?x2 r"
      unfolding r' by (intro neg.ok_wait[OF quiet_refl] neg_waits_suspend) auto
    with N q show ?thesis
      by (intro neg.ok_quiet[OF q] neg.ok_after[OF N(1)]) auto
  qed
qed

lemma neg_start_result_ok:
  "neg_waits 0 sid s W \<Longrightarrow> neg_start_result e sid rc s x = Some r \<Longrightarrow> neg.ok e sid W x r"
  by (auto simp: neg_start_result_def neg.ok_here neg_waits_0 split: if_splits intro: neg_update_ok)

lemma neg_call_ok:
  "neg_inv sid s W \<Longrightarrow> call_negotiating e sid c s x = Some r \<Longrightarrow> neg.ok e sid W x r"
  by (cases c)
     (auto simp: neg_on_bluetooth_off_def neg_on_game_stopped_def Let_def
       intro!: neg.ok_switch neg.ok_here quiet_intros
       intro: neg_on_message_received_ok neg_on_socket_read_failure_ok)

lemma neg_resume_waits:
  assumes "neg_inv sid s (add_mset f V)"
  shows "neg_round_task sid f \<Longrightarrow> neg_waits 0 sid s V" and "neg_inv sid s V"
  using assms by (auto simp: neg_inv_def neg_waits_def split: if_splits)

lemma neg_resume_ok:
  assumes inv: "neg_inv sid s W" and f: "f \<in># W" "frame_owner f = Some sid"
    and res: "resume_negotiating e sid f code s x = Some r"
  shows "neg.ok e sid (W - {#f#}) x r"
proof -
  obtain V where W: "W = add_mset f V" using f(1) by (metis multi_member_split)
  have fr: "neg_frame sid f" using neg.inv_frames[OF inv f] .
  show ?thesis using neg_resume_waits[of sid s f V] inv fr res W f(2)
    by (cases f)
       (auto intro: neg_start_result_ok neg_update_ok neg_offer_result_ok
         neg_offer_disconnect_result_ok neg_disconnect_result_ok)
qed

interpretation neg: fsm_state_object neg_frame neg_inv call_negotiating resume_negotiating
  using neg_call_ok neg_resume_ok by unfold_locales blast+

lemma neg_initial_offers_wf: "sm_wf (neg_initial_offers peers)"
proof -
  have "sm_wf ps \<Longrightarrow> sm_wf (fold (\<lambda>d. sm_insert (dv_mac d) v) peers ps)" for v :: offer and ps
    by (induction peers arbitrary: ps) (auto simp: sm_wf_insert)
  then show ?thesis by (simp add: neg_initial_offers_def sm_wf_def)
qed

lemma neg_initial_offers_keys: "fst ` set (neg_initial_offers peers) = dv_mac ` set peers"
proof -
  have "fst ` set (fold (\<lambda>d. sm_insert (dv_mac d) v) peers ps) = dv_mac ` set peers \<union> fst ` set ps"
    for v :: offer and ps by (induction peers arbitrary: ps) auto
  then show ?thesis by (simp add: neg_initial_offers_def)
qed

lemma neg_construct_ok:
  assumes new: "\<forall>f \<in># W. frame_owner f \<noteq> Some sid" and wf: "dv_wf peers"
  shows "neg.ok e sid W x (neg_construct e sid peers mac x)"
proof -
  obtain s where s: "neg_construct e sid peers mac x = (s, neg_start e sid (x\<lparr>cx_round := cx_round x + 1\<rparr>))"
    "ng_peers s = peers" "sm_wf (ng_offers s)"
    by (auto simp: neg_construct_def Let_def sm_wf_assign neg_initial_offers_wf)
  have "tasks (neg_round_task sid) W = 0"
    using new neg_round_task_owner by (intro tasks_none) blast
  then have "neg_waits 0 sid s W" using s new wf by (auto simp: neg_waits_def)
  then have "neg.ok e sid W y (s, neg_start e sid y)" for y
    unfolding neg_start_def by (intro neg.ok_command_end) (auto intro: neg_waits_suspend neg_waits_0)
  then show ?thesis unfolding s(1) by (rule neg.ok_quiet[OF quiet_round[OF quiet_refl]])
qed

lemma neg_construct_with_ok:
  assumes "\<forall>f \<in># W. frame_owner f \<noteq> Some sid" "dv_wf peers"
    and "neg_construct_with e sid peers mac sender m x = Some r"
  shows "neg.ok e sid W x r"
proof -
  obtain s x1 where s: "neg_construct e sid peers mac x = (s, x1)" by fastforce
  with assms(3) have r: "neg_on_message_received e sid sender m s x1 = Some r"
    by (simp add: neg_construct_with_def)
  have "neg.ok e sid W x (s, x1)" using neg_construct_ok[OF assms(1,2)] s by metis
  then show ?thesis by (rule neg.ok_seq) (use r neg_on_message_received_ok in simp)
qed

subsection \<open>Properties\<close>

lemma neg_disconnect_suspended: "fst (await_command e (CloseConnection [] mac) f x) \<Longrightarrow>
   neg_disconnect e mac f x = Some (snd (await_command e (CloseConnection [] mac) f x))"
  by (subst neg_disconnect.simps) (simp add: case_prod_beta)

lemma neg_disconnect_ready: "\<not> fst (await_command e (CloseConnection [] mac) f x) \<Longrightarrow>
   neg_disconnect e mac f x = neg_disconnect e mac f (snd (await_command e (CloseConnection [] mac) f x))"
  by (subst neg_disconnect.simps) (simp add: case_prod_beta)

text \<open>When a refused call is followed by an accepted one, the loop ends.\<close>

lemma neg_disconnect_ends:
  "\<not> window_full (CloseConnection [] mac) x \<Longrightarrow> e_accept e (mg_calls (cx_mgr x) + n) \<Longrightarrow>
   \<exists>y. neg_disconnect e mac f x = Some y"
proof (induction n arbitrary: x)
  case 0
  then show ?case using neg_disconnect_suspended await_command_suspends by (metis add.right_neutral)
next
  case (Suc n)
  let ?y = "snd (await_command e (CloseConnection [] mac) f x)"
  show ?case
  proof (cases "fst (await_command e (CloseConnection [] mac) f x)")
    case True
    then show ?thesis using neg_disconnect_suspended by blast
  next
    case False
    then have y: "?y = x\<lparr>cx_mgr := (cx_mgr x)\<lparr>mg_calls := Suc (mg_calls (cx_mgr x))\<rparr>\<rparr>"
      using await_command_ready Suc.prems(1) by simp
    then have "\<exists>z. neg_disconnect e mac f ?y = Some z"
      using Suc.prems by (intro Suc.IH) (simp_all add: window_full_def)
    then show ?thesis using neg_disconnect_ready[OF False] by simp
  qed
qed

text \<open>A result means that some call was accepted.\<close>

lemma neg_disconnect_accepted:
  assumes "neg_disconnect e mac f x = Some y"
  shows "\<not> window_full (CloseConnection [] mac) x \<and> (\<exists>n. e_accept e (mg_calls (cx_mgr x) + n))"
using assms
proof (induction rule: neg_disconnect_induct)
  case (step x y rec)
  let ?a = "await_command e (CloseConnection [] mac) f x"
  show ?case
  proof (cases "fst ?a")
    case True
    then show ?thesis using await_command_suspends by (metis add.right_neutral)
  next
    case False
    then have "rec (snd ?a) = Some y" using step(2) by (simp add: case_prod_beta)
    from step(1)[OF this] obtain n where "\<not> window_full (CloseConnection [] mac) (snd ?a)"
      "e_accept e (mg_calls (cx_mgr (snd ?a)) + n)" by blast
    then have "\<not> window_full (CloseConnection [] mac) x" "e_accept e (mg_calls (cx_mgr x) + Suc n)"
      using await_command_ready[OF False] by (auto simp: window_full_def split: if_splits)
    then show ?thesis by blast
  qed
qed

text \<open>
  C14. \<open>StateNegotiating::DisconnectDevice\<close> comes back, suspended, exactly when the window of its
  command has room and the external invoker accepts some later call; otherwise the loop
  repeats for ever without a suspension, and the main worker never runs another task.
\<close>

theorem neg_disconnect_returns:
  "(\<exists>y. neg_disconnect e mac f x = Some y) \<longleftrightarrow>
   \<not> window_full (CloseConnection [] mac) x \<and> (\<exists>n \<ge> mg_calls (cx_mgr x). e_accept e n)"
  using neg_disconnect_ends neg_disconnect_accepted by (metis le_Suc_ex le_add1)

end
