(* ===== verification/Fsm_Playing.thy ===== *)
theory Fsm_Playing
  imports Events State_Object
begin

text \<open>
  \<open>fsm::StatePlaying\<close> (fsm/stateplaying.cpp): sends and answers cast requests, and returns to
  negotiating after ten rounds, when the generator is lost or when a peer makes an offer.
\<close>

abbreviation RETRY_COUNT :: nat where "RETRY_COUNT \<equiv> 5"
abbreviation REQUEST_ATTEMPTS :: nat where "REQUEST_ATTEMPTS \<equiv> 3"
abbreviation ROUNDS_PER_GENERATOR :: u32 where "ROUNDS_PER_GENERATOR \<equiv> 10"
abbreviation IGNORE_OFFERS_DURATION :: int where "IGNORE_OFFERS_DURATION \<equiv> 10000"

text \<open>\<open>MAX_BUFFER_SIZE\<close> of \<open>SendMessage\<close> and \<open>ShowResponse\<close>, and of their long variants.\<close>

abbreviation MAX_BUFFER_SIZE :: nat where "MAX_BUFFER_SIZE \<equiv> 255"
abbreviation MAX_LONG_BUFFER_SIZE :: nat where "MAX_LONG_BUFFER_SIZE \<equiv> 1023"

subsection \<open>State\<close>

text \<open>\<open>StatePlaying::RemotePeerManager\<close>\<close>

record peer_manager =
  pm_remote :: device
  pm_isGenerator :: bool
  pm_pendingRequest :: bool
  pm_connected :: bool
  pm_queuedMessages :: "string list"

text \<open>\<open>pl_ignoreOffers\<close>: the handle \<open>m_ignoreOffers\<close> holds an unfinished coroutine.\<close>

record playing =
  pl_localMac :: string
  pl_localGenerator :: bool
  pl_ignoreOffers :: bool
  pl_pendingRequest :: "request option"
  pl_managers :: "(string \<times> peer_manager) list"
  pl_responseCount :: u32

definition pm_construct :: "device \<Rightarrow> bool \<Rightarrow> peer_manager" where
  "pm_construct remote isGenerator =
     \<lparr>pm_remote = remote, pm_isGenerator = isGenerator, pm_pendingRequest = False,
      pm_connected = True, pm_queuedMessages = []\<rparr>"

definition pm_destroy :: "env \<Rightarrow> peer_manager \<Rightarrow> ctx \<Rightarrow> ctx" where
  "pm_destroy e p x =
     (if \<not> pm_connected p
      then fire_and_forget e (CloseConnection ''Connection has been lost'' (dv_mac (pm_remote p))) x
      else x)"

definition pm_on_reception_success :: "bool \<Rightarrow> peer_manager \<Rightarrow> peer_manager" where
  "pm_on_reception_success answeredRequest p =
     (let p1 = p\<lparr>pm_connected := True\<rparr>
      in if answeredRequest then p1\<lparr>pm_pendingRequest := False\<rparr> else p1)"

definition pl_set_manager :: "string \<Rightarrow> peer_manager \<Rightarrow> playing \<Rightarrow> playing" where
  "pl_set_manager mac p s = s\<lparr>pl_managers := al_assign mac p (pl_managers s)\<rparr>"

subsection \<open>Renegotiation\<close>

definition connected_peers :: "playing \<Rightarrow> devices" where
  "connected_peers s =
     fold (\<lambda>(_, p) ps. if pm_connected p then dv_insert (pm_remote p) ps else ps) (pl_managers s) []"

definition play_start_negotiation :: "playing \<Rightarrow> ctx \<Rightarrow> ctx" where
  "play_start_negotiation s x = switch_to (T_Negotiating (connected_peers s) (pl_localMac s)) x"

definition play_destroy_managers :: "env \<Rightarrow> playing \<Rightarrow> ctx \<Rightarrow> ctx" where
  "play_destroy_managers e s x = fold (\<lambda>(_, p). pm_destroy e p) (pl_managers s) x"

definition play_start_negotiation_with_offer ::
  "env \<Rightarrow> device \<Rightarrow> string \<Rightarrow> playing \<Rightarrow> ctx \<Rightarrow> playing \<times> ctx" where
  "play_start_negotiation_with_offer e sender offer s x =
     (let peers = connected_peers s;
          x1 = play_destroy_managers e s x;
          s1 = s\<lparr>pl_managers := []\<rparr>
      in (s1, switch_to (T_NegotiatingWith peers (pl_localMac s) sender offer) x1))"

definition play_on_game_stopped :: "env \<Rightarrow> nat \<Rightarrow> playing \<Rightarrow> ctx \<Rightarrow> playing \<times> ctx" where
  "play_on_game_stopped e sid s x =
     (let x1 = fire_and_forget e ResetConnections x;
          x2 = fire_and_forget e ResetGame x1
      in (s, switch_to (T_Idle False) x2))"

subsection \<open>RemotePeerManager::Send\<close>

text \<open>What follows when \<open>Send\<close> has returned to its caller.\<close>

definition play_sent :: "nat \<Rightarrow> string \<Rightarrow> send_caller \<Rightarrow> ctx \<Rightarrow> ctx" where
  "play_sent sid mac k x =
     (case k of
        SendRoot \<Rightarrow> x
      | SendAttempt request attempt \<Rightarrow> wait_for 1000 (F_PlayAttempt sid mac request attempt) x)"

text \<open>
  The loop from its head, with \<open>retriesLeft\<close>; at 0 the loop has ended.  A command that cannot be
  issued is answered \<open>INTEROP_FAILURE\<close> at once and costs one retry.
\<close>

fun play_send_loop ::
  "env \<Rightarrow> nat \<Rightarrow> string \<Rightarrow> string \<Rightarrow> nat \<Rightarrow> send_caller \<Rightarrow> ctx \<Rightarrow> ctx" where
  "play_send_loop e sid mac message 0 k x = play_sent sid mac k x"
| "play_send_loop e sid mac message (Suc retries) k x =
     (case await_command e
             (if length message \<le> MAX_BUFFER_SIZE then SendMessage message mac
              else SendLongMessage message mac)
             (F_PlaySend sid mac message (Suc retries) k) x of
        (True, x') \<Rightarrow> x'
      | (False, x') \<Rightarrow> play_send_loop e sid mac message retries k x')"

definition play_send :: "env \<Rightarrow> nat \<Rightarrow> string \<Rightarrow> string \<Rightarrow> send_caller \<Rightarrow> ctx \<Rightarrow> ctx" where
  "play_send e sid mac message k x =
     (if length message > MAX_LONG_BUFFER_SIZE then
        play_sent sid mac k
          (fire_and_forget e (ShowToast ''Cannot send too long message, try fewer dices'' 7) x)
      else play_send_loop e sid mac message RETRY_COUNT k x)"

text \<open>
  The switch on the response.  After a success the most recently queued message is sent with
  \<open>RETRY_COUNT + 1\<close> retries, one of which the loop condition consumes.
\<close>

definition play_send_result ::
  "env \<Rightarrow> nat \<Rightarrow> string \<Rightarrow> string \<Rightarrow> nat \<Rightarrow> send_caller \<Rightarrow> rcode \<Rightarrow> peer_manager \<Rightarrow>
   playing \<Rightarrow> ctx \<Rightarrow> playing \<times> ctx" where
  "play_send_result e sid mac message retriesLeft k response p s x =
     (if response = R_INVALID_STATE \<or> response = R_INTEROP_FAILURE then
        (s, play_send_loop e sid mac message (retriesLeft - 1) k x)
      else if response = R_OK then
        (let p1 = p\<lparr>pm_connected := True\<rparr> in
         if pm_queuedMessages p1 = [] then (pl_set_manager mac p1 s, play_sent sid mac k x)
         else
           (let message' = last (pm_queuedMessages p1);
                p2 = p1\<lparr>pm_queuedMessages := butlast (pm_queuedMessages p1)\<rparr>
            in (pl_set_manager mac p2 s,
                play_send_loop e sid mac message' (RETRY_COUNT + 1 - 1) k x)))
      else
        (let p1 = p\<lparr>pm_connected := False, pm_queuedMessages := pm_queuedMessages p @ [message]\<rparr>;
             s1 = pl_set_manager mac p1 s;
             x1 = (if pm_isGenerator p1 then play_start_negotiation s1 x else x)
         in (s1, play_sent sid mac k x1)))"

subsection \<open>RemotePeerManager::SendRequestToGenerator\<close>

text \<open>
  The body of the loop with a positive \<open>attempt\<close>, and what follows the second of waiting:
  an answered request ends the coroutine, the last attempt ends in a renegotiation.
\<close>

definition play_attempt :: "env \<Rightarrow> nat \<Rightarrow> string \<Rightarrow> string \<Rightarrow> nat \<Rightarrow> ctx \<Rightarrow> ctx" where
  "play_attempt e sid mac request attempt x =
     play_send e sid mac request (SendAttempt request attempt) x"

definition play_attempt_timeout ::
  "env \<Rightarrow> nat \<Rightarrow> string \<Rightarrow> string \<Rightarrow> nat \<Rightarrow> peer_manager \<Rightarrow> playing \<Rightarrow> ctx \<Rightarrow> playing \<times> ctx" where
  "play_attempt_timeout e sid mac request attempt p s x =
     (if \<not> pm_pendingRequest p then (s, x)
      else if attempt - 1 > 0 then (s, play_attempt e sid mac request (attempt - 1) x)
      else (s, play_start_negotiation s x))"

text \<open>\<open>SendRequest\<close> and \<open>SendResponse\<close> of one manager.\<close>

definition play_send_request ::
  "env \<Rightarrow> nat \<Rightarrow> string \<Rightarrow> string \<times> peer_manager \<Rightarrow> playing \<times> ctx \<Rightarrow> playing \<times> ctx" where
  "play_send_request e sid request mp sx =
     (let (mac, p) = mp;
          s = pl_set_manager mac (p\<lparr>pm_pendingRequest := True\<rparr>) (fst sx)
      in if pm_isGenerator p then (s, play_attempt e sid mac request REQUEST_ATTEMPTS (snd sx))
         else (s, play_send e sid mac request SendRoot (snd sx)))"

definition play_send_response :: "env \<Rightarrow> nat \<Rightarrow> string \<Rightarrow> string \<times> peer_manager \<Rightarrow> ctx \<Rightarrow> ctx" where
  "play_send_response e sid response mp x = play_send e sid (fst mp) response SendRoot x"

subsection \<open>ShowRequest and ShowResponse\<close>

definition play_show_request_result ::
  "env \<Rightarrow> nat \<Rightarrow> rcode \<Rightarrow> playing \<Rightarrow> ctx \<Rightarrow> playing \<times> ctx" where
  "play_show_request_result e sid response s x =
     (if response \<noteq> R_OK then play_on_game_stopped e sid s x else (s, x))"

definition play_show_request ::
  "env \<Rightarrow> nat \<Rightarrow> request \<Rightarrow> string \<Rightarrow> playing \<Rightarrow> ctx \<Rightarrow> playing \<times> ctx" where
  "play_show_request e sid request from s x =
     (case await_command e
             (ShowRequest (type_to_string (rq_cast request)) (cast_size (rq_cast request))
                (case rq_threshold request of None \<Rightarrow> 0 | Some t \<Rightarrow> t) from)
             (F_PlayShowRequest sid) x of
        (True, x') \<Rightarrow> (s, x')
      | (False, x') \<Rightarrow> play_show_request_result e sid R_INTEROP_FAILURE s x')"

definition play_show_response_result ::
  "env \<Rightarrow> nat \<Rightarrow> rcode \<Rightarrow> playing \<Rightarrow> ctx \<Rightarrow> playing \<times> ctx" where
  "play_show_response_result e sid responseCode s x =
     (if responseCode \<noteq> R_OK then play_on_game_stopped e sid s x
      else
        (let s1 = s\<lparr>pl_responseCount := pl_responseCount s + 1\<rparr>
         in if pl_responseCount s1 \<ge> ROUNDS_PER_GENERATOR
            then (s1, play_start_negotiation s1 x) else (s1, x)))"

text \<open>\<open>static_cast<int32_t>(response.successCount.value_or(-1))\<close>\<close>

definition success_count_arg :: "u64 option \<Rightarrow> int" where
  "success_count_arg n = sint (ucast (case n of None \<Rightarrow> (- 1 :: u64) | Some v \<Rightarrow> v) :: 32 word)"

definition play_show_response ::
  "env \<Rightarrow> nat \<Rightarrow> response \<Rightarrow> string \<Rightarrow> playing \<Rightarrow> ctx \<Rightarrow> playing \<times> ctx" where
  "play_show_response e sid response from s x =
     (let responseSize = cast_size (rs_cast response) in
      if responseSize > MAX_LONG_BUFFER_SIZE div 3 then
        (s, fire_and_forget e (ShowToast ''Request is too big, cannot proceed'' 7) x)
      else
        (let c = rs_cast response; ty = type_to_string c;
             n = success_count_arg (rs_successCount response);
             command = (if responseSize \<le> MAX_BUFFER_SIZE div 3 then ShowResponse c ty n from
                        else ShowLongResponse c ty n from)
         in (case await_command e command (F_PlayShowResponse sid) x of
               (True, x') \<Rightarrow> (s, x')
             | (False, x') \<Rightarrow> play_show_response_result e sid R_INTEROP_FAILURE s x')))"

subsection \<open>Events\<close>

text \<open>\<open>Matches\<close> and \<open>GenerateResponse\<close> of the anonymous namespace.\<close>

definition matches :: "response \<Rightarrow> request option \<Rightarrow> bool" where
  "matches response request =
     (case request of
        None \<Rightarrow> False
      | Some rq \<Rightarrow>
          if cast_index (rs_cast response) \<noteq> cast_index (rq_cast rq) then False
          else if cast_size (rs_cast response) \<noteq> cast_size (rq_cast rq) then False
          else (rs_successCount response \<noteq> None) = (rq_threshold rq \<noteq> None))"

definition generate_response :: "env \<Rightarrow> request \<Rightarrow> ctx \<Rightarrow> response \<times> ctx" where
  "generate_response e request x =
     (let c = e_generate e (cx_gen x) (rq_cast request);
          x1 = x\<lparr>cx_gen := Suc (cx_gen x)\<rparr>;
          successCount = map_option (\<lambda>t. of_nat (get_success_count c t)) (rq_threshold request)
      in (\<lparr>rs_cast = c, rs_successCount = successCount\<rparr>, x1))"

definition play_on_bluetooth_off :: "env \<Rightarrow> nat \<Rightarrow> playing \<Rightarrow> ctx \<Rightarrow> playing \<times> ctx" where
  "play_on_bluetooth_off e sid s x =
     (let x1 = fire_and_forget e ResetConnections x;
          x2 = fire_and_forget e ResetGame x1
      in (s, switch_to (T_Idle False) x2))"

definition play_on_device_connected :: "device \<Rightarrow> playing \<Rightarrow> playing" where
  "play_on_device_connected remote s =
     (case map_of (pl_managers s) (dv_mac remote) of
        None \<Rightarrow> s
      | Some p \<Rightarrow> pl_set_manager (dv_mac remote) (pm_on_reception_success True p) s)"

text \<open>
  The generator's answer to a request: to every manager, and to the local user.
\<close>

definition play_answer :: "env \<Rightarrow> nat \<Rightarrow> request \<Rightarrow> playing \<Rightarrow> ctx \<Rightarrow> playing \<times> ctx" where
  "play_answer e sid request s x =
     (let (response, x1) = generate_response e request x;
          encoded = e_ser_response e response;
          x2 = fold (play_send_response e sid encoded) (pl_managers s) x1
      in play_show_response e sid response ''You'' s x2)"

text \<open>
  \<open>OnMessageReceived\<close>: \<open>sender_received\<close> is the manager's \<open>OnReceptionSuccess\<close>; exceptions are
  logged and swallowed, a hello has no branch, \<open>None\<close> when decoding is undefined behaviour.
\<close>

definition sender_received :: "string \<Rightarrow> peer_manager \<Rightarrow> playing \<Rightarrow> playing" where
  "sender_received mac p s =
     pl_set_manager mac (pm_on_reception_success (pl_pendingRequest s = None) p) s"

definition play_on_message_received ::
  "env \<Rightarrow> nat \<Rightarrow> device \<Rightarrow> string \<Rightarrow> playing \<Rightarrow> ctx \<Rightarrow> (playing \<times> ctx) option" where
  "play_on_message_received e sid sender message s x =
     (case map_of (pl_managers s) (dv_mac sender) of
        None \<Rightarrow> Some (s, x)
      | Some p \<Rightarrow>
          (case e_deserialize e message of
             Undef \<Rightarrow> None
           | Throw _ \<Rightarrow> Some (s, x)
           | Ok (MHello _) \<Rightarrow> Some (s, x)
           | Ok (MOffer _) \<Rightarrow>
               (let s1 = sender_received (dv_mac sender) p s in
                if \<not> pl_ignoreOffers s1
                then Some (play_start_negotiation_with_offer e sender message s1 x)
                else Some (s1, x))
           | Ok (MResponse response) \<Rightarrow>
               if \<not> pm_isGenerator p then Some (s, x)
               else
                 (let s1 = (if matches response (pl_pendingRequest s)
                            then s\<lparr>pl_pendingRequest := None\<rparr> else s);
                      s2 = sender_received (dv_mac sender) p s1
                  in Some (play_show_response e sid response (dv_name (pm_remote p)) s2 x))
           | Ok (MRequest request) \<Rightarrow>
               (let s1 = sender_received (dv_mac sender) p s;
                    (s2, x2) = play_show_request e sid request (dv_name (pm_remote p)) s1 x
                in if pl_localGenerator s2 then Some (play_answer e sid request s2 x2)
                   else Some (s2, x2))))"

definition play_on_cast_request ::
  "env \<Rightarrow> nat \<Rightarrow> request \<Rightarrow> playing \<Rightarrow> ctx \<Rightarrow> playing \<times> ctx" where
  "play_on_cast_request e sid localRequest s x =
     (let (s1, x1) = play_show_request e sid localRequest ''You'' s x;
          encodedRequest = e_ser_request e localRequest;
          (s2, x2) = fold (play_send_request e sid encodedRequest) (pl_managers s1) (s1, x1)
      in if pl_localGenerator s2 then play_answer e sid localRequest s2 x2
         else (s2\<lparr>pl_pendingRequest := Some localRequest\<rparr>, x2))"

definition play_on_socket_read_failure ::
  "env \<Rightarrow> nat \<Rightarrow> device \<Rightarrow> playing \<Rightarrow> ctx \<Rightarrow> playing \<times> ctx" where
  "play_on_socket_read_failure e sid transmitter s x =
     (case map_of (pl_managers s) (dv_mac transmitter) of
        None \<Rightarrow> (s, x)
      | Some p \<Rightarrow>
          (let p1 = p\<lparr>pm_connected := False\<rparr>;
               s1 = pl_set_manager (dv_mac transmitter) p1 s
           in (s1, if pm_isGenerator p1 then play_start_negotiation s1 x else x)))"

subsection \<open>Constructor and destructor\<close>

definition play_construct ::
  "env \<Rightarrow> nat \<Rightarrow> devices \<Rightarrow> string \<Rightarrow> string \<Rightarrow> ctx \<Rightarrow> playing \<times> ctx" where
  "play_construct e sid peers localMac generatorMac x =
     (let localGenerator = (localMac = generatorMac);
          x1 = wait_for IGNORE_OFFERS_DURATION (F_PlayIgnore sid) x;
          managers =
            fold (\<lambda>peer ms. if dv_mac peer \<in> fst ` set ms then ms
                            else ms @ [(dv_mac peer,
                                        pm_construct peer
                                          (\<not> localGenerator \<and> dv_mac peer = generatorMac))])
              peers []
      in (\<lparr>pl_localMac = localMac, pl_localGenerator = localGenerator, pl_ignoreOffers = True,
           pl_pendingRequest = None, pl_managers = managers, pl_responseCount = 0\<rparr>, x1))"

definition play_destroy :: "env \<Rightarrow> playing \<Rightarrow> ctx \<Rightarrow> ctx" where
  "play_destroy e s x = play_destroy_managers e s x"

subsection \<open>Dispatch\<close>

text \<open>
  The virtual functions of this state (one it does not override does nothing, fsm/statebase.hpp),
  and what a coroutine of this object does when it is resumed with a response (a timeout passes
  one too, which is not read).
\<close>

fun call_playing ::
  "env \<Rightarrow> nat \<Rightarrow> state_call \<Rightarrow> playing \<Rightarrow> ctx \<Rightarrow> (playing \<times> ctx) option" where
  "call_playing e sid OnBluetoothOff s x = Some (play_on_bluetooth_off e sid s x)"
| "call_playing e sid (OnDeviceConnected d) s x = Some (play_on_device_connected d s, x)"
| "call_playing e sid (OnMessageReceived d m) s x = play_on_message_received e sid d m s x"
| "call_playing e sid (OnCastRequest r) s x = Some (play_on_cast_request e sid r s x)"
| "call_playing e sid OnGameStopped s x = Some (play_on_game_stopped e sid s x)"
| "call_playing e sid (OnSocketReadFailure d) s x = Some (play_on_socket_read_failure e sid d s x)"
| "call_playing e sid _ s x = Some (s, x)"

text \<open>The tasks of a \<open>RemotePeerManager\<close> are cancelled when the manager is gone.\<close>

fun resume_playing ::
  "env \<Rightarrow> nat \<Rightarrow> frame \<Rightarrow> rcode \<Rightarrow> playing \<Rightarrow> ctx \<Rightarrow> (playing \<times> ctx) option" where
  "resume_playing e sid (F_PlayIgnore _) r s x = Some (s\<lparr>pl_ignoreOffers := False\<rparr>, x)"
| "resume_playing e sid (F_PlaySend _ mac message n k) r s x =
     (case map_of (pl_managers s) mac of
        None \<Rightarrow> Some (s, x)
      | Some p \<Rightarrow> Some (play_send_result e sid mac message n k r p s x))"
| "resume_playing e sid (F_PlayAttempt _ mac request n) r s x =
     (case map_of (pl_managers s) mac of
        None \<Rightarrow> Some (s, x)
      | Some p \<Rightarrow> Some (play_attempt_timeout e sid mac request n p s x))"
| "resume_playing e sid (F_PlayShowRequest _) r s x = Some (play_show_request_result e sid r s x)"
| "resume_playing e sid (F_PlayShowResponse _) r s x = Some (play_show_response_result e sid r s x)"
| "resume_playing e sid _ r s x = Some (s, x)"

subsection \<open>Invariant\<close>

fun caller_ok :: "send_caller \<Rightarrow> bool" where
  "caller_ok SendRoot = True"
| "caller_ok (SendAttempt _ attempt) = (0 < attempt \<and> attempt \<le> REQUEST_ATTEMPTS)"

text \<open>
  The coroutines of a playing object, with the bounds of their counters; only messages that fit a
  command are being sent.
\<close>

fun play_frame :: "nat \<Rightarrow> frame \<Rightarrow> bool" where
  "play_frame sid (F_PlayIgnore own) = (own = sid)"
| "play_frame sid (F_PlaySend own _ message n k) =
     (own = sid \<and> 0 < n \<and> n \<le> RETRY_COUNT \<and> length message \<le> MAX_LONG_BUFFER_SIZE \<and> caller_ok k)"
| "play_frame sid (F_PlayAttempt own _ _ n) = (own = sid \<and> 0 < n \<and> n \<le> REQUEST_ATTEMPTS)"
| "play_frame sid (F_PlayShowRequest own) = (own = sid)"
| "play_frame sid (F_PlayShowResponse own) = (own = sid)"
| "play_frame sid (F_Switch t) =
     (case t of T_Idle _ \<Rightarrow> True | T_Negotiating peers _ \<Rightarrow> dv_wf peers
      | T_NegotiatingWith peers _ _ _ \<Rightarrow> dv_wf peers | _ \<Rightarrow> False)"
| "play_frame sid _ = False"

fun play_ignore_task :: "nat \<Rightarrow> frame \<Rightarrow> bool" where
  "play_ignore_task sid (F_PlayIgnore own) = (own = sid)"
| "play_ignore_task sid _ = False"

abbreviation play_task :: "nat \<Rightarrow> frame \<Rightarrow> bool" where
  "play_task sid f \<equiv> play_frame sid f \<and> \<not> play_ignore_task sid f"

text \<open>The addresses of the managers that think their peer is the generator.\<close>

definition generators :: "playing \<Rightarrow> string list" where
  "generators s = map fst (filter (pm_isGenerator \<circ> snd) (pl_managers s))"

definition manager_ok :: "string \<Rightarrow> peer_manager \<Rightarrow> bool" where
  "manager_ok mac p \<longleftrightarrow>
     dv_mac (pm_remote p) = mac \<and> (\<forall>m \<in> set (pm_queuedMessages p). length m \<le> MAX_LONG_BUFFER_SIZE)"

definition play_wf :: "playing \<Rightarrow> bool" where
  "play_wf s \<longleftrightarrow>
     al_wf (pl_managers s) \<and> (\<forall>(mac, p) \<in> set (pl_managers s). manager_ok mac p) \<and>
     length (generators s) \<le> (if pl_localGenerator s then 0 else 1)"

definition play_inv :: "nat \<Rightarrow> playing \<Rightarrow> frame multiset \<Rightarrow> bool" where
  "play_inv sid s W \<longleftrightarrow>
     play_wf s \<and> (\<forall>f \<in># W. frame_owner f = Some sid \<longrightarrow> play_frame sid f) \<and>
     tasks (play_ignore_task sid) W = (if pl_ignoreOffers s then 1 else 0)"

lemma play_ignore_task_owner: "play_ignore_task sid f \<Longrightarrow> frame_owner f = Some sid"
  by (cases f) auto

interpretation play: state_object play_frame play_inv
proof
  show "play_inv sid s (add_mset f W) = play_inv sid s W" if "frame_owner f \<noteq> Some sid" for f sid s W
    using that play_ignore_task_owner[of sid f] by (auto simp: play_inv_def)
  show "play_frame sid f" if "play_inv sid s W" "f \<in># W" "frame_owner f = Some sid" for f sid s W
    using that by (auto simp: play_inv_def)
  show "frame_owner f = Some sid \<or> switch_ok f" if "play_frame sid f" for sid f
    using that by (cases f) (auto split: target.splits)
qed

text \<open>
  All operations but the constructor and the end of the ignored offers only suspend coroutines
  of the other kinds, so it is enough to look at the object.
\<close>

definition play_good :: "env \<Rightarrow> nat \<Rightarrow> playing \<Rightarrow> ctx \<Rightarrow> playing \<times> ctx \<Rightarrow> bool" where
  "play_good e sid s x r \<longleftrightarrow>
     play_wf (fst r) \<and> pl_ignoreOffers (fst r) = pl_ignoreOffers s \<and>
     adds e (play_task sid) x (snd r)"

lemma play_good_ok: 
  assumes "play_inv sid s W" "play_good e sid s x r"
  shows "play.ok e sid W x r"
proof -
  have "play.ok e sid W x (fst r, snd r)"
    by (rule play.ok_adds[of e "play_task sid"]) (use assms in \<open>auto simp: play_good_def play_inv_def\<close>)
  then show ?thesis by simp
qed

lemma play_goodI:
  "play_wf s' \<Longrightarrow> pl_ignoreOffers s' = pl_ignoreOffers s \<Longrightarrow> adds e (play_task sid) x y \<Longrightarrow>
   play_good e sid s x (s', y)"
  by (simp add: play_good_def)

subsection \<open>The managers\<close>

lemma generators_assign:
  assumes "map_of (pl_managers s) mac = Some p" "pm_isGenerator p' = pm_isGenerator p"
  shows "generators (pl_set_manager mac p' s) = generators s"
proof -
  have "map_of ms mac = Some p \<Longrightarrow>
    map fst (filter (pm_isGenerator \<circ> snd) (al_assign mac p' ms)) =
    map fst (filter (pm_isGenerator \<circ> snd) ms)" for ms
    by (induction ms) (auto simp: assms(2) split: if_splits)
  with assms(1) show ?thesis by (simp add: generators_def pl_set_manager_def)
qed

lemma set_al_assign: "set (al_assign k v ps) \<subseteq> insert (k, v) (set ps)"
  by (induction ps) auto

lemma play_wf_manager: 
  "play_wf s \<Longrightarrow> map_of (pl_managers s) mac = Some p \<Longrightarrow> manager_ok mac p"
  by (auto simp: play_wf_def dest: map_of_SomeD)

lemma play_wf_set_manager:
  assumes "play_wf s" "map_of (pl_managers s) mac = Some p" 
    "pm_isGenerator p' = pm_isGenerator p" "manager_ok mac p'"
  shows "play_wf (pl_set_manager mac p' s)"
  using assms generators_assign[OF assms(2,3)] set_al_assign[of mac p' "pl_managers s"]
  by (auto simp: play_wf_def pl_set_manager_def al.invar_assign)

lemma set_manager_sel [simp]:
  "pl_ignoreOffers (pl_set_manager mac p s) = pl_ignoreOffers s"
  "pl_localGenerator (pl_set_manager mac p s) = pl_localGenerator s"
  "pl_pendingRequest (pl_set_manager mac p s) = pl_pendingRequest s"
  "pl_localMac (pl_set_manager mac p s) = pl_localMac s"
  "map_of (pl_managers (pl_set_manager mac p s)) = (map_of (pl_managers s))(mac \<mapsto> p)"
  by (simp_all add: pl_set_manager_def map_of_al_assign)

lemma play_wf_updates [simp]:
  "play_wf (s\<lparr>pl_pendingRequest := r\<rparr>) = play_wf s"
  "play_wf (s\<lparr>pl_responseCount := n\<rparr>) = play_wf s"
  "play_wf (s\<lparr>pl_ignoreOffers := b\<rparr>) = play_wf s"
  "play_wf (s\<lparr>pl_managers := []\<rparr>)"
  by (simp_all add: play_wf_def generators_def al_wf_def)

lemma connected_peers_wf: "dv_wf (connected_peers s)"
proof -
  have "dv_wf ps \<Longrightarrow>
    dv_wf (fold (\<lambda>(_, p) ps. if pm_connected p then dv_insert (pm_remote p) ps else ps) ms ps)"
    for ps and ms :: "(string \<times> peer_manager) list"
    by (induction ms arbitrary: ps) (auto simp: dv_wf_insert)
  then show ?thesis by (simp add: connected_peers_def dv_wf_def)
qed

subsection \<open>Every operation keeps the invariant\<close>

lemma play_start_negotiation_adds:
  "adds e (play_task sid) x y \<Longrightarrow> adds e (play_task sid) x (play_start_negotiation s y)"
  by (auto simp: play_start_negotiation_def connected_peers_wf intro!: adds_after)

lemma play_destroy_quiet: "quiet e x (play_destroy_managers e s x)"
proof -
  have "quiet e x y \<Longrightarrow> quiet e x (fold (\<lambda>(_, p). pm_destroy e p) ms y)" for y and ms :: "(string \<times> peer_manager) list"
    by (rule quiet_fold) (auto simp: pm_destroy_def intro: quiet_fire)
  then show ?thesis unfolding play_destroy_managers_def using quiet_refl by blast
qed

lemma adds_quiet: "quiet e x y \<Longrightarrow> adds e P x y"
  unfolding quiet_def by (rule adds_grows) auto

lemma play_sent_adds:
  "adds e (play_task sid) x y \<Longrightarrow> caller_ok k \<Longrightarrow> adds e (play_task sid) x (play_sent sid mac k y)"
  by (cases k) (auto simp: play_sent_def intro!: adds_after)

lemma play_send_loop_adds:
  "adds e (play_task sid) x y \<Longrightarrow> caller_ok k \<Longrightarrow> length message \<le> MAX_LONG_BUFFER_SIZE \<Longrightarrow>
   n \<le> RETRY_COUNT \<Longrightarrow> adds e (play_task sid) x (play_send_loop e sid mac message n k y)"
proof (induction n arbitrary: y)
  case 0
  then show ?case by (simp add: play_sent_adds)
next
  case (Suc n)
  obtain c where c: "c = (if length message \<le> MAX_BUFFER_SIZE then SendMessage message mac
                          else SendLongMessage message mac)" by blast
  have "adds e (play_task sid) y (snd (await_command e c (F_PlaySend sid mac message (Suc n) k) y))"
    using Suc.prems by (intro adds_await) auto
  then show ?case using Suc adds_trans[OF Suc.prems(1)] unfolding c
    by (auto split: prod.split bool.split)
qed

lemma play_send_adds:
  "adds e (play_task sid) x y \<Longrightarrow> caller_ok k \<Longrightarrow>
   adds e (play_task sid) x (play_send e sid mac message k y)"
  by (auto simp: play_send_def intro!: play_sent_adds play_send_loop_adds adds_after)

lemma play_attempt_adds:
  "adds e (play_task sid) x y \<Longrightarrow> 0 < n \<Longrightarrow> n \<le> REQUEST_ATTEMPTS \<Longrightarrow>
   adds e (play_task sid) x (play_attempt e sid mac request n y)"
  by (simp add: play_attempt_def play_send_adds)

lemma play_attempt_timeout_good:
  "play_wf s \<Longrightarrow> n \<le> REQUEST_ATTEMPTS \<Longrightarrow> play_good e sid s x (play_attempt_timeout e sid mac request n p s x)"
  by (auto simp: play_attempt_timeout_def
      intro!: play_goodI play_attempt_adds play_start_negotiation_adds adds_refl)

lemma play_send_result_good:
  assumes "play_wf s" "map_of (pl_managers s) mac = Some p" "caller_ok k"
    "length message \<le> MAX_LONG_BUFFER_SIZE" "n \<le> RETRY_COUNT"
  shows "play_good e sid s x (play_send_result e sid mac message n k rc p s x)"
proof -
  have ok: "manager_ok mac p" using play_wf_manager assms by blast
  then have last: "length (last (pm_queuedMessages p)) \<le> MAX_LONG_BUFFER_SIZE"
    if "pm_queuedMessages p \<noteq> []" using that by (simp add: manager_ok_def)
  have "\<forall>m \<in> set (butlast (pm_queuedMessages p)). length m \<le> MAX_LONG_BUFFER_SIZE"
    using ok by (meson in_set_butlastD manager_ok_def)
  then have conn: "play_wf (pl_set_manager mac (p\<lparr>pm_connected := True\<rparr>) s)"
    "play_wf (pl_set_manager mac (p\<lparr>pm_connected := True, pm_queuedMessages := butlast (pm_queuedMessages p)\<rparr>) s)"
    "play_wf (pl_set_manager mac (p\<lparr>pm_connected := False, pm_queuedMessages := pm_queuedMessages p @ [message]\<rparr>) s)"
    using ok assms by (auto intro!: play_wf_set_manager simp: manager_ok_def)
  show ?thesis using assms conn last unfolding play_send_result_def Let_def
    by (auto intro!: play_goodI play_send_loop_adds play_sent_adds play_start_negotiation_adds adds_refl)
qed

lemma play_on_game_stopped_good:
  "play_wf s' \<Longrightarrow> pl_ignoreOffers s' = pl_ignoreOffers s \<Longrightarrow> adds e (play_task sid) x y \<Longrightarrow>
   play_good e sid s x (play_on_game_stopped e sid s' y)"
  by (auto simp: play_on_game_stopped_def Let_def intro!: play_goodI adds_after)

lemma play_show_request_result_good:
  "play_wf s' \<Longrightarrow> pl_ignoreOffers s' = pl_ignoreOffers s \<Longrightarrow> adds e (play_task sid) x y \<Longrightarrow>
   play_good e sid s x (play_show_request_result e sid rc s' y)"
  by (simp add: play_show_request_result_def play_on_game_stopped_good play_goodI)

lemma play_show_request_good:
  "play_wf s' \<Longrightarrow> pl_ignoreOffers s' = pl_ignoreOffers s \<Longrightarrow> adds e (play_task sid) x y \<Longrightarrow>
   play_good e sid s x (play_show_request e sid request from s' y)"
  unfolding play_show_request_def
  by (rule adds_await_cases[where P = "play_task sid"])
     (auto intro: play_goodI play_show_request_result_good)

lemma play_show_response_result_good:
  "play_wf s' \<Longrightarrow> pl_ignoreOffers s' = pl_ignoreOffers s \<Longrightarrow> adds e (play_task sid) x y \<Longrightarrow>
   play_good e sid s x (play_show_response_result e sid rc s' y)"
  unfolding play_show_response_result_def Let_def
  by (auto intro: play_on_game_stopped_good play_goodI play_start_negotiation_adds)

lemma play_show_response_good:
  assumes "play_wf s'" "pl_ignoreOffers s' = pl_ignoreOffers s" "adds e (play_task sid) x y"
  shows "play_good e sid s x (play_show_response e sid response from s' y)"
proof -
  have "play_good e sid s x
    (case await_command e c (F_PlayShowResponse sid) y of
       (True, x') \<Rightarrow> (s', x') | (False, x') \<Rightarrow> play_show_response_result e sid R_INTEROP_FAILURE s' x')" for c
    by (rule adds_await_cases[where P = "play_task sid"])
       (use assms in \<open>auto intro: play_goodI play_show_response_result_good\<close>)
  then show ?thesis using assms unfolding play_show_response_def Let_def
    by (auto intro!: play_goodI adds_after)
qed

lemma play_answer_good:
  assumes "play_wf s'" "pl_ignoreOffers s' = pl_ignoreOffers s" "adds e (play_task sid) x y"
  shows "play_good e sid s x (play_answer e sid request s' y)"
proof -
  obtain resp x1 where g: "generate_response e request y = (resp, x1)" by fastforce
  then have "adds e (play_task sid) x x1"
    using adds_after(4)[OF assms(3)] by (auto simp: generate_response_def Let_def)
  moreover have "adds e (play_task sid) x1 (fold (play_send_response e sid m) ms x1)" for m ms
    by (rule adds_fold) (simp add: play_send_response_def play_send_adds adds_refl)
  ultimately show ?thesis using assms g
    by (auto simp: play_answer_def intro!: play_show_response_good elim: adds_trans)
qed

lemma play_answer_after:
  "play_good e sid s x (s', y) \<Longrightarrow> play_good e sid s x (play_answer e sid request s' y)"
  by (rule play_answer_good) (simp_all add: play_good_def)

lemma sender_received_wf:
  "play_wf s \<Longrightarrow> map_of (pl_managers s) mac = Some p \<Longrightarrow> play_wf (sender_received mac p s)"
  using play_wf_manager[of s mac p] unfolding sender_received_def
  by (auto intro!: play_wf_set_manager simp: manager_ok_def pm_on_reception_success_def Let_def)

lemma sender_received_sel [simp]: "pl_ignoreOffers (sender_received mac p s) = pl_ignoreOffers s"
  "pl_localGenerator (sender_received mac p s) = pl_localGenerator s"
  by (simp_all add: sender_received_def)

lemma play_with_offer_good:
  assumes "play_wf s'" "pl_ignoreOffers s' = pl_ignoreOffers s"
  shows "play_good e sid s x (play_start_negotiation_with_offer e sender m s' x)"
  using assms unfolding play_start_negotiation_with_offer_def Let_def
  by (auto intro!: play_goodI adds_after adds_quiet[OF play_destroy_quiet]
      simp: connected_peers_wf)

lemma play_on_message_received_good:
  assumes wf: "play_wf s" and r: "play_on_message_received e sid d m s x = Some r"
  shows "play_good e sid s x r"
proof (cases "map_of (pl_managers s) (dv_mac d)")
  case None
  with r wf show ?thesis by (auto simp: play_on_message_received_def intro: play_goodI adds_refl)
next
  case (Some p)
  note w = sender_received_wf[of _ "dv_mac d" p] wf Some
  have req: "play_good e sid s x r"
    if "(case play_show_request e sid q (dv_name (pm_remote p)) (sender_received (dv_mac d) p s) x of
          (s2, x2) \<Rightarrow> if pl_localGenerator s2 then Some (play_answer e sid q s2 x2)
                       else Some (s2, x2)) = Some r" for q
  proof -
    obtain s2 x2 where sx: "play_show_request e sid q (dv_name (pm_remote p))
        (sender_received (dv_mac d) p s) x = (s2, x2)" by fastforce
    have "play_good e sid s x (s2, x2)"
      unfolding sx[symmetric] using w by (intro play_show_request_good) (auto intro: adds_refl)
    then show ?thesis using sx that by (auto intro: play_answer_after split: if_splits)
  qed
  show ?thesis using r w req
    by (auto simp: play_on_message_received_def Let_def split: outcome.splits message.splits if_splits
        intro!: play_with_offer_good play_show_response_good intro: adds_refl play_goodI)
qed

text \<open>The loop over the managers updates each of them once.\<close>

lemma play_send_request_good:
  assumes "play_wf s'" "map_of (pl_managers s') mac = Some p"
    "pl_ignoreOffers s' = pl_ignoreOffers s" "adds e (play_task sid) x y"
  shows "play_good e sid s x (play_send_request e sid request (mac, p) (s', y))"
proof -
  have "play_wf (pl_set_manager mac (p\<lparr>pm_pendingRequest := True\<rparr>) s')"
    using assms play_wf_manager[of s' mac p] by (auto intro!: play_wf_set_manager simp: manager_ok_def)
  then show ?thesis using assms
    by (auto simp: play_send_request_def Let_def intro!: play_goodI play_attempt_adds play_send_adds)
qed

lemma play_send_request_managers:
  "map_of (pl_managers (fst (play_send_request e sid request mp sx))) =
   (map_of (pl_managers (fst sx)))(fst mp \<mapsto> (snd mp)\<lparr>pm_pendingRequest := True\<rparr>)"
  by (auto simp: play_send_request_def Let_def split: prod.split)

lemma play_send_requests_good:
  "play_good e sid s x sx \<Longrightarrow> al_wf ms \<Longrightarrow>
   (\<forall>(mac, p) \<in> set ms. map_of (pl_managers (fst sx)) mac = Some p) \<Longrightarrow>
   play_good e sid s x (fold (play_send_request e sid request) ms sx)"
proof (induction ms arbitrary: sx)
  case (Cons mp ms)
  obtain mac p where mp: "mp = (mac, p)" by fastforce
  obtain s' y where sx: "sx = (s', y)" by fastforce
  have "play_good e sid s x (play_send_request e sid request mp sx)"
    using Cons.prems unfolding mp sx by (intro play_send_request_good) (auto simp: play_good_def)
  moreover have "\<forall>(m, q) \<in> set ms. 
      map_of (pl_managers (fst (play_send_request e sid request mp sx))) m = Some q"
  proof safe
    fix m q assume mq: "(m, q) \<in> set ms"
    then have "m \<noteq> mac" using Cons.prems(2) by (force simp: al_wf_def mp)
    then show "map_of (pl_managers (fst (play_send_request e sid request mp sx))) m = Some q"
      using Cons.prems(3) mq by (auto simp: play_send_request_managers mp)
  qed
  ultimately show ?case using Cons by (auto simp: al_wf_def)
qed simp

lemma play_on_cast_request_good:
  assumes wf: "play_wf s"
  shows "play_good e sid s x (play_on_cast_request e sid q s x)"
proof -
  obtain s1 x1 where sx1: "play_show_request e sid q ''You'' s x = (s1, x1)" by fastforce
  have 1: "play_good e sid s x (s1, x1)"
    unfolding sx1[symmetric] using wf by (intro play_show_request_good) (auto intro: adds_refl)
  then have wf1: "al_wf (pl_managers s1)" by (auto simp: play_good_def play_wf_def)
  obtain s2 x2 where sx2: "fold (play_send_request e sid (e_ser_request e q)) (pl_managers s1) (s1, x1) = (s2, x2)"
    by fastforce
  have "play_good e sid s x (s2, x2)"
    unfolding sx2[symmetric] using 1 wf1
    by (intro play_send_requests_good) (auto simp: al_wf_def)
  then show ?thesis using sx1 sx2
    by (auto simp: play_on_cast_request_def intro: play_answer_after) (simp add: play_good_def)
qed

lemma play_on_device_connected_good:
  "play_wf s \<Longrightarrow> play_good e sid s x (play_on_device_connected d s, x)"
  using play_wf_manager[of s "dv_mac d"] unfolding play_on_device_connected_def
  by (auto intro!: play_goodI play_wf_set_manager adds_refl split: option.split
      simp: manager_ok_def pm_on_reception_success_def Let_def)

lemma play_on_socket_read_failure_good:
  assumes "play_wf s"
  shows "play_good e sid s x (play_on_socket_read_failure e sid d s x)"
proof (cases "map_of (pl_managers s) (dv_mac d)")
  case None
  then show ?thesis using assms by (auto simp: play_on_socket_read_failure_def intro: play_goodI adds_refl)
next
  case (Some p)
  have "play_wf (pl_set_manager (dv_mac d) (p\<lparr>pm_connected := False\<rparr>) s)"
    using assms play_wf_manager[OF assms Some] by (auto intro!: play_wf_set_manager[OF _ Some] simp: manager_ok_def)
  then show ?thesis using Some unfolding play_on_socket_read_failure_def
    by (auto simp: Let_def intro!: play_goodI play_start_negotiation_adds adds_refl)
qed

lemma play_call_ok:
  assumes inv: "play_inv sid s W" and "call_playing e sid c s x = Some r"
  shows "play.ok e sid W x r"
proof (rule play_good_ok[OF inv])
  have wf: "play_wf s" using inv by (simp add: play_inv_def)
  show "play_good e sid s x r" using wf assms(2)
    by (cases c)
       (auto simp: play_on_bluetooth_off_def Let_def
         intro!: play_on_game_stopped_good play_on_device_connected_good play_on_cast_request_good
           play_on_socket_read_failure_good play_goodI adds_after adds_refl
         intro: play_on_message_received_good)
qed

lemma play_resume_ok:
  assumes inv: "play_inv sid s W" and f: "f \<in># W" "frame_owner f = Some sid"
    and res: "resume_playing e sid f code s x = Some r"
  shows "play.ok e sid (W - {#f#}) x r"
proof -
  obtain V where W: "W = add_mset f V" using f(1) by (metis multi_member_split)
  have fr: "play_frame sid f" using play.inv_frames[OF inv f] .
  have wf: "play_wf s" using inv by (simp add: play_inv_def)
  show ?thesis
  proof (cases "play_ignore_task sid f")
    case True
    then have "play_inv sid (s\<lparr>pl_ignoreOffers := False\<rparr>) V"
      using inv W by (auto simp: play_inv_def split: if_splits)
    then show ?thesis using True res W by (cases f) (auto intro: play.ok_here)
  next
    case False
    then have V: "play_inv sid s V" using inv W by (auto simp: play_inv_def)
    have "play_good e sid s x r" using False fr res wf f(2)
      by (cases f)
         (auto split: option.splits intro!: play_send_result_good play_attempt_timeout_good
           play_show_request_result_good play_show_response_result_good adds_refl
           intro: play_goodI)
    then show ?thesis using V W by (auto intro: play_good_ok)
  qed
qed

interpretation play: fsm_state_object play_frame play_inv call_playing resume_playing
  using play_call_ok play_resume_ok by unfold_locales blast+

lemma play_construct_managers:
  assumes "play_construct e sid peers localMac gen x = (s, y)"
  shows "al_wf (pl_managers s)"
    and "\<forall>(mac, p) \<in> set (pl_managers s). manager_ok mac p \<and>
           (pm_isGenerator p \<longrightarrow> \<not> pl_localGenerator s \<and> mac = gen)"
proof -
  define f where "f = (\<lambda>peer ms. if dv_mac peer \<in> fst ` set ms then ms
     else ms @ [(dv_mac peer, pm_construct peer (localMac \<noteq> gen \<and> dv_mac peer = gen))])"
  define P where "P ms \<longleftrightarrow> al_wf ms \<and> (\<forall>(mac, p) \<in> set ms. manager_ok mac p \<and>
     (pm_isGenerator p \<longrightarrow> localMac \<noteq> gen \<and> mac = gen))" for ms
  have "P ms \<Longrightarrow> P (f peer ms)" for peer ms
    by (auto simp: P_def f_def al_wf_def manager_ok_def pm_construct_def)
  then have "P ms \<Longrightarrow> P (fold f peers ms)" for ms
    by (induction peers arbitrary: ms) auto
  from this[of "[]"] have "P (fold f peers [])" by (simp add: P_def al_wf_def)
  moreover have "pl_managers s = fold f peers []" "pl_localGenerator s \<longleftrightarrow> localMac = gen"
    using assms by (auto simp: play_construct_def f_def Let_def)
  ultimately show "al_wf (pl_managers s)"
    and "\<forall>(mac, p) \<in> set (pl_managers s). manager_ok mac p \<and>
           (pm_isGenerator p \<longrightarrow> \<not> pl_localGenerator s \<and> mac = gen)"
    by (auto simp: P_def)
qed

lemma play_construct_wf:
  assumes "play_construct e sid peers localMac gen x = (s, y)"
  shows "play_wf s"
proof -
  note m = play_construct_managers[OF assms]
  have "distinct (generators s)" using m(1) by (simp add: generators_def al_wf_def distinct_map_filter)
  moreover have "set (generators s) \<subseteq> (if pl_localGenerator s then {} else {gen})"
    using m(2) by (force simp: generators_def)
  ultimately have "length (generators s) \<le> (if pl_localGenerator s then 0 else 1)"
    by (auto simp: distinct_card[symmetric] dest: card_mono[rotated] split: if_splits)
  with m show ?thesis by (auto simp: play_wf_def)
qed

lemma play_construct_ok:
  assumes "\<forall>f \<in># W. frame_owner f \<noteq> Some sid"
  shows "play.ok e sid W x (play_construct e sid peers localMac gen x)"
proof -
  obtain s y where sy: "play_construct e sid peers localMac gen x = (s, y)" by fastforce
  have "tasks (play_ignore_task sid) W = 0"
    using assms play_ignore_task_owner by (intro tasks_none) blast
  moreover have "pl_ignoreOffers s" "y = wait_for IGNORE_OFFERS_DURATION (F_PlayIgnore sid) x"
    using sy by (auto simp: play_construct_def Let_def)
  ultimately show ?thesis unfolding sy using assms play_construct_wf[OF sy]
    by (auto simp: play_inv_def intro!: play.ok_wait quiet_refl)
qed

subsection \<open>Properties\<close>

text \<open>
  What the generator answers always matches the request, so the peer that asked accepts it: the
  same die, as many values, a success count exactly when there was a threshold; with the uniform
  engine every value is one the die can show.
\<close>

theorem generated_response_matches:
  assumes "e_generate e = (\<lambda>n. generate_result (raw n))"
    and "generate_response e request x = (response, x')"
  shows "matches response (Some request) \<and>
         set (cast_vals (rs_cast response)) \<subseteq> {cast_min (rq_cast request)..cast_max (rq_cast request)} \<and>
         sorted (cast_vals (rs_cast response)) \<and>
         (case rq_threshold request of
            None \<Rightarrow> rs_successCount response = None
          | Some t \<Rightarrow> rs_successCount response =
              Some (of_nat (length (filter (\<lambda>v. t \<le> v) (cast_vals (rs_cast response))))))"
proof -
  have c: "rs_cast response = generate_result (raw (cx_gen x)) (rq_cast request)"
    and n: "rs_successCount response =
      map_option (\<lambda>t. of_nat (get_success_count (rs_cast response) t)) (rq_threshold request)"
    using assms by (auto simp: generate_response_def Let_def)
  have "sorted (cast_vals (rs_cast response))" by (simp add: c generate_result_def)
  then show ?thesis
    using generate_result_range[of "raw (cx_gen x)" "rq_cast request"] n
    by (auto simp: matches_def c uniform.gen_index uniform.gen_size get_success_count_def
        success_counter_filter split: option.split)
qed

definition uniform_env :: "(nat \<Rightarrow> nat \<Rightarrow> u32) \<Rightarrow> env" where
  "uniform_env raw = \<lparr>e_accept = (\<lambda>_. True), e_ser_hello = hl_mac, e_ser_offer = of_mac,
     e_ser_request = (\<lambda>_. ''request''), e_ser_response = (\<lambda>_. ''response''),
     e_deserialize = (\<lambda>_. Throw XmlException), e_generate = (\<lambda>n. generate_result (raw n))\<rparr>"

theorem generated_response_matches_witness:
  "matches (fst (generate_response (uniform_env (\<lambda>n i. of_nat (7 * i + n)))
     \<lparr>rq_cast = D6 [0, 0, 0], rq_threshold = Some 3\<rparr> ctx_init))
     (Some \<lparr>rq_cast = D6 [0, 0, 0], rq_threshold = Some 3\<rparr>)"
  using generated_response_matches[of "uniform_env (\<lambda>n i. of_nat (7 * i + n))",
      OF _ prod.collapse[symmetric]] by (simp add: uniform_env_def)

lemma play_show_response_pending:
  "pl_pendingRequest (fst (play_show_response e sid r from s x)) = pl_pendingRequest s"
  by (auto simp: play_show_response_def play_show_response_result_def play_on_game_stopped_def Let_def
      split: prod.split bool.split)

lemma play_show_request_pending:
  "pl_pendingRequest (fst (play_show_request e sid r from s x)) = pl_pendingRequest s"
  by (auto simp: play_show_request_def play_show_request_result_def play_on_game_stopped_def Let_def
      split: prod.split bool.split)

lemma play_answer_pending:
  "pl_pendingRequest (fst (play_answer e sid r s x)) = pl_pendingRequest s"
  by (simp add: play_answer_def play_show_response_pending Let_def split: prod.split)

lemma sender_received_pending [simp]:
  "pl_pendingRequest (sender_received mac p s) = pl_pendingRequest s"
  by (simp add: sender_received_def)

text \<open>
  C34. A request of the local user stays pending until the generator answers it: a message only
  settles it when it decodes to a response that matches it and comes from the peer that is the
  generator; nothing else a peer sends touches it.
\<close>

theorem pending_request_settled:
  assumes "play_on_message_received e sid sender m s x = Some (s', x')"
    and "pl_pendingRequest s' \<noteq> pl_pendingRequest s"
  shows "pl_pendingRequest s' = None \<and>
         (\<exists>p response. map_of (pl_managers s) (dv_mac sender) = Some p \<and> pm_isGenerator p \<and>
            e_deserialize e m = Ok (MResponse response) \<and> matches response (pl_pendingRequest s))"
proof -
  obtain p where p: "map_of (pl_managers s) (dv_mac sender) = Some p"
    using assms by (auto simp: play_on_message_received_def split: option.splits)
  let ?s = "sender_received (dv_mac sender) p s"
  have req: "pl_pendingRequest s' = pl_pendingRequest s" if "e_deserialize e m = Ok (MRequest q)" for q
  proof -
    obtain s2 x2 where "play_show_request e sid q (dv_name (pm_remote p)) ?s x = (s2, x2)" by fastforce
    moreover from this have "pl_pendingRequest s2 = pl_pendingRequest s"
      using play_show_request_pending[of e sid q "dv_name (pm_remote p)" ?s x] by simp
    ultimately show ?thesis using assms(1) p that play_answer_pending[of e sid q s2 x2]
      by (auto simp: play_on_message_received_def Let_def split: if_splits)
  qed
  obtain response where r: "e_deserialize e m = Ok (MResponse response)"
    using assms p req
    by (auto simp: play_on_message_received_def play_start_negotiation_with_offer_def Let_def
        split: outcome.splits message.splits if_splits)
  then have gen: "pm_isGenerator p"
    using assms p by (auto simp: play_on_message_received_def split: if_splits)
  show ?thesis
  proof (cases "matches response (pl_pendingRequest s)")
    case True
    then have "(s', x') = play_show_response e sid response (dv_name (pm_remote p))
        (sender_received (dv_mac sender) p (s\<lparr>pl_pendingRequest := None\<rparr>)) x"
      using assms(1) p r gen by (simp add: play_on_message_received_def Let_def)
    then have "pl_pendingRequest s' = None"
      using play_show_response_pending sender_received_pending
      by (metis fst_conv playing.select_convs(4) playing.surjective playing.update_convs(4))
    then show ?thesis using p r gen True by blast
  next
    case False
    then have "(s', x') = play_show_response e sid response (dv_name (pm_remote p))
        (sender_received (dv_mac sender) p s) x"
      using assms(1) p r gen by (simp add: play_on_message_received_def Let_def)
    then have "pl_pendingRequest s' = pl_pendingRequest s"
      using play_show_response_pending sender_received_pending by (metis fst_conv)
    then show ?thesis using assms(2) by simp
  qed
qed

definition answer_env :: "response \<Rightarrow> env" where
  "answer_env r = uniform_env (\<lambda>_ _. 0)\<lparr>e_deserialize := \<lambda>_. Ok (MResponse r)\<rparr>"

definition waiting_player :: playing where
  "waiting_player =
     \<lparr>pl_localMac = ''b'', pl_localGenerator = False, pl_ignoreOffers = False,
      pl_pendingRequest = Some \<lparr>rq_cast = D6 [0], rq_threshold = None\<rparr>,
      pl_managers = [(''a'', pm_construct (dv_of_mac ''a'') True)], pl_responseCount = 0\<rparr>"

theorem pending_request_settled_witness:
  "\<exists>sx. play_on_message_received (answer_env \<lparr>rs_cast = D6 [4], rs_successCount = None\<rparr>) 0
          (dv_of_mac ''a'') ''x'' waiting_player ctx_init = Some sx \<and> pl_pendingRequest (fst sx) = None"
proof -
  let ?e = "answer_env \<lparr>rs_cast = D6 [4], rs_successCount = None\<rparr>"
  obtain s2 where s2: "pl_pendingRequest s2 = None"
    "play_on_message_received ?e 0 (dv_of_mac ''a'') ''x'' waiting_player ctx_init =
       Some (play_show_response ?e 0 \<lparr>rs_cast = D6 [4], rs_successCount = None\<rparr> [] s2 ctx_init)"
    using that[of "sender_received ''a'' (pm_construct (dv_of_mac ''a'') True) (waiting_player\<lparr>pl_pendingRequest := None\<rparr>)"]
    by (simp add: play_on_message_received_def waiting_player_def answer_env_def pm_construct_def
        dv_of_mac_def matches_def Let_def)
  obtain s' x' where "play_on_message_received ?e 0 (dv_of_mac ''a'') ''x'' waiting_player ctx_init = Some (s', x')"
    and "pl_pendingRequest s' = None"
    using s2 play_show_response_pending[of ?e 0 _ "[]" s2 ctx_init] by (metis surj_pair fst_conv)
  with pending_request_settled[OF this(1)] show ?thesis by (simp add: waiting_player_def)
qed

definition responses_shown :: "env \<Rightarrow> nat \<Rightarrow> nat \<Rightarrow> playing \<times> ctx \<Rightarrow> playing \<times> ctx" where
  "responses_shown e sid n = (case_prod (play_show_response_result e sid R_OK)) ^^ n"

lemma responses_shown_count:
  "n < 10 \<Longrightarrow> pl_responseCount s = 0 \<Longrightarrow>
   responses_shown e sid n (s, x) = (s\<lparr>pl_responseCount := of_nat n\<rparr>, x)"
proof (induction n)
  case 0
  then show ?case by (simp add: responses_shown_def)
next
  case (Suc n)
  then have "n \<in> {0, 1, 2, 3, 4, 5, 6, 7, 8}" by auto
  then have "\<not> (10 :: u32) \<le> of_nat n + 1" by (auto simp: word_le_nat_alt)
  then show ?case using Suc
    by (simp add: responses_shown_def play_show_response_result_def Let_def add.commute)
qed

text \<open>
  The generator changes after ten rounds: nine responses that were shown leave the state
  playing, the tenth queues the switch to a negotiation among exactly the peers that are connected.
\<close>

theorem tenth_response_renegotiates:
  assumes "pl_responseCount s = 0"
  shows "responses_shown e sid 9 (s, x) = (s\<lparr>pl_responseCount := 9\<rparr>, x) \<and>
         responses_shown e sid 10 (s, x) =
           (s\<lparr>pl_responseCount := 10\<rparr>, switch_to (T_Negotiating (connected_peers s) (pl_localMac s)) x)"
  using responses_shown_count[of 9 s e sid x] assms
  by (simp add: responses_shown_def play_show_response_result_def play_start_negotiation_def
      connected_peers_def numeral_eq_Suc)

theorem tenth_response_renegotiates_witness:
  "pl_responseCount (fst (responses_shown (uniform_env (\<lambda>_ _. 0)) 0 10
     (fst (play_construct (uniform_env (\<lambda>_ _. 0)) 0 [dv_of_mac ''a''] ''b'' ''a'' ctx_init), ctx_init))) = 10"
  using tenth_response_renegotiates[of
      "fst (play_construct (uniform_env (\<lambda>_ _. 0)) 0 [dv_of_mac ''a''] ''b'' ''a'' ctx_init)"
      "uniform_env (\<lambda>_ _. 0)" 0 ctx_init]
  by (simp add: play_construct_def Let_def)

end
