(* ===== verification/Controller.thy ===== *)
theory Controller
  imports Events Fsm_Idle Fsm_Connecting Fsm_Negotiating Fsm_Playing
begin

text \<open>
  The controller (ctrl/controller.cpp) around the state machine: the holder of the current
  state, the switch between states (fsm/context.hpp), the dispatch of events, the resumption of
  coroutines by responses and by the main worker.
\<close>

subsection \<open>The current state\<close>

text \<open>\<open>m_state\<close>; each state object carries its serial number.\<close>

datatype fsm_state =
    S_None
  | S_Idle nat idle
  | S_Connecting nat connecting
  | S_Negotiating nat negotiating
  | S_Playing nat playing

fun state_id :: "fsm_state \<Rightarrow> nat option" where
  "state_id S_None = None"
| "state_id (S_Idle sid _) = Some sid"
| "state_id (S_Connecting sid _) = Some sid"
| "state_id (S_Negotiating sid _) = Some sid"
| "state_id (S_Playing sid _) = Some sid"

text \<open>
  \<open>ct_started\<close>: \<open>m_cmdManager\<close> is not null.  \<open>ct_next\<close> is the serial number of the next state
  object.
\<close>

record controller =
  ct_started :: bool
  ct_state :: fsm_state
  ct_next :: nat
  ct_ctx :: ctx

definition controller_init :: controller where
  "controller_init =
     \<lparr>ct_started = False, ct_state = S_None, ct_next = 0, ct_ctx = ctx_init\<rparr>"

subsection \<open>SwitchToState\<close>

fun destroy_state :: "env \<Rightarrow> fsm_state \<Rightarrow> ctx \<Rightarrow> ctx" where
  "destroy_state e (S_Connecting sid s) x = conn_destroy e s x"
| "destroy_state e (S_Playing sid s) x = play_destroy e s x"
| "destroy_state e _ x = x"

fun same_type :: "fsm_state \<Rightarrow> target \<Rightarrow> bool" where
  "same_type (S_Idle _ _) (T_Idle _) = True"
| "same_type (S_Connecting _ _) T_Connecting = True"
| "same_type (S_Negotiating _ _) (T_Negotiating _ _) = True"
| "same_type (S_Negotiating _ _) (T_NegotiatingWith _ _ _ _) = True"
| "same_type (S_Playing _ _) (T_Playing _ _ _) = True"
| "same_type _ _ = False"

fun construct_state :: "env \<Rightarrow> nat \<Rightarrow> target \<Rightarrow> ctx \<Rightarrow> (fsm_state \<times> ctx) option" where
  "construct_state e sid T_None x = Some (S_None, x)"
| "construct_state e sid (T_Idle newGame) x = Some (apfst (S_Idle sid) (idle_construct e sid newGame x))"
| "construct_state e sid T_Connecting x = Some (apfst (S_Connecting sid) (conn_construct e sid x))"
| "construct_state e sid (T_Negotiating peers mac) x =
     Some (apfst (S_Negotiating sid) (neg_construct e sid peers mac x))"
| "construct_state e sid (T_NegotiatingWith peers mac sender offer) x =
     map_option (apfst (S_Negotiating sid)) (neg_construct_with e sid peers mac sender offer x)"
| "construct_state e sid (T_Playing peers mac gen) x =
     Some (apfst (S_Playing sid) (play_construct e sid peers mac gen x))"

text \<open>
  \<open>SwitchToState\<close> after its suspension: nothing when the current state already has the type,
  otherwise the old state is destroyed before the new one is constructed.
\<close>

definition run_switch :: "env \<Rightarrow> target \<Rightarrow> controller \<Rightarrow> controller option" where
  "run_switch e t ct =
     (if same_type (ct_state ct) t then Some ct
      else
        (let x1 = destroy_state e (ct_state ct) (ct_ctx ct)
         in map_option
              (\<lambda>(st, x2). ct\<lparr>ct_state := st, ct_next := Suc (ct_next ct), ct_ctx := x2\<rparr>)
              (construct_state e (ct_next ct) t x1)))"

subsection \<open>Calls of the virtual functions\<close>

fun call_state :: "env \<Rightarrow> state_call \<Rightarrow> fsm_state \<Rightarrow> ctx \<Rightarrow> (fsm_state \<times> ctx) option" where
  "call_state e c S_None x = Some (S_None, x)"
| "call_state e c (S_Idle sid s) x = map_option (apfst (S_Idle sid)) (call_idle e sid c s x)"
| "call_state e c (S_Connecting sid s) x =
     map_option (apfst (S_Connecting sid)) (call_connecting e sid c s x)"
| "call_state e c (S_Negotiating sid s) x =
     map_option (apfst (S_Negotiating sid)) (call_negotiating e sid c s x)"
| "call_state e c (S_Playing sid s) x =
     map_option (apfst (S_Playing sid)) (call_playing e sid c s x)"

definition with_state :: "controller \<Rightarrow> (fsm_state \<times> ctx) option \<Rightarrow> controller option" where
  "with_state ct r = map_option (\<lambda>(st, x). ct\<lparr>ct_state := st, ct_ctx := x\<rparr>) r"

text \<open>
  \<open>Controller::OnEvent\<close>: an unknown event, a missing state and unusable arguments are logged.
\<close>

definition on_event :: "env \<Rightarrow> int \<Rightarrow> string list \<Rightarrow> controller \<Rightarrow> controller option" where
  "on_event e eventId args ct =
     (case event_handler eventId of
        None \<Rightarrow> Some ct
      | Some handler \<Rightarrow>
          if ct_state ct = S_None then Some ct
          else
            (case handler args of
               None \<Rightarrow> Some ct
             | Some c \<Rightarrow> with_state ct (call_state e c (ct_state ct) (ct_ctx ct))))"

subsection \<open>Resuming coroutines\<close>

fun resume_state :: "env \<Rightarrow> frame \<Rightarrow> rcode \<Rightarrow> fsm_state \<Rightarrow> ctx \<Rightarrow> (fsm_state \<times> ctx) option" where
  "resume_state e f r S_None x = Some (S_None, x)"
| "resume_state e f r (S_Idle sid s) x = map_option (apfst (S_Idle sid)) (resume_idle e sid f r s x)"
| "resume_state e f r (S_Connecting sid s) x =
     map_option (apfst (S_Connecting sid)) (resume_connecting e sid f r s x)"
| "resume_state e f r (S_Negotiating sid s) x =
     map_option (apfst (S_Negotiating sid)) (resume_negotiating e sid f r s x)"
| "resume_state e f r (S_Playing sid s) x =
     map_option (apfst (S_Playing sid)) (resume_playing e sid f r s x)"

text \<open>
  A coroutine of an object that has been destroyed finds itself cancelled and ends; the detached
  \<open>SwitchToState\<close> always runs.
\<close>

definition resume :: "env \<Rightarrow> frame \<Rightarrow> rcode \<Rightarrow> controller \<Rightarrow> controller option" where
  "resume e f r ct =
     (case f of
        F_Switch t \<Rightarrow> run_switch e t ct
      | _ \<Rightarrow>
          if frame_owner f = state_id (ct_state ct)
          then with_state ct (resume_state e f r (ct_state ct) (ct_ctx ct))
          else Some ct)"

text \<open>\<open>Controller::OnCommandResponse\<close> and \<open>Manager::SubmitResponse\<close>.\<close>

abbreviation upd_mgr :: "(frame manager \<Rightarrow> frame manager) \<Rightarrow> controller \<Rightarrow> controller" where
  "upd_mgr f ct \<equiv> ct\<lparr>ct_ctx := (ct_ctx ct)\<lparr>cx_mgr := f (cx_mgr (ct_ctx ct))\<rparr>\<rparr>"

definition on_command_response :: "env \<Rightarrow> int \<Rightarrow> rcode \<Rightarrow> controller \<Rightarrow> controller option" where
  "on_command_response e cmdId response ct =
     (if \<not> ct_started ct then Some ct
      else
        (case submit_store cmdId response (cx_mgr (ct_ctx ct)) of
           None \<Rightarrow> Some ct
         | Some (callback, m) \<Rightarrow>
             map_option (upd_mgr (submit_erase cmdId))
               (let ct1 = upd_mgr (\<lambda>_. m) ct in
                case callback of
                  None \<Rightarrow> Some ct1
                | Some f \<Rightarrow> resume e f (await_resume cmdId m) ct1)))"

text \<open>\<open>Controller::Start\<close>\<close>

definition start :: "controller \<Rightarrow> controller" where
  "start ct =
     (if ct_started ct then ct
      else ct\<lparr>ct_started := True, ct_ctx := switch_to (T_Idle False) (ct_ctx ct)\<rparr>)"

text \<open>The main worker runs the first timer that is due.\<close>

definition run_timer :: "env \<Rightarrow> controller \<Rightarrow> controller option" where
  "run_timer e ct =
     (case cx_timers (ct_ctx ct) of
        [] \<Rightarrow> Some ct
      | (t, f) # rest \<Rightarrow>
          if t > cx_now (ct_ctx ct) then Some ct
          else resume e f R_OK (ct\<lparr>ct_ctx := (ct_ctx ct)\<lparr>cx_timers := rest\<rparr>\<rparr>))"

subsection \<open>Runs\<close>

text \<open>
  What reaches the main worker, in the order in which it gets there: the bridge's calls, due
  timers, and the time that passes between them.
\<close>

datatype input =
    In_Start
  | In_Event int "string list"
  | In_Response int rcode
  | In_Timer
  | In_Elapse nat

fun step :: "env \<Rightarrow> input \<Rightarrow> controller \<Rightarrow> controller option" where
  "step e In_Start ct = Some (start ct)"
| "step e (In_Event i args) ct = on_event e i args ct"
| "step e (In_Response i r) ct = on_command_response e i r ct"
| "step e In_Timer ct = run_timer e ct"
| "step e (In_Elapse d) ct = Some (ct\<lparr>ct_ctx := (ct_ctx ct)\<lparr>cx_now := cx_now (ct_ctx ct) + d\<rparr>\<rparr>)"

fun run :: "env \<Rightarrow> input list \<Rightarrow> controller \<Rightarrow> controller option" where
  "run e [] ct = Some ct"
| "run e (i # is) ct = (case step e i ct of None \<Rightarrow> None | Some ct' \<Rightarrow> run e is ct')"

subsection \<open>Invariant of the whole system\<close>

text \<open>The current state object and the coroutines \<open>W\<close> that wait.\<close>

fun state_inv :: "fsm_state \<Rightarrow> frame multiset \<Rightarrow> bool" where
  "state_inv S_None W = True"
| "state_inv (S_Idle sid s) W = idle_inv sid s W"
| "state_inv (S_Connecting sid s) W = conn_inv sid s W"
| "state_inv (S_Negotiating sid s) W = neg_inv sid s W"
| "state_inv (S_Playing sid s) W = play_inv sid s W"

text \<open>The coroutines the current state object may suspend.\<close>

fun state_frame :: "fsm_state \<Rightarrow> frame \<Rightarrow> bool" where
  "state_frame S_None f = False"
| "state_frame (S_Idle sid _) f = idle_frame sid f"
| "state_frame (S_Connecting sid _) f = conn_frame sid f"
| "state_frame (S_Negotiating sid _) f = neg_frame sid f"
| "state_frame (S_Playing sid _) f = play_frame sid f"

definition ctl_waits :: "controller \<Rightarrow> frame multiset \<Rightarrow> bool" where
  "ctl_waits ct W \<longleftrightarrow>
     state_inv (ct_state ct) W \<and> frames_ok (ct_next ct) W \<and>
     (\<forall>sid. state_id (ct_state ct) = Some sid \<longrightarrow> sid < ct_next ct)"

definition ctl_inv :: "controller \<Rightarrow> bool" where
  "ctl_inv ct \<longleftrightarrow> ctx_inv (ct_ctx ct) \<and> ctl_waits ct (waiting (ct_ctx ct))"

text \<open>
  \<open>ctl_ok e W ct ct'\<close>: a reaction that starts while the coroutines \<open>W\<close> wait ends in the invariant,
  and only adds to the pending commands and timers what the state object it ends with may add.
\<close>

definition ctl_ok :: "env \<Rightarrow> frame multiset \<Rightarrow> controller \<Rightarrow> controller \<Rightarrow> bool" where
  "ctl_ok e W ct ct' \<longleftrightarrow>
     (\<exists>N. grows e N (ct_ctx ct) (ct_ctx ct') \<and> ctl_waits ct' (W + N) \<and>
          (\<forall>f \<in># N. state_frame (ct_state ct') f)) \<and>
     ct_started ct' = ct_started ct"

lemma ctl_ok_refl: "ctl_waits ct W \<Longrightarrow> ctl_ok e W ct ct"
  unfolding ctl_ok_def by (intro conjI exI[of _ "{#}"]) (simp_all add: grows_refl)

lemma state_id_Some:
  "state_id st = Some sid \<Longrightarrow>
   (\<exists>s. st = S_Idle sid s) \<or> (\<exists>s. st = S_Connecting sid s) \<or> (\<exists>s. st = S_Negotiating sid s) \<or>
   (\<exists>s. st = S_Playing sid s)"
  by (cases st) auto

text \<open>Calls and resumptions, in every state.\<close>

lemma call_state_ok:
  assumes "state_inv st W" "frames_ok next W" "\<forall>sid. state_id st = Some sid \<longrightarrow> sid < next"
    and "call_state e c st x = Some (st', x')"
  shows "\<exists>N. grows e N x x' \<and> state_inv st' (W + N) \<and> frames_ok next (W + N) \<and>
             state_id st' = state_id st \<and> (\<forall>f \<in># N. state_frame st' f)"
proof (cases st)
  case S_None
  with assms show ?thesis by (intro exI[of _ "{#}"]) (auto simp: grows_refl)
next
  case (S_Idle sid s)
  with assms show ?thesis using idle.call_frames[of sid s W e c x] by (fastforce simp: apfst_def map_prod_def)
next
  case (S_Connecting sid s)
  with assms show ?thesis using conn.call_frames[of sid s W e c x] by (fastforce simp: apfst_def map_prod_def)
next
  case (S_Negotiating sid s)
  with assms show ?thesis using neg.call_frames[of sid s W e c x] by (fastforce simp: apfst_def map_prod_def)
next
  case (S_Playing sid s)
  with assms show ?thesis using play.call_frames[of sid s W e c x] by (fastforce simp: apfst_def map_prod_def)
qed

lemma resume_state_ok:
  assumes "state_inv st W" "frames_ok next W" "\<forall>sid. state_id st = Some sid \<longrightarrow> sid < next"
    and "f \<in># W" "frame_owner f = state_id st" "frame_owner f \<noteq> None"
    and "resume_state e f rc st x = Some (st', x')"
  shows "\<exists>N. grows e N x x' \<and> state_inv st' (W - {#f#} + N) \<and> frames_ok next (W - {#f#} + N) \<and>
             state_id st' = state_id st \<and> (\<forall>f \<in># N. state_frame st' f)"
proof (cases st)
  case S_None
  with assms show ?thesis by auto
next
  case (S_Idle sid s)
  with assms show ?thesis using idle.resume_frames[of sid s W f e rc x] by (fastforce simp: apfst_def map_prod_def)
next
  case (S_Connecting sid s)
  with assms show ?thesis using conn.resume_frames[of sid s W f e rc x] by (fastforce simp: apfst_def map_prod_def)
next
  case (S_Negotiating sid s)
  with assms show ?thesis using neg.resume_frames[of sid s W f e rc x] by (fastforce simp: apfst_def map_prod_def)
next
  case (S_Playing sid s)
  with assms show ?thesis using play.resume_frames[of sid s W f e rc x] by (fastforce simp: apfst_def map_prod_def)
qed

text \<open>A new state object starts with no coroutine of its own.\<close>

lemma destroy_state_quiet: "quiet e x (destroy_state e st x)"
  by (cases st) (auto simp: play_destroy_def intro: quiet_refl conn_destroy_quiet play_destroy_quiet)

lemma construct_state_ok:
  assumes new: "frames_ok sid W" and t: "target_ok t"
    and r: "construct_state e sid t x = Some (st, x')"
  shows "\<exists>N. grows e N x x' \<and> state_inv st (W + N) \<and> frames_ok (Suc sid) (W + N) \<and>
             (\<forall>i. state_id st = Some i \<longrightarrow> i = sid) \<and> (\<forall>f \<in># N. state_frame st f)"
proof -
  have own: "\<forall>f \<in># W. frame_owner f \<noteq> Some sid" and new': "frames_ok (Suc sid) W"
    using new by (auto simp: frames_ok_def less_Suc_eq)
  show ?thesis
  proof (cases t)
    case T_None
    with r new' show ?thesis by (intro exI[of _ "{#}"]) (auto simp: grows_refl)
  next
    case (T_Idle b)
    with r show ?thesis using idle.ok_frames[OF idle_construct_ok[OF own] _ new', of e x b]
      by (fastforce simp: apfst_def map_prod_def split: prod.splits)
  next
    case T_Connecting
    with r show ?thesis using conn.ok_frames[OF conn_construct_ok[OF own] _ new', of e x]
      by (fastforce simp: apfst_def map_prod_def split: prod.splits)
  next
    case (T_Negotiating ps m)
    with r t show ?thesis using neg.ok_frames[OF neg_construct_ok[OF own] _ new', of ps e x m]
      by (fastforce simp: apfst_def map_prod_def split: prod.splits)
  next
    case (T_NegotiatingWith ps m d off)
    with r t show ?thesis using neg.ok_frames[OF neg_construct_with_ok[OF own] _ new', of ps e m d off x]
      by (fastforce simp: apfst_def map_prod_def split: prod.splits)
  next
    case (T_Playing ps m g)
    with r show ?thesis using play.ok_frames[OF play_construct_ok[OF own] _ new', of e x ps m g]
      by (fastforce simp: apfst_def map_prod_def split: prod.splits)
  qed
qed

lemma state_inv_foreign: 
  "frame_owner f \<noteq> state_id st \<or> frame_owner f = None \<Longrightarrow> state_inv st (add_mset f W) = state_inv st W"
  by (cases st) (auto simp: idle.inv_foreign conn.inv_foreign neg.inv_foreign play.inv_foreign)

lemma frames_ok_remove: "frames_ok next (add_mset f W) \<Longrightarrow> frames_ok next W"
  by (simp add: frames_ok_def)

lemma run_switch_ok:
  assumes W: "ctl_waits ct W" and t: "target_ok t" and r: "run_switch e t ct = Some ct'"
  shows "ctl_ok e W ct ct'"
proof (cases "same_type (ct_state ct) t")
  case True
  with r W show ?thesis by (auto simp: run_switch_def intro: ctl_ok_refl)
next
  case False
  let ?x1 = "destroy_state e (ct_state ct) (ct_ctx ct)"
  obtain st x' where c: "construct_state e (ct_next ct) t ?x1 = Some (st, x')"
    and ct': "ct' = ct\<lparr>ct_state := st, ct_next := Suc (ct_next ct), ct_ctx := x'\<rparr>"
    using r False by (auto simp: run_switch_def Let_def)
  obtain N where "grows e N ?x1 x'" "state_inv st (W + N)" "frames_ok (Suc (ct_next ct)) (W + N)"
    "\<forall>i. state_id st = Some i \<longrightarrow> i = ct_next ct" "\<forall>f \<in># N. state_frame st f"
    using construct_state_ok[OF _ t c] W unfolding ctl_waits_def by blast
  moreover have "grows e {#} (ct_ctx ct) ?x1" using destroy_state_quiet by (simp add: quiet_def)
  ultimately show ?thesis using grows_trans[of e "{#}" "ct_ctx ct" ?x1 N x']
    by (auto simp: ctl_ok_def ctl_waits_def ct' intro!: exI[of _ N])
qed

text \<open>A coroutine is resumed: it no longer waits, whatever it is.\<close>

lemma resume_ok:
  assumes W: "ctl_waits ct (add_mset f V)" and r: "resume e f rc ct = Some ct'"
  shows "ctl_ok e V ct ct'"
proof (cases "\<exists>t. f = F_Switch t")
  case True
  then obtain t where t: "f = F_Switch t" ..
  have "ctl_waits ct V" "target_ok t"
    using W t state_inv_foreign[of f "ct_state ct" V] by (auto simp: ctl_waits_def frames_ok_def)
  then show ?thesis using r t by (auto simp: resume_def intro: run_switch_ok)
next
  case False
  then have own: "frame_owner f \<noteq> None" 
    and res: "resume e f rc ct = (if frame_owner f = state_id (ct_state ct)
      then with_state ct (resume_state e f rc (ct_state ct) (ct_ctx ct)) else Some ct)"
    by (cases f; simp add: resume_def)+
  show ?thesis
  proof (cases "frame_owner f = state_id (ct_state ct)")
    case True
    then obtain st x' where "resume_state e f rc (ct_state ct) (ct_ctx ct) = Some (st, x')"
      and ct': "ct' = ct\<lparr>ct_state := st, ct_ctx := x'\<rparr>"
      using r res by (auto simp: with_state_def)
    with resume_state_ok[of "ct_state ct" "add_mset f V" "ct_next ct" f] W True own show ?thesis
      by (fastforce simp: ctl_waits_def ctl_ok_def)
  next
    case False
    then have "ctl_waits ct V" using W state_inv_foreign[of f "ct_state ct" V] frames_ok_remove
      by (auto simp: ctl_waits_def)
    then show ?thesis using r res False by (auto intro: ctl_ok_refl)
  qed
qed

lemma ctl_ok_switches:
  "ctl_ok e W ct ct' \<Longrightarrow> ctx_inv (ct_ctx ct) \<Longrightarrow>
   \<exists>new. switches (ct_ctx ct') = switches (ct_ctx ct) @ new \<and>
         (\<forall>t \<in> set new. state_frame (ct_state ct') (F_Switch t))"
  by (fastforce simp: ctl_ok_def grows_def)

lemma ctl_inv_ok: 
  assumes "ctl_ok e W ct ct'" "ctx_inv (ct_ctx ct)" "waiting (ct_ctx ct) = W"
  shows "ctl_inv ct'"
  using assms by (auto simp: ctl_ok_def ctl_inv_def grows_def)

subsection \<open>Every input keeps it\<close>

abbreviation callbacks :: "(int \<times> frame cmd_data) list \<Rightarrow> frame multiset" where
  "callbacks ps \<equiv> mset (List.map_filter (cd_callback \<circ> snd) ps)"

lemma callbacks_assign:
  "map_of ps i = Some d \<Longrightarrow> cd_callback d' = cd_callback d \<Longrightarrow>
   callbacks (al_assign i d' ps) = callbacks ps"
  by (induction ps) (auto simp: map_filter_simps split: if_splits option.splits)

lemma callbacks_erase:
  "al_wf ps \<Longrightarrow> map_of ps i = Some d \<Longrightarrow>
   callbacks ps = (case cd_callback d of None \<Rightarrow> {#} | Some f \<Rightarrow> {#f#}) + callbacks (al_erase i ps)"
proof (induction ps)
  case (Cons p ps)
  show ?case
  proof (cases "fst p = i")
    case True
    then have "al_erase i (p # ps) = ps" using Cons.prems(1)
      by (simp add: al_wf_def al_erase_def) (metis (mono_tags) al_erase_def al_erase_notin filter_True image_iff)
    then show ?thesis using Cons.prems True
      by (cases p) (auto simp: map_filter_simps split: option.splits)
  next
    case False
    then show ?thesis using Cons
      by (auto simp: map_filter_simps al_wf_def al_erase_def split: option.splits)
  qed
qed simp

lemma ctl_inv_mono:
  "ctl_waits ct' W \<Longrightarrow> ctx_inv (ct_ctx ct') \<Longrightarrow> waiting (ct_ctx ct') = W \<Longrightarrow> ctl_inv ct'"
  by (simp add: ctl_inv_def)

lemma ctl_waits_ctx [simp]: 
  "ctl_waits (ct\<lparr>ct_ctx := x\<rparr>) W = ctl_waits ct W"
  "ctl_waits (ct\<lparr>ct_started := b\<rparr>) W = ctl_waits ct W"
  by (simp_all add: ctl_waits_def)

lemma on_event_ok:
  assumes inv: "ctl_inv ct" and r: "on_event e i args ct = Some ct'"
  shows "ctl_ok e (waiting (ct_ctx ct)) ct ct'"
proof (cases "ct' = ct")
  case True
  then show ?thesis using inv by (simp add: ctl_ok_refl ctl_inv_def)
next
  case False
  then obtain c where "with_state ct (call_state e c (ct_state ct) (ct_ctx ct)) = Some ct'"
    using r by (auto simp: on_event_def split: option.splits if_splits)
  then obtain st x' where "call_state e c (ct_state ct) (ct_ctx ct) = Some (st, x')"
    and "ct' = ct\<lparr>ct_state := st, ct_ctx := x'\<rparr>"
    by (auto simp: with_state_def)
  then show ?thesis using call_state_ok[of "ct_state ct" _ "ct_next ct" e c "ct_ctx ct" st x'] inv
    by (fastforce simp: ctl_inv_def ctl_waits_def ctl_ok_def)
qed

lemma run_timer_ok:
  assumes inv: "ctl_inv ct" and r: "run_timer e ct = Some ct'"
  shows "ctl_inv ct' \<and> issues (e_accept e) (cx_mgr (ct_ctx ct)) (cx_mgr (ct_ctx ct'))"
proof (cases "ct' = ct")
  case False
  then obtain t f rest where tm: "cx_timers (ct_ctx ct) = (t, f) # rest"
    and res: "resume e f R_OK (ct\<lparr>ct_ctx := (ct_ctx ct)\<lparr>cx_timers := rest\<rparr>\<rparr>) = Some ct'"
    using r by (auto simp: run_timer_def split: list.splits if_splits)
  let ?x = "(ct_ctx ct)\<lparr>cx_timers := rest\<rparr>"
  have w: "waiting (ct_ctx ct) = add_mset f (waiting ?x)" using tm by (simp add: waiting_def)
  have ok: "ctl_ok e (waiting ?x) (ct\<lparr>ct_ctx := ?x\<rparr>) ct'"
    using inv w by (intro resume_ok[OF _ res]) (simp add: ctl_inv_def)
  then have "ctl_inv ct'" using inv tm by (elim ctl_inv_ok) (auto simp: ctl_inv_def ctx_inv_def)
  with ok show ?thesis by (auto simp: ctl_ok_def grows_def)
qed (use inv in \<open>simp add: issues_same\<close>)

text \<open>A response wakes its coroutine, and afterwards exactly this one no longer waits.\<close>

lemma submit_store_waiting:
  assumes "submit_store i r (cx_mgr x) = Some (h, m)"
  shows "waiting (x\<lparr>cx_mgr := m\<rparr>) = waiting x"
    and "\<exists>d. map_of (mg_pending m) i = Some d \<and> cd_callback d = h"
  using assms by (auto simp: submit_store_def waiting_def callbacks_assign map_of_al_assign split: option.splits)

lemma plain_callbacks_assign:
  assumes "plain_callbacks ps" "map_of ps i = Some d" "cd_callback d' = cd_callback d"
  shows "plain_callbacks (al_assign i d' ps)"
proof -
  have "plain_callbacks [(i, d)]" using assms(1) map_of_SomeD[OF assms(2)] by (fastforce simp: plain_callbacks_def)
  with assms(1,3) show ?thesis
    by (induction ps) (auto simp: plain_callbacks_def split: if_splits)
qed

lemma submit_store_plain:
  "plain_callbacks (mg_pending m) \<Longrightarrow> submit_store i r m = Some (h, m') \<Longrightarrow> plain_callbacks (mg_pending m')"
  by (auto simp: submit_store_def intro!: plain_callbacks_assign[of _ i] split: option.splits)

lemma submit_erase_plain: "plain_callbacks (mg_pending m) \<Longrightarrow> plain_callbacks (mg_pending (submit_erase i m))"
  by (auto simp: plain_callbacks_def submit_erase_def al_erase_def)

lemma submit_erase_waiting:
  assumes "ctx_inv x" "map_of (mg_pending (cx_mgr x)) i = Some d"
  shows "waiting x = (case cd_callback d of None \<Rightarrow> {#} | Some f \<Rightarrow> {#f#}) +
                     waiting (x\<lparr>cx_mgr := submit_erase i (cx_mgr x)\<rparr>)"
  using assms callbacks_erase[of "mg_pending (cx_mgr x)" i d]
  by (auto simp: waiting_def submit_erase_def ctx_inv_def manager_inv_def)

lemma submit_erase_ctx_inv: "ctx_inv x \<Longrightarrow> ctx_inv (x\<lparr>cx_mgr := submit_erase i (cx_mgr x)\<rparr>)"
  by (simp add: ctx_inv_def submit_erase_inv submit_erase_plain)

lemma response_step:
  assumes inv: "ctl_inv ct" and r: "on_command_response e i rc ct = Some ct'"
    and "ct_started ct" "map_of (mg_pending (cx_mgr (ct_ctx ct))) i = Some d0"
  obtains V N where
    "waiting (ct_ctx ct) = (case cd_callback d0 of None \<Rightarrow> {#} | Some f \<Rightarrow> {#f#}) + V"
    "waiting (ct_ctx ct') = V + N" "ctl_waits ct' (V + N)" "ctx_inv (ct_ctx ct')"
    "i \<notin> used_ids (mg_pending (cx_mgr (ct_ctx ct')))"
    "\<And>j d'. j \<noteq> i \<Longrightarrow> map_of (mg_pending (cx_mgr (ct_ctx ct))) j = Some d' \<Longrightarrow>
            map_of (mg_pending (cx_mgr (ct_ctx ct'))) j = Some d'"
    "issues (e_accept e) (cx_mgr (ct_ctx ct)) (cx_mgr (ct_ctx ct'))"
    "\<exists>new. switches (ct_ctx ct') = switches (ct_ctx ct) @ new \<and>
       (\<forall>t \<in> set new. state_frame (ct_state ct') (F_Switch t))"
proof -
  let ?x = "ct_ctx ct"
  obtain h m where s: "submit_store i rc (cx_mgr ?x) = Some (h, m)"
    using assms(4) by (simp add: submit_store_def)
  then have h: "h = cd_callback d0" and m: "mg_pending m = al_assign i (d0\<lparr>cd_response := rc\<rparr>) (mg_pending (cx_mgr ?x))"
    using assms(4) by (auto simp: submit_store_def)
  let ?x1 = "?x\<lparr>cx_mgr := m\<rparr>" and ?ct1 = "ct\<lparr>ct_ctx := ?x\<lparr>cx_mgr := m\<rparr>\<rparr>"
  obtain d where d: "map_of (mg_pending m) i = Some d" "cd_callback d = h"
    using submit_store_waiting(2)[OF s] by blast
  have x1: "ctx_inv ?x1" "waiting ?x1 = waiting ?x"
    using inv submit_store_inv[OF s] submit_store_plain[OF _ s] submit_store_waiting(1)[OF s]
    by (auto simp: ctl_inv_def ctx_inv_def)
  obtain ct2 where ct2: "(case h of None \<Rightarrow> Some ?ct1 | Some f \<Rightarrow> resume e f (await_resume i m) ?ct1) = Some ct2"
    and ct': "ct' = upd_mgr (submit_erase i) ct2"
    using r assms(3) s by (auto simp: on_command_response_def Let_def)
  let ?f = "case h of None \<Rightarrow> {#} | Some f \<Rightarrow> {#f#}"
  define V where "V = waiting ?x - ?f"
  have V: "waiting ?x = ?f + V"
    using submit_erase_waiting[OF x1(1), of i d] d x1(2) by (simp add: V_def)
  have ok: "ctl_ok e V ?ct1 ct2"
  proof (cases h)
    case None
    with ct2 inv V show ?thesis by (auto simp: ctl_inv_def intro: ctl_ok_refl)
  next
    case (Some f)
    with ct2 inv V show ?thesis by (intro resume_ok[of ?ct1 f V e "await_resume i m"]) (auto simp: ctl_inv_def)
  qed
  then obtain N where N: "grows e N ?x1 (ct_ctx ct2)" "ctl_waits ct2 (V + N)"
    by (auto simp: ctl_ok_def)
  have x2: "ctx_inv (ct_ctx ct2)" "map_of (mg_pending (cx_mgr (ct_ctx ct2))) i = Some d"
    "waiting (ct_ctx ct2) = ?f + V + N"
    using N(1) x1 d V by (auto simp: grows_def)
  have "waiting (ct_ctx ct') = V + N"
    using submit_erase_waiting[OF x2(1,2)] x2(3) d(2) by (auto simp: ct' split: option.splits)
  moreover have "map_of (mg_pending (cx_mgr (ct_ctx ct'))) j = Some d'"
    if "j \<noteq> i" "map_of (mg_pending (cx_mgr ?x)) j = Some d'" for j d'
    using that N(1) by (simp add: ct' submit_erase_def map_of_al_erase grows_def m map_of_al_assign)
  moreover have "issues (e_accept e) (cx_mgr (ct_ctx ct)) (cx_mgr (ct_ctx ct'))"
    using N(1) s by (auto simp: grows_def issues_def ct' submit_erase_def submit_store_def split: option.splits)
  moreover have "\<exists>new. switches (ct_ctx ct') = switches (ct_ctx ct) @ new \<and>
      (\<forall>t \<in> set new. state_frame (ct_state ct') (F_Switch t))"
    using ctl_ok_switches[OF ok] x1(1) by (simp add: ct')
  ultimately show ?thesis
    using N(2) submit_erase_ctx_inv[OF x2(1)] V h
    by (intro that[of V N]) (simp_all add: ct' submit_erase_def al_erase_keys)
qed

lemma on_command_response_ok:
  assumes inv: "ctl_inv ct" and r: "on_command_response e i rc ct = Some ct'"
  shows "ctl_inv ct' \<and> issues (e_accept e) (cx_mgr (ct_ctx ct)) (cx_mgr (ct_ctx ct'))"
proof (cases "ct_started ct \<and> map_of (mg_pending (cx_mgr (ct_ctx ct))) i \<noteq> None")
  case False
  with r inv show ?thesis
    by (auto simp: on_command_response_def submit_store_def issues_same split: if_splits option.splits)
next
  case True
  then obtain d where "ct_started ct" "map_of (mg_pending (cx_mgr (ct_ctx ct))) i = Some d" by auto
  from response_step[OF inv r this] show ?thesis by (metis ctl_inv_def)
qed

lemma start_inv: "ctl_inv ct \<Longrightarrow> ctl_inv (start ct)"
  using grows_switch_to[of _ "T_Idle False" "ct_ctx ct"] state_inv_foreign[of "F_Switch (T_Idle False)"]
  by (auto simp: start_def ctl_inv_def ctl_waits_def grows_def frames_ok_def)

lemma ctl_inv_init: "ctl_inv controller_init"
  by (simp add: ctl_inv_def controller_init_def ctl_waits_def ctx_init_inv frames_ok_def)

lemma step_ok:
  assumes "ctl_inv ct" "step e i ct = Some ct'"
  shows "ctl_inv ct' \<and> issues (e_accept e) (cx_mgr (ct_ctx ct)) (cx_mgr (ct_ctx ct'))"
proof (cases i)
  case In_Start
  then show ?thesis using assms start_inv[of ct]
    by (auto simp: start_def switch_to_def wait_for_def issues_same)
next
  case (In_Event n args)
  then have ok: "ctl_ok e (waiting (ct_ctx ct)) ct ct'" using assms by (auto intro: on_event_ok)
  then have "ctl_inv ct'" using assms(1) by (elim ctl_inv_ok) (auto simp: ctl_inv_def)
  with ok show ?thesis by (auto simp: ctl_ok_def grows_def)
next
  case (In_Elapse d)
  then show ?thesis using assms by (fastforce simp: ctl_inv_def ctx_inv_def waiting_def issues_same)
next
  case (In_Response n rc)
  then show ?thesis using assms on_command_response_ok[of ct e n rc ct'] by simp
next
  case In_Timer
  then show ?thesis using assms run_timer_ok[of ct e ct'] by simp
qed

lemma run_inv: "run e is ct = Some ct' \<Longrightarrow> ctl_inv ct \<Longrightarrow> ctl_inv ct'"
  by (induction "is" arbitrary: ct) (auto split: option.splits dest: step_ok)

lemmas run_init_inv = run_inv[OF _ ctl_inv_init]

subsection \<open>Serial numbers\<close>

text \<open>A new state object gets a serial number that was never used before.\<close>

definition successor :: "controller \<Rightarrow> controller \<Rightarrow> bool" where
  "successor ct ct' \<longleftrightarrow>
     ct_next ct \<le> ct_next ct' \<and>
     state_id (ct_state ct') \<in> {state_id (ct_state ct), None, Some (ct_next ct)}"

lemma successor_refl: "successor ct ct"
  by (simp add: successor_def)

lemma successor_ctx [simp]:
  "successor (ct\<lparr>ct_ctx := x\<rparr>) ct' = successor ct ct'"
  "successor ct (ct'\<lparr>ct_ctx := x\<rparr>) = successor ct ct'"
  by (simp_all add: successor_def)

lemma construct_state_id:
  "construct_state e sid t x = Some (st, x') \<Longrightarrow> state_id st \<in> {None, Some sid}"
  by (cases t) (auto simp: apfst_def map_prod_def split: prod.splits)

lemma run_switch_successor: "run_switch e t ct = Some ct' \<Longrightarrow> successor ct ct'"
  by (auto simp: run_switch_def Let_def successor_def dest: construct_state_id split: if_splits)

lemma with_state_successor:
  assumes "with_state ct r = Some ct'" "\<And>st x. r = Some (st, x) \<Longrightarrow> state_id st = state_id (ct_state ct)"
  shows "successor ct ct'"
  using assms by (auto simp: with_state_def successor_def)

lemma call_state_id: "call_state e c st x = Some (st', x') \<Longrightarrow> state_id st' = state_id st"
  by (cases st) (auto simp: apfst_def map_prod_def split: prod.splits)

lemma resume_state_id: "resume_state e f r st x = Some (st', x') \<Longrightarrow> state_id st' = state_id st"
  by (cases st) (auto simp: apfst_def map_prod_def split: prod.splits)

lemma resume_successor: "resume e f r ct = Some ct' \<Longrightarrow> successor ct ct'"
  unfolding resume_def
  by (cases f; auto intro: run_switch_successor with_state_successor successor_refl
      dest: resume_state_id split: if_splits)

lemma step_successor:
  assumes "step e i ct = Some ct'"
  shows "successor ct ct'"
proof (cases i)
  case (In_Event n args)
  then show ?thesis using assms
    by (auto simp: on_event_def split: option.splits if_splits
        intro: with_state_successor successor_refl dest: call_state_id)
next
  case (In_Response n r)
  then show ?thesis using assms
    by (fastforce simp: on_command_response_def Let_def split: option.splits if_splits
        intro: successor_refl dest: resume_successor)
next
  case In_Timer
  then show ?thesis using assms
    by (fastforce simp: run_timer_def split: list.splits if_splits
        intro: successor_refl dest: resume_successor)
qed (use assms in \<open>auto simp: start_def successor_def split: if_splits\<close>)

end
