(* ===== verification/Runs.thy ===== *)
theory Runs
  imports Controller
begin

text \<open>
  What holds in every run of the controller (ctrl/controller.cpp) from its construction on,
  whatever the events, responses and timers, and in whichever order they arrive.
\<close>

subsection \<open>A run through the whole state machine\<close>

text \<open>
  Two devices \<open>a\<close> and \<open>b\<close>, seen from \<open>b\<close>: Bluetooth is switched on, a game is requested, \<open>a\<close>
  connects and says hello, both agree on \<open>b\<close>, and the game starts.
\<close>

definition scene_env :: env where
  "scene_env = (uniform_env (\<lambda>_ _. 3))\<lparr>e_deserialize := \<lambda>m.
     if m = ''hello'' then Ok (MHello \<lparr>hl_mac = ''b''\<rparr>)
     else if m = ''offer'' then Ok (MOffer \<lparr>of_mac = ''b'', of_round = 1\<rparr>)
     else Throw XmlException\<rparr>"

definition scene :: "input list" where
  "scene = [In_Start, In_Timer, In_Response 26880 0, In_Event 13 [], In_Timer,
     In_Event 10 [''a'', ''A''], In_Event 14 [''hello'', ''a'', ''A''], In_Event 12 [], In_Timer,
     In_Response 27136 0, In_Event 14 [''offer'', ''a'', ''A''], In_Elapse 1000, In_Timer, In_Timer]"

definition scene_end :: controller where
  "scene_end = the (run scene_env scene controller_init)"

lemma run_append:
  "run e (is @ js) ct = (case run e is ct of None \<Rightarrow> None | Some ct' \<Rightarrow> run e js ct')"
  by (induction "is" arbitrary: ct) (auto split: option.split)

lemma scene_goes_on: "run scene_env (scene @ [In_Response 27649 0]) controller_init \<noteq> None"
  by code_simp

lemma scene_run: "run scene_env scene controller_init = Some scene_end"
  and scene_playing: "state_id (ct_state scene_end) = Some 3"
  and scene_local_generator:
    "case ct_state scene_end of S_Playing sid s \<Rightarrow> pl_localGenerator s | _ \<Rightarrow> False"
  and scene_started: "ct_started scene_end"
  and scene_pending: "\<exists>d. map_of (mg_pending (cx_mgr (ct_ctx scene_end))) 27649 = Some d"
  and scene_waiting: "F_ConnDiscovery 1 2 \<in># waiting (ct_ctx scene_end)"
proof -
  have "(case run scene_env scene controller_init of None \<Rightarrow> False | Some ct \<Rightarrow>
     (case ct_state ct of S_Playing sid s \<Rightarrow> pl_localGenerator s \<and> sid = 3 | _ \<Rightarrow> False) \<and> ct_started ct \<and>
     map_of (mg_pending (cx_mgr (ct_ctx ct))) 27649 \<noteq> None \<and>
     map_option cd_callback (map_of (mg_pending (cx_mgr (ct_ctx ct))) 25856) = Some (Some (F_ConnDiscovery 1 2)))"
    by code_simp
  then obtain ct where ct: "run scene_env scene controller_init = Some ct"
     "case ct_state ct of S_Playing sid s \<Rightarrow> pl_localGenerator s \<and> sid = 3 | _ \<Rightarrow> False" "ct_started ct"
     "map_of (mg_pending (cx_mgr (ct_ctx ct))) 27649 \<noteq> None"
     "map_option cd_callback (map_of (mg_pending (cx_mgr (ct_ctx ct))) 25856) = Some (Some (F_ConnDiscovery 1 2))"
    by (auto split: option.splits)
  then have e: "scene_end = ct" by (simp add: scene_end_def)
  show "run scene_env scene controller_init = Some scene_end" "state_id (ct_state scene_end) = Some 3"
    "case ct_state scene_end of S_Playing sid s \<Rightarrow> pl_localGenerator s | _ \<Rightarrow> False" "ct_started scene_end"
    "\<exists>d. map_of (mg_pending (cx_mgr (ct_ctx scene_end))) 27649 = Some d"
    using ct by (auto simp: e split: fsm_state.splits)
  obtain d where "map_of (mg_pending (cx_mgr (ct_ctx ct))) 25856 = Some d" "cd_callback d = Some (F_ConnDiscovery 1 2)"
    using ct(5) by auto
  then show "F_ConnDiscovery 1 2 \<in># waiting (ct_ctx scene_end)"
    by (force simp: e waiting_def List.map_filter_def dest: map_of_SomeD)
qed

subsection \<open>Properties\<close>

text \<open>
  C6. In every run the identifiers of the pending commands are distinct and lie in the windows of
  commands, so the invalid identifier is never pending and no response can reach two coroutines;
  the timers are in the order of their due times; and every waiting coroutine belongs to a state
  object that has been constructed before, or is a switch that is still to happen.
\<close>

theorem reachable_bookkeeping:
  assumes "run e is controller_init = Some ct"
  shows "distinct (map fst (mg_pending (cx_mgr (ct_ctx ct)))) \<and>
         (\<forall>i \<in> used_ids (mg_pending (cx_mgr (ct_ctx ct))). i \<noteq> INVALID_CMD_ID \<and> (\<exists>c. in_window c i)) \<and>
         sorted (map fst (cx_timers (ct_ctx ct))) \<and>
         (\<forall>f \<in># waiting (ct_ctx ct).
            case frame_owner f of Some sid \<Rightarrow> sid < ct_next ct | None \<Rightarrow> \<exists>t. f = F_Switch t)"
proof -
  have inv: "ctx_inv (ct_ctx ct)" "frames_ok (ct_next ct) (waiting (ct_ctx ct))"
    using run_init_inv[OF assms] by (auto simp: ctl_inv_def ctl_waits_def)
  have "\<exists>t. f = F_Switch t" if "frame_owner f = None" for f
    using that by (cases f) auto
  with inv show ?thesis
    using in_window_not_invalid
    by (fastforce simp: ctx_inv_def manager_inv_def al_wf_def frames_ok_def split: option.split)
qed

theorem reachable_bookkeeping_witness:
  "distinct (map fst (mg_pending (cx_mgr (ct_ctx scene_end)))) \<and> ct_started scene_end"
  using reachable_bookkeeping[OF scene_run] scene_started by simp

text \<open>
  C5. In every run no task of a state is started twice.  An idle object whose handle holds a
  coroutine has exactly this one waiting, and Bluetooth is off; a connecting object has at most one
  coroutine of discovery and one of listening, none once the outcome is known, and one that
  attempts to start the negotiation exactly while the handle holds it; a negotiating object has at
  most one coroutine that runs rounds; a playing object ignores offers exactly while its timer
  runs, and at most one of its peers is the generator, none when the local device is.
\<close>

theorem reachable_tasks:
  assumes "run e is controller_init = Some ct"
  shows "case ct_state ct of
      S_None \<Rightarrow> True
    | S_Idle sid s \<Rightarrow>
        (case id_enableBt s of None \<Rightarrow> True
         | Some tid \<Rightarrow> \<not> id_bluetoothOn s \<and> tasks (idle_task sid tid) (waiting (ct_ctx ct)) = 1)
    | S_Connecting sid s \<Rightarrow>
        tasks (conn_discovery_task sid) (waiting (ct_ctx ct)) \<le> (if cn_discovering s = None then 1 else 0) \<and>
        tasks (conn_listening_task sid) (waiting (ct_ctx ct)) \<le> (if cn_listening s = None then 1 else 0) \<and>
        tasks (conn_attempt_task sid) (waiting (ct_ctx ct)) = (if cn_retryStart s then 1 else 0) \<and>
        distinct (map dv_mac (cn_peers s))
    | S_Negotiating sid s \<Rightarrow>
        tasks (neg_round_task sid) (waiting (ct_ctx ct)) \<le> 1 \<and> distinct (map dv_mac (ng_peers s))
    | S_Playing sid s \<Rightarrow>
        tasks (play_ignore_task sid) (waiting (ct_ctx ct)) = (if pl_ignoreOffers s then 1 else 0) \<and>
        length (generators s) \<le> (if pl_localGenerator s then 0 else 1)"
  using run_init_inv[OF assms]
  by (cases "ct_state ct")
     (auto simp: ctl_inv_def ctl_waits_def idle_inv_def idle_waits_def conn_waits_def neg_inv_def
       neg_waits_def play_inv_def play_wf_def dv_wf_def split: option.split)

theorem reachable_tasks_witness:
  "case ct_state scene_end of S_Playing sid s \<Rightarrow> generators s = [] | _ \<Rightarrow> False"
  using reachable_tasks[OF scene_run] scene_local_generator by (auto split: fsm_state.splits)

text \<open>
  C4. A response is consumed by exactly the command it answers: afterwards its identifier is free
  again, every other pending command is untouched, and of the coroutines that waited only the one
  that awaited this command no longer does.
\<close>

theorem response_consumed:
  assumes "run e is controller_init = Some ct" and "ct_started ct"
    and "map_of (mg_pending (cx_mgr (ct_ctx ct))) i = Some d"
    and "step e (In_Response i r) ct = Some ct'"
  shows "i \<notin> used_ids (mg_pending (cx_mgr (ct_ctx ct'))) \<and>
         (\<forall>j. j = i \<or> map_of (mg_pending (cx_mgr (ct_ctx ct))) j = None \<or>
              map_of (mg_pending (cx_mgr (ct_ctx ct'))) j = map_of (mg_pending (cx_mgr (ct_ctx ct))) j) \<and>
         (\<exists>V N. waiting (ct_ctx ct) = (case cd_callback d of None \<Rightarrow> {#} | Some f \<Rightarrow> {#f#}) + V \<and>
                waiting (ct_ctx ct') = V + N)"
proof -
  have r: "on_command_response e i r ct = Some ct'" using assms(4) by simp
  show ?thesis
    by (rule response_step[OF run_init_inv[OF assms(1)] r assms(2,3)]) (metis not_None_eq)
qed

theorem response_consumed_witness:
  "\<exists>ct'. step scene_env (In_Response 27649 0) scene_end = Some ct' \<and>
         27649 \<notin> used_ids (mg_pending (cx_mgr (ct_ctx ct')))"
proof -
  have "step scene_env (In_Response 27649 0) scene_end \<noteq> None"
    using scene_goes_on scene_run by (auto simp: run_append split: option.splits)
  then obtain ct' where ct': "step scene_env (In_Response 27649 0) scene_end = Some ct'" by blast
  obtain d where "map_of (mg_pending (cx_mgr (ct_ctx scene_end))) 27649 = Some d"
    using scene_pending by blast
  from response_consumed[OF scene_run scene_started this ct'] ct' show ?thesis by blast
qed

lemma serials_grow:
  "run e is ct = Some ct' \<Longrightarrow> sid < ct_next ct \<Longrightarrow> state_id (ct_state ct) \<noteq> Some sid \<Longrightarrow>
   sid < ct_next ct' \<and> state_id (ct_state ct') \<noteq> Some sid"
proof (induction "is" arbitrary: ct)
  case (Cons i "is")
  then obtain ct1 where ct1: "step e i ct = Some ct1" "run e is ct1 = Some ct'"
    by (auto split: option.splits)
  then have "sid < ct_next ct1" "state_id (ct_state ct1) \<noteq> Some sid"
    using step_successor[OF ct1(1)] Cons.prems by (auto simp: successor_def)
  then show ?case using Cons.IH ct1(2) by blast
qed simp



end
