(* ===== verification/Switches.thy ===== *)
theory Switches
  imports Runs
begin

text \<open>
  The switches between the states (\<open>Context::SwitchToState\<close> of fsm/context.hpp and its uses in fsm/):
  who asks for which, and in which order they happen.  A switch that has been asked for is a coroutine
  behind a timer of 0 ms, and nothing takes it back; meanwhile the old state goes on.
\<close>

subsection \<open>Who asks for what\<close>

text \<open>The calls of \<open>SwitchToState\<close> in the four states.\<close>

fun may_switch :: "fsm_state \<Rightarrow> target \<Rightarrow> bool" where
  "may_switch (S_Idle _ _) T_Connecting = True"
| "may_switch (S_Idle _ _) T_None = True"
| "may_switch (S_Connecting _ _) (T_Idle _) = True"
| "may_switch (S_Connecting _ _) (T_Negotiating _ _) = True"
| "may_switch (S_Connecting _ _) T_None = True"
| "may_switch (S_Negotiating _ _) (T_Idle _) = True"
| "may_switch (S_Negotiating _ _) (T_Playing _ _ _) = True"
| "may_switch (S_Playing _ _) (T_Idle _) = True"
| "may_switch (S_Playing _ _) (T_Negotiating _ _) = True"
| "may_switch (S_Playing _ _) (T_NegotiatingWith _ _ _ _) = True"
| "may_switch _ _ = False"

lemma frame_may_switch: "state_frame st (F_Switch t) \<Longrightarrow> may_switch st t"
  by (cases st; cases t) auto

text \<open>The state a switch leads to.\<close>

definition is_at :: "fsm_state \<Rightarrow> target \<Rightarrow> bool" where
  "is_at st t \<longleftrightarrow> same_type st t \<or> st = S_None \<and> t = T_None"

lemma construct_is_at: "construct_state e sid t x = Some (st, x') \<Longrightarrow> is_at st t"
  by (cases t) (auto simp: is_at_def apfst_def map_prod_def split: prod.splits)

lemma run_switch_is_at: "run_switch e t ct = Some ct' \<Longrightarrow> is_at (ct_state ct') t"
  by (auto simp: run_switch_def Let_def dest: construct_is_at split: if_splits) (simp add: is_at_def)

subsection \<open>What a step does to the switches\<close>

text \<open>The switch an input performs: the first timer is due, and it belongs to a switch.\<close>

definition served_switch :: "input \<Rightarrow> controller \<Rightarrow> target option" where
  "served_switch i ct =
     (case (i, cx_timers (ct_ctx ct)) of
        (In_Timer, (t, f) # _) \<Rightarrow> if t > cx_now (ct_ctx ct) then None else switch_target f
      | _ \<Rightarrow> None)"

text \<open>
  \<open>asks ct ct'\<close>: on the way from \<open>ct\<close> to \<open>ct'\<close> only the state object that is now the current one has asked
  for switches, and these wait behind those that were pending.
\<close>

definition asks :: "controller \<Rightarrow> controller \<Rightarrow> bool" where
  "asks ct ct' \<longleftrightarrow>
     (\<exists>new. switches (ct_ctx ct') = switches (ct_ctx ct) @ new \<and> (\<forall>t \<in> set new. may_switch (ct_state ct') t))"

lemma asks_refl: "asks ct ct"
  by (simp add: asks_def)

lemma ctl_ok_asks: "ctl_ok e W ct ct' \<Longrightarrow> ctx_inv (ct_ctx ct) \<Longrightarrow> asks ct ct'"
  using ctl_ok_switches frame_may_switch unfolding asks_def by blast

text \<open>A state object changes its members, not its type.\<close>

lemma same_type_members:
  "same_type (S_Idle sid s) t = same_type (S_Idle sid' s') t"
  "same_type (S_Connecting sid c) t = same_type (S_Connecting sid' c') t"
  "same_type (S_Negotiating sid n) t = same_type (S_Negotiating sid' n') t"
  "same_type (S_Playing sid p) t = same_type (S_Playing sid' p') t"
  by (cases t; simp)+

lemma is_at_members:
  "is_at (S_Idle sid s) = is_at (S_Idle sid' s')" "is_at (S_Connecting sid c) = is_at (S_Connecting sid' c')"
  "is_at (S_Negotiating sid n) = is_at (S_Negotiating sid' n')" "is_at (S_Playing sid p) = is_at (S_Playing sid' p')"
  using same_type_members by (simp_all add: fun_eq_iff is_at_def)

lemma is_at_None: "is_at st T_None \<longleftrightarrow> st = S_None"
  by (cases st) (auto simp: is_at_def)

lemma call_state_is_at: "call_state e c st x = Some (st', x') \<Longrightarrow> is_at st' = is_at st"
  by (cases st) (auto simp: apfst_def map_prod_def is_at_members split: prod.splits)

lemma resume_state_is_at: "resume_state e f r st x = Some (st', x') \<Longrightarrow> is_at st' = is_at st"
  by (cases st) (auto simp: apfst_def map_prod_def is_at_members split: prod.splits)

lemma resume_same_object:
  assumes "resume e f r ct = Some ct'" "switch_target f = None"
  shows "is_at (ct_state ct') = is_at (ct_state ct)"
  using assms unfolding resume_def
  by (cases f) (auto simp: with_state_def dest: resume_state_is_at split: if_splits)


lemma response_asks:
  assumes inv: "ctl_inv ct" and r: "on_command_response e i rc ct = Some ct'"
  shows "asks ct ct' \<and> is_at (ct_state ct') = is_at (ct_state ct)"
proof (cases "ct_started ct \<and> map_of (mg_pending (cx_mgr (ct_ctx ct))) i \<noteq> None")
  case False
  then show ?thesis using r
    by (auto simp: on_command_response_def submit_store_def asks_refl split: if_splits option.splits)
next
  case True
  then obtain d where d: "ct_started ct" "map_of (mg_pending (cx_mgr (ct_ctx ct))) i = Some d" by auto
  have "asks ct ct'" using response_step[OF inv r d] frame_may_switch unfolding asks_def by metis
  moreover have "switch_target f = None" if "cd_callback d = Some f" for f
    using inv that map_of_SomeD[OF d(2)] by (fastforce simp: ctl_inv_def ctx_inv_def plain_callbacks_def)
  then have "is_at (ct_state ct') = is_at (ct_state ct)"
    using r d by (fastforce simp: on_command_response_def submit_store_def Let_def
        dest: resume_same_object split: option.splits)
  ultimately show ?thesis ..
qed

lemma timer_asks:
  assumes inv: "ctl_inv ct" and r: "run_timer e ct = Some ct'"
  shows "case served_switch In_Timer ct of
      None \<Rightarrow> asks ct ct' \<and> is_at (ct_state ct') = is_at (ct_state ct)
    | Some t \<Rightarrow> is_at (ct_state ct') t \<and>
        (\<exists>ct1. asks ct1 ct' \<and> switches (ct_ctx ct) = t # switches (ct_ctx ct1))"
proof (cases "cx_timers (ct_ctx ct)")
  case Nil
  then show ?thesis using r by (simp add: run_timer_def served_switch_def asks_refl)
next
  case (Cons p rest)
  obtain d f where p: "p = (d, f)" by fastforce
  show ?thesis
  proof (cases "d > cx_now (ct_ctx ct)")
    case True
    then show ?thesis using r Cons by (simp add: p run_timer_def served_switch_def asks_refl)
  next
    case False
    let ?x = "(ct_ctx ct)\<lparr>cx_timers := rest\<rparr>" and ?ct = "ct\<lparr>ct_ctx := (ct_ctx ct)\<lparr>cx_timers := rest\<rparr>\<rparr>"
    have res: "resume e f R_OK ?ct = Some ct'" using r Cons False by (simp add: p run_timer_def)
    have w: "waiting (ct_ctx ct) = add_mset f (waiting ?x)" using Cons by (simp add: p waiting_def)
    have "ctl_ok e (waiting ?x) ?ct ct'"
      using inv w by (intro resume_ok[OF _ res]) (simp add: ctl_inv_def)
    moreover have "ctx_inv ?x" using inv Cons by (auto simp: ctl_inv_def ctx_inv_def)
    ultimately have asks: "asks ?ct ct'" by (intro ctl_ok_asks) simp_all
    have sw: "switches (ct_ctx ct) = (case switch_target f of None \<Rightarrow> [] | Some t \<Rightarrow> [t]) @ switches ?x"
      using Cons by (simp add: switches_def p map_filter_simps split: option.split)
    have served: "served_switch In_Timer ct = switch_target f"
      using Cons False by (simp add: served_switch_def p)
    show ?thesis
    proof (cases "switch_target f")
      case None
      then show ?thesis using asks sw served resume_same_object[OF res] by (simp add: asks_def)
    next
      case (Some t)
      then have "f = F_Switch t" by (cases f) auto
      then have "is_at (ct_state ct') t" using res by (auto simp: resume_def dest: run_switch_is_at)
      then show ?thesis using asks sw served Some by auto
    qed
  qed
qed

text \<open>Before \<open>Start\<close> there is nothing.\<close>

definition nothing_yet :: "controller \<Rightarrow> bool" where
  "nothing_yet ct \<longleftrightarrow> ct_state ct = S_None \<and> cx_timers (ct_ctx ct) = []"

lemma resume_started: "resume e f r ct = Some ct' \<Longrightarrow> ct_started ct' = ct_started ct"
  by (cases f) (auto simp: resume_def run_switch_def with_state_def Let_def split: if_splits)

lemma step_started:
  assumes "step e i ct = Some ct'" "i \<noteq> In_Start"
  shows "ct_started ct' = ct_started ct"
proof (cases i)
  case (In_Event n args)
  then show ?thesis using assms by (auto simp: on_event_def with_state_def split: option.splits if_splits)
next
  case (In_Response n r)
  then show ?thesis using assms
    by (fastforce simp: on_command_response_def Let_def split: option.splits if_splits dest: resume_started)
next
  case In_Timer
  then show ?thesis using assms
    by (fastforce simp: run_timer_def split: list.splits if_splits dest: resume_started)
qed (use assms in auto)

lemma step_before_start:
  assumes "step e i ct = Some ct'" "\<not> ct_started ct \<longrightarrow> nothing_yet ct"
  shows "\<not> ct_started ct' \<longrightarrow> nothing_yet ct'"
proof
  assume "\<not> ct_started ct'"
  moreover from this have "i \<noteq> In_Start" using assms(1) by (auto simp: start_def split: if_splits)
  ultimately have "\<not> ct_started ct" "nothing_yet ct" "i \<noteq> In_Start"
    using step_started[OF assms(1)] assms(2) by simp_all
  then show "nothing_yet ct'" using assms(1)
    by (cases i) (auto simp: nothing_yet_def run_timer_def on_event_def on_command_response_def
      split: option.splits)
qed

lemma run_before_start:
  "run e is ct = Some ct' \<Longrightarrow> \<not> ct_started ct \<longrightarrow> nothing_yet ct \<Longrightarrow> \<not> ct_started ct' \<longrightarrow> nothing_yet ct'"
proof (induction "is" arbitrary: ct)
  case (Cons i "is")
  then obtain ct1 where "step e i ct = Some ct1" "run e is ct1 = Some ct'" by (auto split: option.splits)
  then show ?case using Cons.IH step_before_start Cons.prems(2) by blast
qed simp

lemma nothing_yet_init: "nothing_yet controller_init"
  by (simp add: nothing_yet_def controller_init_def ctx_init_def)

lemma start_switches:
  "nothing_yet ct \<Longrightarrow> \<not> ct_started ct \<Longrightarrow>
   switches (ct_ctx (start ct)) = [T_Idle False] \<and> switches (ct_ctx ct) = [] \<and> ct_state (start ct) = ct_state ct"
  by (simp add: nothing_yet_def start_def switch_to_def wait_for_def switches_def map_filter_simps)

lemma event_asks:
  assumes inv: "ctl_inv ct" and r: "on_event e i args ct = Some ct'"
  shows "asks ct ct' \<and> is_at (ct_state ct') = is_at (ct_state ct)"
proof
  show "asks ct ct'" using on_event_ok[OF inv r] inv by (auto intro: ctl_ok_asks simp: ctl_inv_def)
  show "is_at (ct_state ct') = is_at (ct_state ct)" using r
    by (auto simp: on_event_def with_state_def dest: call_state_is_at split: option.splits if_splits)
qed

subsection \<open>The switches of a run\<close>

text \<open>What a step performs and what it asks for, with the state that asks; nobody asks at \<open>Start\<close>.\<close>

definition performed_in :: "input \<Rightarrow> controller \<Rightarrow> target list" where
  "performed_in i ct = (case served_switch i ct of None \<Rightarrow> [] | Some t \<Rightarrow> [t])"

definition asked_in :: "input \<Rightarrow> controller \<Rightarrow> controller \<Rightarrow> (fsm_state \<times> target) list" where
  "asked_in i ct ct' =
     map (Pair (ct_state ct'))
       (drop (length (switches (ct_ctx ct)) - length (performed_in i ct)) (switches (ct_ctx ct')))"

fun performed :: "env \<Rightarrow> input list \<Rightarrow> controller \<Rightarrow> target list" where
  "performed e [] ct = []"
| "performed e (i # is) ct =
     performed_in i ct @ (case step e i ct of None \<Rightarrow> [] | Some ct' \<Rightarrow> performed e is ct')"

fun asked :: "env \<Rightarrow> input list \<Rightarrow> controller \<Rightarrow> (fsm_state \<times> target) list" where
  "asked e [] ct = []"
| "asked e (i # is) ct = (case step e i ct of None \<Rightarrow> [] | Some ct' \<Rightarrow> asked_in i ct ct' @ asked e is ct')"

fun may_ask :: "fsm_state \<times> target \<Rightarrow> bool" where
  "may_ask (st, t) = (may_switch st t \<or> st = S_None \<and> t = T_Idle False)"

definition moves :: "fsm_state \<Rightarrow> target list \<Rightarrow> fsm_state \<Rightarrow> bool" where
  "moves st ts st' \<longleftrightarrow> (if ts = [] then is_at st' = is_at st else is_at st' (last ts))"

lemma moves_append: "moves st ts st1 \<Longrightarrow> moves st1 us st2 \<Longrightarrow> moves st (ts @ us) st2"
  by (cases "us = []") (auto simp: moves_def)

lemma asks_asked:
  assumes "asks ct1 ct'" "switches (ct_ctx ct) = performed_in i ct @ switches (ct_ctx ct1)"
  shows "switches (ct_ctx ct) @ map snd (asked_in i ct ct') = performed_in i ct @ switches (ct_ctx ct')"
    and "\<forall>a \<in> set (asked_in i ct ct'). may_ask a"
  using assms by (auto simp: asked_in_def asks_def comp_def)

lemma step_switches:
  assumes inv: "ctl_inv ct" and before: "\<not> ct_started ct \<longrightarrow> nothing_yet ct" and st: "step e i ct = Some ct'"
  shows "switches (ct_ctx ct) @ map snd (asked_in i ct ct') = performed_in i ct @ switches (ct_ctx ct') \<and>
         (\<forall>a \<in> set (asked_in i ct ct'). may_ask a) \<and> moves (ct_state ct) (performed_in i ct) (ct_state ct')"
proof -
  have quiet: ?thesis if "performed_in i ct = []" "asks ct ct'" "is_at (ct_state ct') = is_at (ct_state ct)"
    using asks_asked[OF that(2), of ct i] that by (simp add: moves_def)
  show ?thesis
  proof (cases i)
    case In_Start
    show ?thesis
    proof (cases "ct_started ct")
      case True
      then show ?thesis using st In_Start
        by (intro quiet) (simp_all add: performed_in_def served_switch_def start_def asks_refl)
    next
      case False
      then show ?thesis using start_switches[of ct] before st In_Start
        by (simp add: performed_in_def served_switch_def asked_in_def moves_def nothing_yet_def)
    qed
  next
    case (In_Event n args)
    then show ?thesis using event_asks[OF inv] st
      by (intro quiet) (simp_all add: performed_in_def served_switch_def)
  next
    case (In_Response n r)
    then show ?thesis using response_asks[OF inv] st
      by (intro quiet) (simp_all add: performed_in_def served_switch_def)
  next
    case (In_Elapse d)
    then show ?thesis using st
      by (intro quiet) (auto simp: performed_in_def served_switch_def asks_def)
  next
    case In_Timer
    then have t: "run_timer e ct = Some ct'" using st by simp
    show ?thesis
    proof (cases "served_switch In_Timer ct")
      case None
      then show ?thesis using timer_asks[OF inv t] In_Timer by (intro quiet) (simp_all add: performed_in_def)
    next
      case (Some u)
      then obtain ct1 where "asks ct1 ct'" "switches (ct_ctx ct) = u # switches (ct_ctx ct1)" "is_at (ct_state ct') u"
        using timer_asks[OF inv t] by auto
      then show ?thesis using asks_asked[of ct1 ct' ct i] Some In_Timer by (simp add: performed_in_def moves_def)
    qed
  qed
qed

lemma run_switches:
  assumes "run e is ct = Some ct'" "ctl_inv ct" "\<not> ct_started ct \<longrightarrow> nothing_yet ct"
  shows "switches (ct_ctx ct) @ map snd (asked e is ct) = performed e is ct @ switches (ct_ctx ct') \<and>
         (\<forall>a \<in> set (asked e is ct). may_ask a) \<and> moves (ct_state ct) (performed e is ct) (ct_state ct')"
  using assms
proof (induction "is" arbitrary: ct)
  case (Cons i "is")
  then obtain ct1 where s: "step e i ct = Some ct1" and r: "run e is ct1 = Some ct'" by (auto split: option.splits)
  note first = step_switches[OF Cons.prems(2,3) s]
  have "ctl_inv ct1" using step_ok[OF Cons.prems(2) s] by simp
  note rest = Cons.IH[OF r this step_before_start[OF s Cons.prems(3)]]
  have "switches (ct_ctx ct) @ map snd (asked_in i ct ct1) @ map snd (asked e is ct1) =
      performed_in i ct @ performed e is ct1 @ switches (ct_ctx ct')"
    using first rest by (metis append.assoc)
  then show ?case using first rest s moves_append by auto
qed (simp add: moves_def)

subsection \<open>Properties\<close>

text \<open>
  C8. In every run the switches happen in the order in which they were asked for, each once, whatever
  happens in between, and the rest is still pending.  Each was asked for by the state that was
  current then, along the edges of the state machine (only a negotiating state asks for Playing, only
  an idle one for Connecting), but for the first, which \<open>Start\<close> asks for.  The current state is the
  one the last switch led to.
\<close>

theorem switches_in_order:
  assumes "run e is controller_init = Some ct"
  shows "map snd (asked e is controller_init) = performed e is controller_init @ switches (ct_ctx ct) \<and>
         (\<forall>(st, t) \<in> set (asked e is controller_init). may_switch st t \<or> st = S_None \<and> t = T_Idle False) \<and>
         (case rev (performed e is controller_init) of [] \<Rightarrow> ct_state ct = S_None | t # _ \<Rightarrow> is_at (ct_state ct) t)"
proof -
  have "switches (ct_ctx controller_init) = []" "ct_state controller_init = S_None"
    by (simp_all add: controller_init_def ctx_init_def switches_def map_filter_simps)
  moreover have "is_at st = is_at S_None \<longleftrightarrow> st = S_None" for st
    by (metis is_at_None)
  ultimately show ?thesis
    using run_switches[OF assms ctl_inv_init] nothing_yet_init
    by (cases "performed e is controller_init" rule: rev_cases) (auto simp: moves_def)
qed

text \<open>Up to the Connecting state, with a hello.\<close>

definition connecting_scene :: "input list" where
  "connecting_scene = take 7 scene"

theorem switches_in_order_witness:
  "\<exists>ct. run scene_env connecting_scene controller_init = Some ct \<and>
     map snd (asked scene_env connecting_scene controller_init) = [T_Idle False, T_Connecting] @ switches (ct_ctx ct) \<and>
     is_at (ct_state ct) T_Connecting"
proof -
  have "performed scene_env connecting_scene controller_init = [T_Idle False, T_Connecting]"
    by code_simp
  moreover have "run scene_env connecting_scene controller_init \<noteq> None" by code_simp
  then obtain ct where "run scene_env connecting_scene controller_init = Some ct" by blast
  ultimately show ?thesis using switches_in_order[of scene_env connecting_scene ct] by simp
qed

text \<open>
  C9. A switch that has been asked for is not taken back.  When the game is stopped in the Connecting
  state and the connectivity is established before the switch to Idle has run, which is possible as
  soon as the local address is known, both switches are pending; after the second one the device
  negotiates, although the game was stopped and the connections were reset.
\<close>

theorem stopped_game_negotiates:
  assumes "ct_state ct = S_Connecting sid s" "cn_localMac s = Some mac" "\<not> cn_retryStart s" "ctx_inv (ct_ctx ct)"
  shows "\<exists>ct1 ct2 ct3 s'.
           run e [In_Event EV_GameStopped [], In_Event EV_ConnectivityEstablished []] ct = Some ct1 \<and>
           switches (ct_ctx ct1) = switches (ct_ctx ct) @ [T_Idle False, T_Negotiating (cn_peers s) mac] \<and>
           run_switch e (T_Idle False) ct1 = Some ct2 \<and>
           run_switch e (T_Negotiating (cn_peers s) mac) ct2 = Some ct3 \<and>
           ct_state ct3 = S_Negotiating (Suc (ct_next ct)) s'"
proof -
  let ?y = "switch_to (T_Idle False) (fire_and_forget e ResetConnections (ct_ctx ct))"
  let ?x = "pool_call (PoolResize (length (cn_peers s))) ?y"
  let ?s = "s\<lparr>cn_peers := [], cn_localMac := Some [], cn_retryStart := False\<rparr>"
  let ?ct = "ct\<lparr>ct_state := S_Connecting sid ?s, ct_ctx := switch_to (T_Negotiating (cn_peers s) mac) ?x\<rparr>"
  have r: "run e [In_Event EV_GameStopped [], In_Event EV_ConnectivityEstablished []] ct = Some ?ct"
    using assms(1-3)
    by (simp add: on_event_def event_handler_def with_state_def conn_on_game_stopped_def
        conn_on_connectivity_established_def conn_attempt_def Let_def)
  have i: "ctx_inv (fire_and_forget e ResetConnections (ct_ctx ct))"
    "switches (fire_and_forget e ResetConnections (ct_ctx ct)) = switches (ct_ctx ct)"
    using grows_fire_and_forget[of e "ct_ctx ct" ResetConnections] assms(4) by (auto simp: grows_def)
  have "ctx_inv ?x" using i(1) grows_switch_to[of e "T_Idle False"] grows_pool_call[of e]
    by (simp add: grows_def)
  then have "switches (ct_ctx ?ct) = switches (ct_ctx ct) @ [T_Idle False, T_Negotiating (cn_peers s) mac]"
    using i switches_switch_to[of ?x] switches_switch_to[OF i(1)] by (simp add: pool_call_def)
  moreover obtain ct2 j where 2: "run_switch e (T_Idle False) ?ct = Some ct2" "ct_state ct2 = S_Idle (ct_next ct) j"
    "ct_next ct2 = Suc (ct_next ct)"
    by (cases "idle_construct e (ct_next ct) False (conn_destroy e ?s (ct_ctx ?ct))") (simp add: run_switch_def Let_def)
  moreover obtain ct3 s' where "run_switch e (T_Negotiating (cn_peers s) mac) ct2 = Some ct3"
    "ct_state ct3 = S_Negotiating (Suc (ct_next ct)) s'"
    using 2 by (cases "neg_construct e (ct_next ct2) (cn_peers s) mac (ct_ctx ct2)") (simp add: run_switch_def Let_def)
  ultimately show ?thesis using r by blast
qed

theorem stopped_game_negotiates_witness:
  "\<exists>ct ct1. run scene_env connecting_scene controller_init = Some ct \<and>
     run scene_env [In_Event EV_GameStopped [], In_Event EV_ConnectivityEstablished []] ct = Some ct1 \<and>
     switches (ct_ctx ct1) = [T_Idle False, T_Negotiating [\<lparr>dv_name = ''A'', dv_mac = ''a''\<rparr>] ''b'']"
proof -
  have "(case run scene_env connecting_scene controller_init of None \<Rightarrow> False | Some ct \<Rightarrow>
      switches (ct_ctx ct) = [] \<and>
      (case ct_state ct of S_Connecting sid s \<Rightarrow> cn_localMac s = Some ''b'' \<and> \<not> cn_retryStart s \<and>
         cn_peers s = [\<lparr>dv_name = ''A'', dv_mac = ''a''\<rparr>] | _ \<Rightarrow> False))"
    by code_simp
  then obtain ct sid s where c: "run scene_env connecting_scene controller_init = Some ct" "switches (ct_ctx ct) = []"
    "ct_state ct = S_Connecting sid s" "cn_localMac s = Some ''b''" "\<not> cn_retryStart s"
    "cn_peers s = [\<lparr>dv_name = ''A'', dv_mac = ''a''\<rparr>]"
    by (auto split: option.splits fsm_state.splits)
  then have "ctx_inv (ct_ctx ct)" using run_init_inv by (simp add: ctl_inv_def)
  from stopped_game_negotiates[OF c(3-5) this, of scene_env] c show ?thesis by auto
qed

end
