(* ===== verification/Xml.thy ===== *)
theory Xml
  imports Text_Conv
begin

text \<open>
  The XML reader and writer behind the serializer (dice/xmlparser.hpp), for \<open>char\<close>.

  A \<open>const char *\<close> into a text that ends in a null character is the suffix of the text that begins
  there; the empty suffix points to the terminator.  Reads past the terminator, invalid ranges and
  dereferenced end iterators are \<open>Undef\<close>.
\<close>

type_synonym cptr = string

abbreviation NUL :: char where "NUL \<equiv> CHR 0x00"

definition deref :: "cptr \<Rightarrow> char" where
  "deref p = (case p of [] \<Rightarrow> NUL | c # _ \<Rightarrow> c)"

text \<open>The characters of the range \<open>[b, e)\<close>, and \<open>std::find_if(b, e, P)\<close>.\<close>

definition seg :: "cptr \<Rightarrow> cptr \<Rightarrow> string" where
  "seg b e = take (length b - length e) b"

definition find_if :: "(char \<Rightarrow> bool) \<Rightarrow> cptr \<Rightarrow> cptr \<Rightarrow> cptr" where
  "find_if P b e = drop (length (takeWhile (\<lambda>c. \<not> P c) (seg b e))) b"

lemma length_find_if: "length (find_if P b e) \<le> length b"
  by (simp add: find_if_def)

lemma seg_append [simp]: "seg (t @ s) s = t"
  by (simp add: seg_def)

lemma find_if_append [simp]: "find_if P (t @ s) s = dropWhile (\<lambda>c. \<not> P c) t @ s"
  by (simp add: find_if_def dropWhile_eq_drop drop_append) (metis diff_is_0_eq drop_0 length_takeWhile_le)

subsection \<open>Tokens\<close>

text \<open>
  \<open>Tokenize\<close>: the loop over \<open>pit\<close>, with the character in front of it.  The list it builds always ends
  in a non-null character before the terminator is added.
\<close>

fun tokenize_loop :: "char \<Rightarrow> cptr \<Rightarrow> cptr list" where
  "tokenize_loop prev [] = [[]]"
| "tokenize_loop prev (c # cs) =
     (if c = CHR ''<'' then (c # cs) # tokenize_loop c cs
      else if prev = CHR ''>'' then (c # cs) # tokenize_loop c cs
      else tokenize_loop c cs)"

definition tokenize :: "cptr \<Rightarrow> cptr list outcome" where
  "tokenize txt =
     (case txt of
        [] \<Rightarrow> Undef
      | c # cs \<Rightarrow> Ok (txt # tokenize_loop c cs))"

fun remove_gaps :: "cptr list \<Rightarrow> cptr list" where
  "remove_gaps (l # r # rest) =
     (if \<forall>c \<in> set (seg l r). is_space c then remove_gaps (r # rest)
      else l # remove_gaps (r # rest))"
| "remove_gaps ts = ts"

definition is_comment_start :: "cptr \<Rightarrow> bool" where
  "is_comment_start p \<longleftrightarrow> take 4 p = ''<!--''"

definition is_comment_end :: "cptr \<Rightarrow> bool" where
  "is_comment_end p \<longleftrightarrow> take 3 p = ''-->''"

text \<open>The first pointer of \<open>[b, e)\<close> that satisfies \<open>P\<close>, in a loop that looks at pointers.\<close>

fun scan :: "(cptr \<Rightarrow> bool) \<Rightarrow> cptr \<Rightarrow> cptr \<Rightarrow> cptr option" where
  "scan P [] e = None"
| "scan P (c # cs) e =
     (if length (c # cs) \<le> length e then None
      else if P (c # cs) then Some (c # cs) else scan P cs e)"

text \<open>
  \<open>RemoveInsideComments\<close>.  \<open>held = None\<close>: \<open>it_erase_from\<close> is the end iterator; otherwise \<open>held\<close> are
  the pointers from \<open>it_erase_from\<close> up to \<open>it_left\<close>, which go when the comment ends.
\<close>

fun remove_inside_comments :: "cptr list option \<Rightarrow> cptr list \<Rightarrow> cptr list" where
  "remove_inside_comments None (l # r # rest) =
     (case scan is_comment_start l r of
        None \<Rightarrow> l # remove_inside_comments None (r # rest)
      | Some p \<Rightarrow>
          (case scan is_comment_end (drop 4 p) r of
             None \<Rightarrow> l # remove_inside_comments (Some [r]) (r # rest)
           | Some _ \<Rightarrow> l # remove_inside_comments None (r # rest)))"
| "remove_inside_comments (Some held) (l # r # rest) =
     (case scan is_comment_end l r of
        None \<Rightarrow> remove_inside_comments (Some (held @ [r])) (r # rest)
      | Some _ \<Rightarrow> remove_inside_comments None (r # rest))"
| "remove_inside_comments None ts = ts"
| "remove_inside_comments (Some held) ts = held"

text \<open>The values of the enumeration \<open>Token\<close> that occur; \<open>T_OpenClose\<close> is \<open>OPEN | CLOSE\<close>.\<close>

datatype token = T_Open | T_Close | T_OpenClose | T_Content | T_Comment | T_Error

definition determine_token :: "cptr \<Rightarrow> cptr \<Rightarrow> token" where
  "determine_token b e =
     (if deref b = CHR ''<'' then
        (if deref (drop 1 b) = CHR ''/'' then T_Close
         else if is_comment_start b then T_Comment
         else
           (let s = seg b e; n = length (takeWhile (\<lambda>c. c \<noteq> CHR ''>'') s) in
            if n = length s then T_Error
            else if b ! (n - 1) = CHR ''/'' then T_OpenClose else T_Open))
      else T_Content)"

fun remove_leading_comments :: "cptr list \<Rightarrow> cptr list outcome" where
  "remove_leading_comments (l # r # rest) =
     (if determine_token l r = T_Comment then remove_leading_comments (r # rest)
      else Ok (l # r # rest))"
| "remove_leading_comments _ = Undef"

subsection \<open>Names and attributes\<close>

definition extract_name :: "cptr \<Rightarrow> cptr \<Rightarrow> string" where
  "extract_name b e =
     (let b1 = drop 1 b;
          e1 = find_if (\<lambda>c. is_space c \<or> c = CHR ''>'' \<or> c = CHR ''/'') b1 e
      in seg b1 e1)"

type_synonym attrs = "(string \<times> string) list"

text \<open>\<open>emplace\<close> of an \<open>unordered_map\<close> keeps the value that is there.\<close>

definition attrs_emplace :: "string \<Rightarrow> string \<Rightarrow> attrs \<Rightarrow> attrs" where
  "attrs_emplace k v m = (if k \<in> fst ` set m then m else m @ [(k, v)])"

text \<open>
  The loop of \<open>ExtractAttributes\<close>.  Without two characters after the key the range of the value is
  invalid.
\<close>

function attributes_loop :: "cptr \<Rightarrow> cptr \<Rightarrow> attrs \<Rightarrow> attrs outcome" where
  "attributes_loop b e m =
     (if length b \<le> length e then Ok m
      else
        (let keybegin = find_if is_alpha b e in
         if length keybegin \<le> length e then Ok m
         else
           (let keyend = find_if (\<lambda>c. c = CHR ''='') keybegin e in
            if length keyend < length e + 2 then Undef
            else
              (let valbegin = drop 2 keyend;
                   valend = find_if (\<lambda>c. c = keyend ! 1) valbegin e
               in attributes_loop valend e
                    (attrs_emplace (seg keybegin keyend) (seg valbegin valend) m)))))"
  by pat_completeness auto

termination attributes_loop
proof (relation "measure (\<lambda>(b, _, _). length b)", goal_cases)
  case (2 b e m keybegin keyend valbegin valend)
  then have "length keyend \<le> length b" by (metis length_find_if le_trans)
  moreover have "length valend \<le> length valbegin" using 2 length_find_if by blast
  ultimately show ?case using 2 by simp
qed simp

declare attributes_loop.simps [simp del]

definition extract_attributes :: "cptr \<Rightarrow> cptr \<Rightarrow> attrs outcome" where
  "extract_attributes b e = attributes_loop (find_if (\<lambda>c. c = CHR ''>'' \<or> is_space c) b e) e []"

subsection \<open>Entity references\<close>

text \<open>\<open>EntityRefTable\<close>: three representations and the symbol.\<close>

definition entity_refs :: "(string list \<times> char) list" where
  "entity_refs =
     [([''&amp;'', ''&#38;'', ''&#x26;''], CHR ''&''),
      ([''&lt;'', ''&#60;'', ''&#x3C;''], CHR ''<''),
      ([''&gt;'', ''&#62;'', ''&#x3E;''], CHR ''>''),
      ([''&quot;'', ''&#34;'', ''&#x22;''], CHR 0x22),
      ([''&apos;'', ''&#39;'', ''&#x27;''], CHR 0x27)]"

fun first_some :: "('a \<Rightarrow> 'b option) \<Rightarrow> 'a list \<Rightarrow> 'b option" where
  "first_some f [] = None"
| "first_some f (x # xs) = (case f x of None \<Rightarrow> first_some f xs | Some y \<Rightarrow> Some y)"

text \<open>
  The comparison of \<open>CheckEntityRef\<close>: \<open>while (*word && *pit)\<close>, with the number of symbols it has
  read when they were equal so far.
\<close>

fun compare_word :: "string \<Rightarrow> cptr \<Rightarrow> nat option" where
  "compare_word [] pit = Some 0"
| "compare_word (w # ws) [] = Some 0"
| "compare_word (w # ws) (p # ps) =
     (if p = NUL then Some 0 else if w \<noteq> p then None
      else map_option Suc (compare_word ws ps))"

definition check_entity_ref :: "cptr \<Rightarrow> string list \<times> char \<Rightarrow> (nat \<times> char) option" where
  "check_entity_ref from line =
     map_option (\<lambda>count. (count, snd line)) (first_some (\<lambda>w. compare_word w from) (fst line))"

text \<open>
  \<open>SubstituteEntityRef\<close>: the loop with \<open>from\<close> pointing into the content.  It never ends when it
  meets a null character, which a content read from a text does not have.
\<close>

partial_function (option) substitute_loop :: "cptr \<Rightarrow> string option" where
  "substitute_loop from =
     (if length from \<le> 3 then Some from
      else
        (case first_some (check_entity_ref from) entity_refs of
           None \<Rightarrow> Option.bind (substitute_loop (tl from)) (\<lambda>s. Some (hd from # s))
         | Some (count, c) \<Rightarrow> Option.bind (substitute_loop (drop count from)) (\<lambda>s. Some (c # s))))"

declare substitute_loop.simps [code]

definition substitute_entity_ref :: "string \<Rightarrow> string option" where
  "substitute_entity_ref content = substitute_loop content"

text \<open>
  \<open>InsertEntityRef\<close>: after a replacement the iterator is three symbols behind the position, and the
  loop adds one.
\<close>

definition special :: "char \<Rightarrow> bool" where
  "special c \<longleftrightarrow> c \<in> snd ` set entity_refs"

definition escape :: "char \<Rightarrow> string" where
  "escape c = (case find (\<lambda>line. snd line = c) entity_refs of None \<Rightarrow> [c] | Some line \<Rightarrow> hd (fst line))"

lemma special_iff: "special c \<longleftrightarrow> c = CHR ''&'' \<or> c = CHR ''<'' \<or> c = CHR ''>'' \<or> c = CHR 0x22 \<or> c = CHR 0x27"
  by (auto simp: special_def entity_refs_def)

lemma find_entity_ref:
  "find (\<lambda>line. snd line = c) entity_refs = Some line \<Longrightarrow>
   special c \<and> escape c = hd (fst line) \<and> length (hd (fst line)) \<ge> 4 \<and>
   (\<forall>d \<in> set (drop 4 (hd (fst line))). \<not> special d)"
  by (auto simp: escape_def entity_refs_def special_iff split: if_splits)

function insert_loop :: "string \<Rightarrow> string" where
  "insert_loop [] = []"
| "insert_loop (c # cs) =
     (case find (\<lambda>line. snd line = c) entity_refs of
        None \<Rightarrow> c # insert_loop cs
      | Some line \<Rightarrow>
          take 4 (hd (fst line)) @ insert_loop (drop 4 (hd (fst line)) @ cs))"
  by pat_completeness auto

termination insert_loop
proof (relation "measures [\<lambda>s. length (filter special s), length]", goal_cases)
  case (3 c cs line)
  from find_entity_ref[OF this] have "special c" "filter special (drop 4 (hd (fst line))) = []"
    by (auto simp: filter_empty_conv)
  then show ?case by simp
qed (auto simp: find_None_iff)

definition insert_entity_ref :: "string \<Rightarrow> string" where
  "insert_entity_ref content = insert_loop content"

subsection \<open>Elements\<close>

text \<open>\<open>ElementData\<close>; the attributes are an \<open>unordered_map\<close>.\<close>

datatype element =
  Element (el_name: string) (el_content: string) (el_attrs: attrs) (el_children: "element list")

definition new_element :: "string \<Rightarrow> element" where
  "new_element name = Element name [] [] []"

definition append_child :: "element \<Rightarrow> element \<Rightarrow> element" where
  "append_child p c = Element (el_name p) (el_content p) (el_attrs p) (el_children p @ [c])"

definition with_content :: "string \<Rightarrow> element \<Rightarrow> element" where
  "with_content content e = Element (el_name e) content (el_attrs e) (el_children e)"

text \<open>
  The stream operator.  \<open>ord\<close> gives the order in which the hash map iterates over its attributes.
\<close>

definition print_attr :: "string \<times> string \<Rightarrow> string" where
  "print_attr kv = '' '' @ fst kv @ [CHR ''='', CHR 0x22] @ snd kv @ [CHR 0x22]"

fun print_element :: "(attrs \<Rightarrow> attrs) \<Rightarrow> element \<Rightarrow> string" where
  "print_element ord (Element name content attrs children) =
     ''<'' @ name @ concat (map print_attr (ord attrs)) @
     (if content = [] \<and> children = [] then '' />''
      else ''>'' @ insert_entity_ref content @ concat (map (print_element ord) children) @
           ''</'' @ name @ ''>'')"

text \<open>
  \<open>BuildElementTree\<close>.  An element under construction is on the stack, its parent below it; a child
  is anchored in its parent when it leaves the stack, or at the end.
\<close>

fun collapse :: "element \<Rightarrow> element list \<Rightarrow> element" where
  "collapse open [] = open"
| "collapse open (p # below) = collapse (append_child p open) below"

definition read_tag :: "cptr \<Rightarrow> cptr \<Rightarrow> element outcome" where
  "read_tag b e = obind (extract_attributes b e) (\<lambda>m. Ok (Element (extract_name b e) [] m []))"

definition append_content :: "bool \<Rightarrow> string \<Rightarrow> element \<Rightarrow> element outcome" where
  "append_content replace_er str e =
     (if replace_er
      then (case substitute_entity_ref (el_content e @ str) of
              None \<Rightarrow> Undef | Some content \<Rightarrow> Ok (with_content content e))
      else Ok (with_content (el_content e @ str) e))"

fun build_loop :: "bool \<Rightarrow> cptr list \<Rightarrow> element \<Rightarrow> element list \<Rightarrow> element outcome" where
  "build_loop er (b # e # rest) open below =
     (case determine_token b e of
        T_Open \<Rightarrow> obind (read_tag b e) (\<lambda>c. build_loop er (e # rest) c (open # below))
      | T_OpenClose \<Rightarrow> obind (read_tag b e) (\<lambda>c. build_loop er (e # rest) (append_child open c) below)
      | T_Close \<Rightarrow>
          (case below of
             [] \<Rightarrow> Ok open
           | p # ps \<Rightarrow> build_loop er (e # rest) (append_child p open) ps)
      | T_Content \<Rightarrow> obind (append_content er (seg b e) open) (\<lambda>t. build_loop er (e # rest) t below)
      | T_Comment \<Rightarrow> build_loop er (e # rest) open below
      | T_Error \<Rightarrow> Throw XmlException)"
| "build_loop er _ open below = Ok (collapse open below)"

definition build_element_tree :: "bool \<Rightarrow> cptr list \<Rightarrow> element outcome" where
  "build_element_tree er tokens =
     (case tokens of
        b # e # rest \<Rightarrow> obind (read_tag b e) (\<lambda>root. build_loop er (e # rest) root [])
      | _ \<Rightarrow> Undef)"

subsection \<open>Documents\<close>

record document =
  doc_root :: element
  doc_version :: string
  doc_encoding :: string
  doc_standalone :: string

definition new_document :: "string \<Rightarrow> document" where
  "new_document root_name =
     \<lparr>doc_root = new_element root_name, doc_version = [], doc_encoding = [], doc_standalone = []\<rparr>"

definition attr_or_empty :: "string \<Rightarrow> attrs \<Rightarrow> string" where
  "attr_or_empty k m = (case map_of m k of None \<Rightarrow> [] | Some v \<Rightarrow> v)"

text \<open>The constructor that parses a text.\<close>

definition parse_document :: "bool \<Rightarrow> cptr \<Rightarrow> document outcome" where
  "parse_document replace_er txt =
     obind (tokenize txt) (\<lambda>tokens0.
     obind (remove_leading_comments (remove_inside_comments None (remove_gaps tokens0))) (\<lambda>tokens.
       let first = hd tokens in
       if deref first \<noteq> CHR ''<'' then Throw XmlException
       else if deref (drop 1 first) = CHR ''?'' then
         obind (extract_attributes first (tokens ! 1)) (\<lambda>declaration.
         obind (remove_leading_comments (tl tokens)) (\<lambda>tokens2.
         obind (build_element_tree replace_er tokens2) (\<lambda>root.
           Ok \<lparr>doc_root = root, doc_version = attr_or_empty ''version'' declaration,
               doc_encoding = attr_or_empty ''encoding'' declaration,
               doc_standalone = attr_or_empty ''standalone'' declaration\<rparr>)))
       else
         obind (build_element_tree replace_er tokens) (\<lambda>root.
           Ok \<lparr>doc_root = root, doc_version = [], doc_encoding = [], doc_standalone = []\<rparr>)))"

text \<open>\<open>ParseString\<close> of a string: the constructor reads up to the first null character.\<close>

definition parse_string :: "string \<Rightarrow> bool \<Rightarrow> document outcome" where
  "parse_string s replace_er = parse_document replace_er (takeWhile (\<lambda>c. c \<noteq> NUL) s)"

definition decl_attr :: "string \<Rightarrow> string \<Rightarrow> string" where
  "decl_attr key v = (if v = [] then [] else print_attr (key, v))"

definition doc_to_string :: "(attrs \<Rightarrow> attrs) \<Rightarrow> document \<Rightarrow> string" where
  "doc_to_string ord d =
     (if doc_version d = [] \<and> doc_encoding d = [] \<and> doc_standalone d = [] then []
      else ''<?xml'' @ decl_attr ''version'' (doc_version d) @
           decl_attr ''encoding'' (doc_encoding d) @
           decl_attr ''standalone'' (doc_standalone d) @ '' ?>'') @
     print_element ord (doc_root d)"

subsection \<open>The interface of Element\<close>

definition get_attribute_value :: "string \<Rightarrow> element \<Rightarrow> string outcome" where
  "get_attribute_value attribute e =
     (case map_of (el_attrs e) attribute of None \<Rightarrow> Throw XmlException | Some v \<Rightarrow> Ok v)"

definition get_child_at :: "nat \<Rightarrow> element \<Rightarrow> element outcome" where
  "get_child_at index e =
     (if index \<ge> length (el_children e) then Throw XmlException else Ok (el_children e ! index))"

definition get_child :: "string \<Rightarrow> element \<Rightarrow> element outcome" where
  "get_child name e =
     (case find (\<lambda>c. el_name c = name) (el_children e) of
        None \<Rightarrow> Throw XmlException | Some c \<Rightarrow> Ok c)"

definition set_content :: "string \<Rightarrow> element \<Rightarrow> element outcome" where
  "set_content content e =
     (if length (el_children e) \<noteq> 0 then Throw XmlException else Ok (with_content content e))"

definition add_attribute :: "string \<Rightarrow> string \<Rightarrow> element \<Rightarrow> element" where
  "add_attribute name value e =
     Element (el_name e) (el_content e) (al_assign name value (el_attrs e)) (el_children e)"

text \<open>\<open>AddChild\<close> returns a wrapper of the new child; \<open>f\<close> is what the caller does with it.\<close>

definition add_child :: "string \<Rightarrow> (element \<Rightarrow> element outcome) \<Rightarrow> element \<Rightarrow> element outcome" where
  "add_child name f e =
     (if el_content e \<noteq> [] then Throw XmlException
      else obind (f (new_element name)) (\<lambda>c. Ok (append_child e c)))"

end
