(* ===== verification/Xml_Roundtrip.thy ===== *)
theory Xml_Roundtrip
  imports Xml "HOL-Library.Multiset"
begin

text \<open>
  Reading back what was written: the parser of dice/xmlparser.hpp recovers an element from its
  printed form, for every order in which the attributes may have been written.
\<close>

subsection \<open>Escaping\<close>

lemma escape_other: "\<not> special c \<Longrightarrow> escape c = [c]"
  by (auto simp: escape_def special_def entity_refs_def)

lemma concat_escape_id: "\<forall>c \<in> set s. \<not> special c \<Longrightarrow> concat (map escape s) = s"
  by (induction s) (simp_all add: escape_other)

lemma insert_entity_ref_escape: "insert_entity_ref s = concat (map escape s)"
  unfolding insert_entity_ref_def
proof (induction s rule: insert_loop.induct)
  case (2 c cs)
  show ?case
  proof (cases "find (\<lambda>line. snd line = c) entity_refs")
    case None
    then show ?thesis using 2(1) by (simp add: escape_def)
  next
    case (Some line)
    note line = find_entity_ref[OF Some]
    then have "insert_loop (drop 4 (hd (fst line)) @ cs) =
        concat (map escape (drop 4 (hd (fst line)))) @ concat (map escape cs)"
      using 2(2)[OF Some] by simp
    then show ?thesis using line Some
      by (simp add: concat_escape_id del: append_take_drop_id)
         (metis append_assoc append_take_drop_id)
  qed
qed simp

lemma escape_no_tag: "CHR ''<'' \<notin> set (escape c)" "CHR ''>'' \<notin> set (escape c)" "escape c \<noteq> []"
  by (auto simp: escape_def entity_refs_def split: if_splits)

lemma escape_NUL: "c \<noteq> NUL \<Longrightarrow> NUL \<notin> set (escape c)"
  by (auto simp: escape_def entity_refs_def split: if_splits)

abbreviation blank :: "string \<Rightarrow> bool" where
  "blank s \<equiv> \<forall>c \<in> set s. is_space c"

lemma special_not_space: "special c \<Longrightarrow> \<not> is_space c"
  by (auto simp: special_iff is_space_def)

lemma blank_escape: "blank (concat (map escape s)) \<longleftrightarrow> blank s"
proof -
  have "blank (escape c) \<longleftrightarrow> is_space c" for c
  proof (cases "special c")
    case True
    then have "hd (escape c) = CHR ''&'' \<and> escape c \<noteq> []"
      by (auto simp: escape_def special_iff entity_refs_def)
    then have "\<not> blank (escape c)" by (cases "escape c") (auto simp: is_space_def)
    then show ?thesis using special_not_space[OF True] by simp
  qed (simp add: escape_other)
  then show ?thesis by auto
qed

lemma blank_escape_id: "blank s \<Longrightarrow> concat (map escape s) = s"
  using special_not_space by (auto intro: concat_escape_id)

lemma check_no_entity_ref:
  "c \<noteq> CHR ''&'' \<Longrightarrow> c \<noteq> NUL \<Longrightarrow> first_some (check_entity_ref (c # cs)) entity_refs = None"
  by (auto simp: entity_refs_def check_entity_ref_def)

lemma check_entity_ref_escape:
  "special c \<Longrightarrow> first_some (check_entity_ref (escape c @ cs)) entity_refs = Some (length (escape c), c)"
  by (auto simp: special_iff entity_refs_def check_entity_ref_def escape_def)

lemma length_escape: "special c \<Longrightarrow> 4 \<le> length (escape c)"
  by (auto simp: special_iff entity_refs_def escape_def)

lemma short_not_escaped: "length (concat (map escape s)) \<le> 3 \<Longrightarrow> concat (map escape s) = s"
proof (induction s)
  case (Cons c s)
  then show ?case using length_escape[of c] by (cases "special c") (auto simp: escape_other)
qed simp

text \<open>Replacing the references restores what was escaped.\<close>

lemma substitute_escaped: "NUL \<notin> set s \<Longrightarrow> substitute_loop (concat (map escape s)) = Some s"
proof (induction s)
  case Nil
  show ?case by (subst substitute_loop.simps) simp
next
  case (Cons c s)
  let ?rest = "concat (map escape s)"
  have IH: "substitute_loop ?rest = Some s" using Cons by simp
  show ?case
  proof (cases "special c")
    case True
    then show ?thesis using IH check_entity_ref_escape[of c ?rest] length_escape[of c]
      by (subst substitute_loop.simps) simp
  next
    case False
    then have "escape c = [c]" "first_some (check_entity_ref (c # ?rest)) entity_refs = None"
      using Cons.prems check_no_entity_ref[of c ?rest] by (auto simp: escape_other special_iff)
    then show ?thesis using IH short_not_escaped[of "c # s"]
      by (subst substitute_loop.simps) auto
  qed
qed

subsection \<open>Lists of tokens\<close>

text \<open>The pointers to the beginnings of the tokens \<open>ts\<close> of a text, and to its terminator.\<close>

fun sufs :: "string list \<Rightarrow> cptr list" where
  "sufs [] = [[]]"
| "sufs (t # ts) = concat (t # ts) # sufs ts"

lemma sufs_hd: obtains xs where "sufs ts = concat ts # xs"
  by (cases ts) auto

definition tag_token :: "string \<Rightarrow> bool" where
  "tag_token t \<longleftrightarrow> (\<exists>c u. t = CHR ''<'' # c # u @ ''>'' \<and> c \<noteq> CHR ''!'' \<and>
     CHR ''<'' \<notin> set (c # u) \<and> CHR ''>'' \<notin> set (c # u))"

definition text_token :: "string \<Rightarrow> bool" where
  "text_token t \<longleftrightarrow> t \<noteq> [] \<and> CHR ''<'' \<notin> set t \<and> CHR ''>'' \<notin> set t"

text \<open>Tags, with at most one text between two of them; the flag says that a text may come next.\<close>

fun tokens_ok :: "bool \<Rightarrow> string list \<Rightarrow> bool" where
  "tokens_ok b [] = True"
| "tokens_ok b (t # ts) =
     (tag_token t \<and> tokens_ok True ts \<or> b \<and> text_token t \<and> tokens_ok False ts)"

lemma tokenize_loop_text:
  "CHR ''<'' \<notin> set u \<Longrightarrow> CHR ''>'' \<notin> set u \<Longrightarrow> prev \<noteq> CHR ''>'' \<Longrightarrow>
   tokenize_loop prev (u @ s) = tokenize_loop (last (prev # u)) s"
proof (induction u arbitrary: prev)
  case (Cons c u)
  then have "c \<noteq> CHR ''<''" "c \<noteq> CHR ''>''" by auto
  then show ?case using Cons.IH[of c] Cons.prems by simp
qed simp

lemma tokenize_loop_tag:
  assumes "tag_token t"
  shows "tokenize_loop prev (t @ s) = (t @ s) # tokenize_loop (CHR ''>'') s"
proof -
  obtain c u where t: "t = CHR ''<'' # c # u @ ''>''" and cu: "CHR ''<'' \<notin> set (c # u)" "CHR ''>'' \<notin> set (c # u)"
    using assms by (auto simp: tag_token_def)
  have "tokenize_loop (CHR ''<'') ((c # u) @ CHR ''>'' # s) = tokenize_loop (last (CHR ''<'' # c # u)) (CHR ''>'' # s)"
    using cu by (intro tokenize_loop_text) auto
  moreover have "last (CHR ''<'' # c # u) \<noteq> CHR ''>''"
    using cu(2) last_in_set[of "c # u"] by auto
  ultimately show ?thesis by (simp add: t)
qed

lemma tokenize_loop_tokens:
  "tokens_ok b ts \<Longrightarrow> (prev = CHR ''>'') = b \<Longrightarrow> tokenize_loop prev (concat ts) = sufs ts"
proof (induction ts arbitrary: prev b)
  case (Cons t ts)
  show ?case
  proof (cases "tag_token t")
    case True
    then have "tokens_ok True ts"
      using Cons.prems by (auto simp: tag_token_def text_token_def)
    then show ?thesis using Cons.IH True by (simp add: tokenize_loop_tag)
  next
    case False
    with Cons.prems have t: "text_token t" "tokens_ok False ts" "prev = CHR ''>''" by auto
    then obtain c u where cu: "t = c # u" "c \<noteq> CHR ''<''" "c \<noteq> CHR ''>''" 
      "CHR ''<'' \<notin> set u" "CHR ''>'' \<notin> set u"
      by (cases t) (auto simp: text_token_def)
    then have "last (c # u) \<noteq> CHR ''>''" using last_in_set[of "c # u"] by auto
    then show ?thesis using Cons.IH[OF t(2), of "last (c # u)"] t(3) cu
      by (simp add: tokenize_loop_text)
  qed
qed simp

lemma tokenize_tokens:
  assumes "tag_token t" "tokens_ok True ts"
  shows "tokenize (concat (t # ts)) = Ok (sufs (t # ts))"
proof -
  have "tokenize_loop (CHR ''x'') (concat (t # ts)) = concat (t # ts) # sufs ts"
    using assms tokenize_loop_tokens[of True ts "CHR ''>''"] by (simp add: tokenize_loop_tag)
  moreover obtain c u where "t = CHR ''<'' # c # u" using assms(1) by (auto simp: tag_token_def)
  ultimately show ?thesis by (simp add: tokenize_def)
qed

text \<open>What \<open>RemoveGaps\<close> does: a blank token becomes the end of the token before it.\<close>

inductive gaps :: "string list \<Rightarrow> string list \<Rightarrow> bool" where
  gaps_nil: "gaps [] []"
| gaps_cons: "\<not> blank t \<Longrightarrow> gaps ts us \<Longrightarrow> gaps (t # ts) (t # us)"
| gaps_blank: "\<not> blank t \<Longrightarrow> blank b \<Longrightarrow> gaps ts us \<Longrightarrow> gaps (t # b # ts) ((t @ b) # us)"

lemma gaps_append: "gaps ts us \<Longrightarrow> gaps ts' us' \<Longrightarrow> gaps (ts @ ts') (us @ us')"
  by (induction rule: gaps.induct) (auto intro: gaps.intros)

lemma remove_gaps_sufs: "gaps ts us \<Longrightarrow> remove_gaps (sufs ts) = sufs us \<and> concat us = concat ts"
proof (induction rule: gaps.induct)
  case (gaps_cons t ts us)
  obtain xs where xs: "sufs ts = concat ts # xs" by (rule sufs_hd)
  then show ?case using gaps_cons by auto
next
  case (gaps_blank t b ts us)
  obtain xs where xs: "sufs ts = concat ts # xs" by (rule sufs_hd)
  have "seg (t @ b @ concat ts) (b @ concat ts) = t" by (metis seg_append)
  moreover have "seg (b @ concat ts) (concat ts) = b" by simp
  ultimately show ?case using gaps_blank xs by auto
qed simp

subsection \<open>No comments\<close>

fun lt_ok :: "string \<Rightarrow> bool" where
  "lt_ok (a # b # s) = (\<not> (a = CHR ''<'' \<and> b = CHR ''!'') \<and> lt_ok (b # s))"
| "lt_ok _ = True"

lemma lt_ok_tl: "lt_ok (c # s) \<Longrightarrow> lt_ok s"
  by (cases s) auto

lemma lt_ok_suffix: "lt_ok (u @ s) \<Longrightarrow> lt_ok s"
  by (induction u) (auto dest: lt_ok_tl)

lemma lt_ok_text: "CHR ''<'' \<notin> set u \<Longrightarrow> lt_ok (u @ s) = lt_ok s"
proof (induction u)
  case (Cons c u)
  then show ?case by (cases "u @ s") auto
qed simp

lemma lt_ok_tokens: "tokens_ok b ts \<Longrightarrow> lt_ok (concat ts)"
proof (induction ts arbitrary: b)
  case (Cons t ts)
  then have "lt_ok (concat ts)" by auto
  moreover have "lt_ok (t @ s) = lt_ok s" if "tag_token t" for s
    using that lt_ok_text[of "tl t" s]
    by (auto simp: tag_token_def)
  moreover have "lt_ok (t @ s) = lt_ok s" if "text_token t" for s
    using that by (simp add: text_token_def lt_ok_text)
  ultimately show ?case using Cons.prems by auto
qed simp

lemma scan_no_comment: "lt_ok p \<Longrightarrow> scan is_comment_start p e = None"
proof (induction p)
  case (Cons c p)
  then have "\<not> is_comment_start (c # p)" by (cases p) (auto simp: is_comment_start_def)
  then show ?case using Cons lt_ok_tl by simp
qed simp

lemma remove_inside_comments_sufs:
  "lt_ok (concat ts) \<Longrightarrow> remove_inside_comments None (sufs ts) = sufs ts"
proof (induction ts)
  case (Cons t ts)
  obtain xs where xs: "sufs ts = concat ts # xs" by (rule sufs_hd)
  have "lt_ok (concat ts)" using Cons.prems lt_ok_suffix[of t] by simp
  then show ?case using Cons xs by (simp add: scan_no_comment)
qed simp

subsection \<open>Tags\<close>

text \<open>Elements that can be told from their printed form.\<close>

definition name_ok :: "string \<Rightarrow> bool" where
  "name_ok n \<longleftrightarrow> n \<noteq> [] \<and> (\<forall>c \<in> set n. is_alpha c \<or> is_digit c)"

definition attr_ok :: "string \<times> string \<Rightarrow> bool" where
  "attr_ok kv \<longleftrightarrow> name_ok (fst kv) \<and> is_alpha (hd (fst kv)) \<and>
     (\<forall>c \<in> set (snd kv). c \<notin> {CHR ''<'', CHR ''>'', CHR 0x22, NUL})"

fun element_ok :: "element \<Rightarrow> bool" where
  "element_ok (Element name content attrs children) \<longleftrightarrow>
     name_ok name \<and> NUL \<notin> set content \<and> distinct (map fst attrs) \<and>
     (\<forall>kv \<in> set attrs. attr_ok kv) \<and> (content = [] \<or> children = []) \<and>
     (\<forall>c \<in> set children. element_ok c)"

abbreviation attrs_text :: "attrs \<Rightarrow> string" where
  "attrs_text m \<equiv> concat (map print_attr m)"

lemma name_char:
  assumes "is_alpha c \<or> is_digit c"
  shows "c \<noteq> CHR ''<''" "c \<noteq> CHR ''>''" "c \<noteq> CHR ''/''" "c \<noteq> CHR ''!''" "c \<noteq> CHR ''?''"
    "c \<noteq> CHR ''=''" "c \<noteq> NUL" "\<not> is_space c" "c \<noteq> CHR '' ''"
  using assms by (auto simp: is_alpha_def is_digit_def is_space_def)

lemma not_alpha: "\<not> is_alpha (CHR '' '')" "\<not> is_alpha (CHR 0x22)" "\<not> is_alpha (CHR ''>'')"
  "\<not> is_alpha (CHR ''/'')" "\<not> is_alpha (CHR ''<'')"
  by (auto simp: is_alpha_def)

lemma space_not_alpha: "is_space c \<Longrightarrow> \<not> is_alpha c"
  by (auto simp: is_alpha_def is_space_def)

lemma find_if_skip:
  "(\<forall>c \<in> set a. \<not> P c) \<Longrightarrow> P d \<Longrightarrow> find_if P (a @ d # b @ s) s = d # b @ s"
  using find_if_append[of P "a @ d # b" s] by (simp add: dropWhile_stop del: find_if_append)

lemma find_if_none: "(\<forall>c \<in> set a. \<not> P c) \<Longrightarrow> find_if P (a @ s) s = s"
  by (simp add: dropWhile_eq_Nil_conv)

lemma attributes_loop_end: "(\<forall>c \<in> set y. \<not> is_alpha c) \<Longrightarrow> attributes_loop (y @ s) s m = Ok m"
  by (subst attributes_loop.simps) (simp add: find_if_none del: find_if_append)

lemma attributes_loop_attr:
  assumes x: "\<forall>c \<in> set x. \<not> is_alpha c" and kv: "attr_ok (k, v)"
  shows "attributes_loop (x @ k @ CHR ''='' # CHR 0x22 # v @ CHR 0x22 # y @ s) s m =
         attributes_loop (CHR 0x22 # y @ s) s (attrs_emplace k v m)"
proof -
  obtain a k' where k: "k = a # k'" "is_alpha a" using kv by (cases k) (auto simp: attr_ok_def name_ok_def)
  let ?e = "CHR ''='' # CHR 0x22 # v @ CHR 0x22 # y @ s"
  have 1: "find_if is_alpha (x @ k @ ?e) s = k @ ?e"
    using find_if_skip[of x is_alpha a "k' @ CHR ''='' # CHR 0x22 # v @ CHR 0x22 # y" s] x k by simp
  have 2: "find_if (\<lambda>c. c = CHR ''='') (k @ ?e) s = ?e"
  proof -
    have "\<forall>c \<in> set k. c \<noteq> CHR ''=''" using kv name_char(6) by (auto simp: attr_ok_def name_ok_def)
    then show ?thesis
      using find_if_skip[of k "\<lambda>c. c = CHR ''=''" "CHR ''=''" "CHR 0x22 # v @ CHR 0x22 # y" s] by simp
  qed
  have 3: "find_if (\<lambda>c. c = CHR 0x22) (v @ CHR 0x22 # y @ s) s = CHR 0x22 # y @ s"
    using kv by (intro find_if_skip) (auto simp: attr_ok_def)
  have "seg (k @ ?e) ?e = k" by (rule seg_append)
  moreover have "seg (v @ CHR 0x22 # y @ s) (CHR 0x22 # y @ s) = v" by (rule seg_append)
  ultimately show ?thesis
    by (subst attributes_loop.simps) (simp add: 1 2 3 k(1)[symmetric] Let_def)
qed

lemma attributes_loop_attrs:
  assumes "\<forall>c \<in> set x. \<not> is_alpha c" "\<forall>kv \<in> set m. attr_ok kv" "\<forall>c \<in> set y. \<not> is_alpha c"
  shows "attributes_loop (x @ attrs_text m @ y @ s) s acc =
         Ok (fold (\<lambda>kv. attrs_emplace (fst kv) (snd kv)) m acc)"
  using assms
proof (induction m arbitrary: x acc)
  case Nil
  then show ?case using attributes_loop_end[of "x @ y" s acc] by auto
next
  case (Cons kv m)
  have "attributes_loop ((x @ '' '') @ fst kv @ CHR ''='' # CHR 0x22 # snd kv @ CHR 0x22 # (attrs_text m @ y) @ s) s acc =
      attributes_loop (CHR 0x22 # (attrs_text m @ y) @ s) s (attrs_emplace (fst kv) (snd kv) acc)"
    using Cons.prems not_alpha by (intro attributes_loop_attr) auto
  then show ?case using Cons.IH[of "[CHR 0x22]"] Cons.prems not_alpha by (simp add: print_attr_def[of kv])
qed

lemma fold_attrs_emplace:
  "distinct (map fst (acc @ m)) \<Longrightarrow> fold (\<lambda>kv. attrs_emplace (fst kv) (snd kv)) m acc = acc @ m"
  by (induction m arbitrary: acc) (auto simp: attrs_emplace_def)

text \<open>The end \<open>y\<close> of a tag, from behind the attributes.\<close>

definition tag_end :: "string \<Rightarrow> bool" where
  "tag_end y \<longleftrightarrow> (\<forall>c \<in> set y. \<not> is_alpha c) \<and> (\<exists>y'. y = CHR ''>'' # y' \<or> y = CHR '' '' # y')"

lemma attrs_text_end:
  assumes "tag_end y"
  obtains d r where "attrs_text m @ y = d # r" "d = CHR ''>'' \<or> d = CHR '' ''"
  using assms by (cases m) (auto simp: tag_end_def print_attr_def)

lemma read_tag_ok:
  assumes n: "name_ok n" and m: "\<forall>kv \<in> set m. attr_ok kv" "distinct (map fst m)" and y: "tag_end y"
  shows "read_tag (CHR ''<'' # n @ attrs_text m @ y @ s) s = Ok (Element n [] m [])"
proof -
  obtain d r where dr: "attrs_text m @ y = d # r" "d = CHR ''>'' \<or> d = CHR '' ''"
    using attrs_text_end[OF y] by metis
  then have d: "is_space d \<or> d = CHR ''>'' \<or> d = CHR ''/''" "d = CHR ''>'' \<or> is_space d"
    by (auto simp: is_space_def)
  have tx: "attrs_text m @ y @ s = d # r @ s" using dr(1) by (metis append_assoc append_Cons)
  have "find_if (\<lambda>c. is_space c \<or> c = CHR ''>'' \<or> c = CHR ''/'') (n @ d # r @ s) s = d # r @ s"
    using n name_char d by (intro find_if_skip) (auto simp: name_ok_def)
  then have name: "extract_name (CHR ''<'' # n @ d # r @ s) s = n"
    by (simp add: extract_name_def)
  have "find_if (\<lambda>c. c = CHR ''>'' \<or> is_space c) ((CHR ''<'' # n) @ d # r @ s) s = d # r @ s"
    using n name_char d by (intro find_if_skip) (auto simp: name_ok_def is_space_def)
  then have "extract_attributes (CHR ''<'' # n @ d # r @ s) s = attributes_loop ([] @ attrs_text m @ y @ s) s []"
    by (simp add: extract_attributes_def tx)
  also have "\<dots> = Ok m"
    using m y fold_attrs_emplace[of "[]" m] by (subst attributes_loop_attrs) (auto simp: tag_end_def)
  finally show ?thesis by (simp add: read_tag_def name tx)
qed

lemma determine_tag:
  assumes "u \<noteq> []" "hd u \<noteq> CHR ''/''" "hd u \<noteq> CHR ''!''" "CHR ''>'' \<notin> set u"
  shows "determine_token (CHR ''<'' # u @ CHR ''>'' # w @ s) s =
         (if last u = CHR ''/'' then T_OpenClose else T_Open)"
proof -
  have seg: "seg (CHR ''<'' # u @ CHR ''>'' # w @ s) s = CHR ''<'' # u @ CHR ''>'' # w"
    using seg_append[of "CHR ''<'' # u @ CHR ''>'' # w" s] by simp
  have n: "takeWhile (\<lambda>c. c \<noteq> CHR ''>'') (CHR ''<'' # u @ CHR ''>'' # w) = CHR ''<'' # u"
    using set_takeWhile_stop[of "CHR ''>''" "CHR ''<'' # u" w] assms(4) by simp
  define b where "b = CHR ''<'' # u @ CHR ''>'' # w @ s"
  obtain c u' where u: "u = c # u'" using assms(1) by (cases u) auto
  have "deref b = CHR ''<''" "deref (drop 1 b) \<noteq> CHR ''/''" "\<not> is_comment_start b"
    using assms(2,3) u by (auto simp: b_def deref_def is_comment_start_def)
  moreover have "b ! length u = last u"
    using assms(1) by (simp add: b_def nth_Cons' nth_append last_conv_nth)
  ultimately show ?thesis
    unfolding b_def[symmetric] determine_token_def
    by (simp add: seg[folded b_def] n Let_def del: takeWhile.simps)
qed

subsection \<open>The tokens of an element\<close>

definition open_tag :: "string \<Rightarrow> attrs \<Rightarrow> string" where
  "open_tag n m = CHR ''<'' # n @ attrs_text m @ ''>''"

definition single_tag :: "string \<Rightarrow> attrs \<Rightarrow> string" where
  "single_tag n m = CHR ''<'' # n @ attrs_text m @ '' />''"

definition close_tag :: "string \<Rightarrow> string" where
  "close_tag n = CHR ''<'' # CHR ''/'' # n @ ''>''"

text \<open>As printed, and after the gaps are removed.\<close>

fun raw_tokens :: "(attrs \<Rightarrow> attrs) \<Rightarrow> element \<Rightarrow> string list" where
  "raw_tokens ord (Element n c m ch) =
     (if c = [] \<and> ch = [] then [single_tag n (ord m)]
      else open_tag n (ord m) # (if c = [] then [] else [concat (map escape c)]) @
           concat (map (raw_tokens ord) ch) @ [close_tag n])"

fun element_tokens :: "(attrs \<Rightarrow> attrs) \<Rightarrow> element \<Rightarrow> string list" where
  "element_tokens ord (Element n c m ch) =
     (if c = [] \<and> ch = [] then [single_tag n (ord m)]
      else (if blank c then [open_tag n (ord m) @ c] else [open_tag n (ord m), concat (map escape c)]) @
           concat (map (element_tokens ord) ch) @ [close_tag n])"

text \<open>
  What is read back: a blank content is gone, any other is still escaped unless entity references
  are replaced.
\<close>

fun read_back :: "bool \<Rightarrow> (attrs \<Rightarrow> attrs) \<Rightarrow> element \<Rightarrow> element" where
  "read_back er ord (Element n c m ch) =
     Element n (if blank c then [] else if er then c else concat (map escape c)) (ord m) (map (read_back er ord) ch)"

lemma concat_raw_tokens: "concat (raw_tokens ord e) = print_element ord e"
proof (induction e)
  case (Element n c m ch)
  then have "concat (concat (map (raw_tokens ord) ch)) = concat (map (print_element ord) ch)"
    by (induction ch) auto
  then show ?case
    by (simp add: single_tag_def open_tag_def close_tag_def insert_entity_ref_escape)
qed

text \<open>The orders in which a hash map may iterate over its attributes.\<close>

definition attr_order :: "(attrs \<Rightarrow> attrs) \<Rightarrow> bool" where
  "attr_order ord \<longleftrightarrow> (\<forall>m. mset (ord m) = mset m)"

lemma ord_attrs:
  assumes "attr_order ord"
  shows "set (ord m) = set m" "distinct (map fst (ord m)) = distinct (map fst m)"
proof -
  have m: "mset (ord m) = mset m" using assms by (simp add: attr_order_def)
  then show "set (ord m) = set m" by (rule mset_eq_setD)
  have "mset (map fst (ord m)) = mset (map fst m)" using m by simp
  then show "distinct (map fst (ord m)) = distinct (map fst m)" by (rule mset_eq_imp_distinct_iff)
qed

lemma name_ok_chars:
  assumes "name_ok n"
  shows "CHR ''<'' \<notin> set n" "CHR ''>'' \<notin> set n" "NUL \<notin> set n"
    "hd n \<noteq> CHR ''!''" "hd n \<noteq> CHR ''/''" "hd n \<noteq> CHR ''?''" "last n \<noteq> CHR ''/''"
proof -
  have n: "\<forall>c \<in> set n. is_alpha c \<or> is_digit c" "hd n \<in> set n" "last n \<in> set n"
    using assms by (auto simp: name_ok_def)
  have no: "\<not> (is_alpha (CHR ''<'') \<or> is_digit (CHR ''<''))" "\<not> (is_alpha (CHR ''>'') \<or> is_digit (CHR ''>''))"
    "\<not> (is_alpha NUL \<or> is_digit NUL)" "\<not> (is_alpha (CHR ''!'') \<or> is_digit (CHR ''!''))"
    "\<not> (is_alpha (CHR ''/'') \<or> is_digit (CHR ''/''))" "\<not> (is_alpha (CHR ''?'') \<or> is_digit (CHR ''?''))"
    by (simp_all add: is_alpha_def is_digit_def)
  show "CHR ''<'' \<notin> set n" using n(1) no(1) by metis
  show "CHR ''>'' \<notin> set n" using n(1) no(2) by metis
  show "NUL \<notin> set n" using n(1) no(3) by metis
  show "hd n \<noteq> CHR ''!''" using n(1,2) no(4) by metis
  show "hd n \<noteq> CHR ''/''" using n(1,2) no(5) by metis
  show "hd n \<noteq> CHR ''?''" using n(1,2) no(6) by metis
  show "last n \<noteq> CHR ''/''" using n(1,3) no(5) by metis
qed

lemma print_attr_chars:
  assumes "attr_ok kv"
  shows "CHR ''<'' \<notin> set (print_attr kv)" "CHR ''>'' \<notin> set (print_attr kv)" "NUL \<notin> set (print_attr kv)"
  using assms name_ok_chars[of "fst kv"] by (auto simp: print_attr_def attr_ok_def)

lemma attrs_chars:
  assumes "\<forall>kv \<in> set m. attr_ok kv"
  shows "CHR ''<'' \<notin> set (attrs_text m)" "CHR ''>'' \<notin> set (attrs_text m)" "NUL \<notin> set (attrs_text m)"
  using assms print_attr_chars by auto

lemma tag_tokens:
  assumes n: "name_ok n" and m: "\<forall>kv \<in> set m. attr_ok kv"
  shows "tag_token (open_tag n m)" "tag_token (single_tag n m)" "tag_token (close_tag n)"
proof -
  obtain a n' where a: "n = a # n'" using n by (cases n) (auto simp: name_ok_def)
  note chars = name_ok_chars[OF n] attrs_chars[OF m]
  show "tag_token (open_tag n m)" unfolding tag_token_def
    by (rule exI[of _ a], rule exI[of _ "n' @ attrs_text m"]) (use a chars in \<open>simp add: open_tag_def\<close>)
  show "tag_token (single_tag n m)" unfolding tag_token_def
    by (rule exI[of _ a], rule exI[of _ "n' @ attrs_text m @ '' /''"])
       (use a chars in \<open>simp add: single_tag_def\<close>)
  show "tag_token (close_tag n)" unfolding tag_token_def
    by (rule exI[of _ "CHR ''/''"], rule exI[of _ n]) (use chars in \<open>simp add: close_tag_def\<close>)
qed

lemma text_tokens: "c \<noteq> [] \<Longrightarrow> text_token (concat (map escape c))"
  using escape_no_tag by (cases c) (auto simp: text_token_def)

lemma tokens_ok_True: "tokens_ok False ts \<Longrightarrow> tokens_ok True ts"
  by (cases ts) auto

lemma raw_tokens_ok:
  "attr_order ord \<Longrightarrow> element_ok e \<Longrightarrow> tokens_ok True ts \<Longrightarrow> tokens_ok b (raw_tokens ord e @ ts)"
proof (induction e arbitrary: b ts)
  case (Element n c m ch)
  have tags: "tag_token (open_tag n (ord m))" "tag_token (single_tag n (ord m))" "tag_token (close_tag n)"
    using tag_tokens[of n "ord m"] Element.prems ord_attrs(1)[of ord m] by auto
  have "tokens_ok b' (concat (map (raw_tokens ord) xs) @ close_tag n # ts)" if "set xs \<subseteq> set ch" for xs b'
    using that
  proof (induction xs arbitrary: b')
    case (Cons x xs)
    then show ?case using Element.IH[of x] Element.prems by auto
  qed (use tags Element.prems in simp)
  then show ?case using tags text_tokens[of c] Element.prems(3) by auto
qed

lemma element_gaps: "element_ok e \<Longrightarrow> gaps (raw_tokens ord e) (element_tokens ord e)"
proof (induction e)
  case (Element n c m ch)
  have ch: "gaps (concat (map (raw_tokens ord) xs)) (concat (map (element_tokens ord) xs))" if "set xs \<subseteq> set ch" for xs
    using that
  proof (induction xs)
    case (Cons x xs)
    then show ?case using Element.IH[of x] Element.prems gaps_append by auto
  qed (simp add: gaps_nil)
  have nb: "\<not> blank (open_tag n (ord m))" "\<not> blank (single_tag n (ord m))" "\<not> blank (close_tag n)"
    by (auto simp: open_tag_def single_tag_def close_tag_def is_space_def)
  have rest: "gaps (concat (map (raw_tokens ord) ch) @ [close_tag n])
      (concat (map (element_tokens ord) ch) @ [close_tag n])"
    using ch nb gaps_append gaps.intros by blast
  consider "c = []" "ch = []" | "c = []" "ch \<noteq> []" | "c \<noteq> []" "blank c" | "c \<noteq> []" "\<not> blank c" by blast
  then show ?case
  proof cases
    case 3
    then show ?thesis using gaps_blank[OF nb(1) _ rest, of c] blank_escape_id[of c] by simp
  next
    case 4
    then have "\<not> blank (concat (map escape c))" by (simp only: blank_escape) simp
    from gaps_cons[OF nb(1) gaps_cons[OF this rest]] 4 show ?thesis by auto
  qed (use nb rest in \<open>auto intro: gaps.intros\<close>)
qed

subsection \<open>Building the tree\<close>

lemma tag_end_simps: "tag_end ''>''" "tag_end '' />''" "blank w \<Longrightarrow> tag_end (CHR ''>'' # w)"
  using not_alpha space_not_alpha by (auto simp: tag_end_def)

lemma open_tag_read:
  assumes n: "name_ok n" and m: "\<forall>kv \<in> set m. attr_ok kv" "distinct (map fst m)" and w: "blank w"
  shows "determine_token (open_tag n m @ w @ s) s = T_Open"
    and "read_tag (open_tag n m @ w @ s) s = Ok (Element n [] m [])"
proof -
  note chars = name_ok_chars[OF n] attrs_chars[OF m(1)]
  have "last (n @ attrs_text m) \<noteq> CHR ''/''"
    using chars(7) by (cases m rule: rev_cases) (auto simp: print_attr_def)
  moreover have "n \<noteq> []" using n by (auto simp: name_ok_def)
  ultimately show "determine_token (open_tag n m @ w @ s) s = T_Open"
    using determine_tag[of "n @ attrs_text m" w s] chars by (simp add: open_tag_def)
  show "read_tag (open_tag n m @ w @ s) s = Ok (Element n [] m [])"
    using read_tag_ok[OF n m tag_end_simps(3)[OF w], of s] by (simp add: open_tag_def)
qed

lemma single_tag_read:
  assumes n: "name_ok n" and m: "\<forall>kv \<in> set m. attr_ok kv" "distinct (map fst m)"
  shows "determine_token (single_tag n m @ s) s = T_OpenClose"
    and "read_tag (single_tag n m @ s) s = Ok (Element n [] m [])"
proof -
  note chars = name_ok_chars[OF n] attrs_chars[OF m(1)]
  have "n \<noteq> []" using n by (auto simp: name_ok_def)
  then show "determine_token (single_tag n m @ s) s = T_OpenClose"
    using determine_tag[of "n @ attrs_text m @ '' /''" "[]" s] chars by (simp add: single_tag_def)
  show "read_tag (single_tag n m @ s) s = Ok (Element n [] m [])"
    using read_tag_ok[OF n m tag_end_simps(2), of s] by (simp add: single_tag_def)
qed

lemma close_tag_read: "determine_token (close_tag n @ s) s = T_Close"
  by (simp add: close_tag_def determine_token_def deref_def)

lemma text_read: 
  assumes "text_token t"
  shows "determine_token (t @ s) s = T_Content" "seg (t @ s) s = t"
proof -
  obtain c u where "t = c # u" "c \<noteq> CHR ''<''" using assms by (cases t) (auto simp: text_token_def)
  then show "determine_token (t @ s) s = T_Content" by (simp add: determine_token_def deref_def)
qed (rule seg_append)

lemma build_loop_token:
  "build_loop er (sufs (t # ts)) el below =
     (case determine_token (t @ concat ts) (concat ts) of
        T_Open \<Rightarrow> obind (read_tag (t @ concat ts) (concat ts)) (\<lambda>c. build_loop er (sufs ts) c (el # below))
      | T_OpenClose \<Rightarrow> obind (read_tag (t @ concat ts) (concat ts))
          (\<lambda>c. build_loop er (sufs ts) (append_child el c) below)
      | T_Close \<Rightarrow>
          (case below of [] \<Rightarrow> Ok el | p # ps \<Rightarrow> build_loop er (sufs ts) (append_child p el) ps)
      | T_Content \<Rightarrow> obind (append_content er (seg (t @ concat ts) (concat ts)) el)
          (\<lambda>t. build_loop er (sufs ts) t below)
      | T_Comment \<Rightarrow> build_loop er (sufs ts) el below
      | T_Error \<Rightarrow> Throw XmlException)"
proof -
  obtain xs where "sufs ts = concat ts # xs" by (rule sufs_hd)
  then show ?thesis
    by (cases "determine_token (t @ concat ts) (concat ts)") (simp_all split: list.split)
qed

text \<open>The children of an element, one after the other, and the content.\<close>

abbreviation append_children :: "element list \<Rightarrow> element \<Rightarrow> element" where
  "append_children cs e \<equiv> Element (el_name e) (el_content e) (el_attrs e) (el_children e @ cs)"

lemma build_children:
  assumes "\<And>x ts el below. x \<in> set ch \<Longrightarrow>
      build_loop er (sufs (element_tokens ord x @ ts)) el below =
      build_loop er (sufs ts) (append_child el (read_back er ord x)) below"
  shows "build_loop er (sufs (concat (map (element_tokens ord) ch) @ ts)) el below =
         build_loop er (sufs ts) (append_children (map (read_back er ord) ch) el) below"
  using assms
proof (induction ch arbitrary: el)
  case (Cons x ch)
  then show ?case by (simp add: append_child_def)
qed simp

lemma build_content:
  assumes "c \<noteq> []" "NUL \<notin> set c"
  shows "build_loop er (sufs (concat (map escape c) # ts)) (Element n [] m []) below =
         build_loop er (sufs ts) (Element n (if er then c else concat (map escape c)) m []) below"
  using text_read[OF text_tokens[OF assms(1)]] substitute_escaped[OF assms(2)]
  by (simp add: build_loop_token append_content_def with_content_def substitute_entity_ref_def
      del: sufs.simps)

text \<open>The element whose tag was just read, up to its closing tag.\<close>

lemma build_inner:
  assumes ok: "element_ok (Element n c m ch)" "c \<noteq> [] \<or> ch \<noteq> []"
    and ch: "\<And>x ts el below. x \<in> set ch \<Longrightarrow>
      build_loop er (sufs (element_tokens ord x @ ts)) el below =
      build_loop er (sufs ts) (append_child el (read_back er ord x)) below"
  shows "build_loop er (sufs (tl (element_tokens ord (Element n c m ch)) @ ts)) (Element n [] (ord m) []) below =
         build_loop er (sufs (close_tag n # ts)) (read_back er ord (Element n c m ch)) below"
proof (cases "blank c")
  case True
  then have tl: "tl (element_tokens ord (Element n c m ch)) @ ts =
      concat (map (element_tokens ord) ch) @ close_tag n # ts"
    using ok(2) by auto
  show ?thesis unfolding tl using True build_children[of ch er ord "close_tag n # ts", OF ch] by (simp del: sufs.simps)
next
  case False
  then have c: "c \<noteq> []" "ch = []" "NUL \<notin> set c" using ok by auto
  have tl: "tl (element_tokens ord (Element n c m ch)) @ ts = concat (map escape c) # close_tag n # ts"
    using c False by auto
  have "read_back er ord (Element n c m ch) = Element n (if er then c else concat (map escape c)) (ord m) []"
    using c False by auto
  then show ?thesis unfolding tl using build_content[OF c(1,3)] by (simp del: sufs.simps read_back.simps)
qed

lemma build_element:
  "attr_order ord \<Longrightarrow> element_ok e \<Longrightarrow>
   build_loop er (sufs (element_tokens ord e @ ts)) el below =
   build_loop er (sufs ts) (append_child el (read_back er ord e)) below"
proof (induction e arbitrary: ts el below)
  case (Element n c m ch)
  have n: "name_ok n" "\<forall>kv \<in> set (ord m). attr_ok kv" "distinct (map fst (ord m))"
    using Element.prems ord_attrs[of ord m] by auto
  show ?case
  proof (cases "c = [] \<and> ch = []")
    case True
    then have "element_tokens ord (Element n c m ch) @ ts = single_tag n (ord m) # ts" by simp
    then show ?thesis using True single_tag_read[OF n] by (simp add: build_loop_token del: sufs.simps element_tokens.simps)
  next
    case False
    obtain w where w: "blank w" "element_tokens ord (Element n c m ch) = (open_tag n (ord m) @ w) # tl (element_tokens ord (Element n c m ch))"
      using False by (cases "blank c") auto
    let ?rest = "tl (element_tokens ord (Element n c m ch))"
    have "build_loop er (sufs (element_tokens ord (Element n c m ch) @ ts)) el below =
        build_loop er (sufs (?rest @ ts)) (Element n [] (ord m) []) (el # below)"
      using open_tag_read[OF n w(1), of "concat (?rest @ ts)"]
      by (subst w(2)) (simp add: build_loop_token del: sufs.simps element_tokens.simps)
    also have "\<dots> = build_loop er (sufs (close_tag n # ts)) (read_back er ord (Element n c m ch)) (el # below)"
      using False Element by (intro build_inner) auto
    also have "\<dots> = build_loop er (sufs ts) (append_child el (read_back er ord (Element n c m ch))) below"
      by (simp add: build_loop_token close_tag_read del: sufs.simps read_back.simps)
    finally show ?thesis .
  qed
qed

subsection \<open>The whole text\<close>

lemma print_no_NUL: "attr_order ord \<Longrightarrow> element_ok e \<Longrightarrow> NUL \<notin> set (print_element ord e)"
proof (induction e)
  case (Element n c m ch)
  have "\<forall>kv \<in> set (ord m). attr_ok kv" "name_ok n" using Element.prems ord_attrs(1)[of ord m] by simp_all
  note chars = attrs_chars(3)[OF this(1)] name_ok_chars(3)[OF this(2)]
  have "NUL \<notin> set c" using Element.prems(2) by simp
  then have "\<forall>x \<in> set c. NUL \<notin> set (escape x)" using escape_NUL by metis
  then have "NUL \<notin> set (concat (map escape c))" by simp
  moreover have "NUL \<notin> set (concat (map (print_element ord) ch))" using Element by auto
  ultimately show ?case using chars by (simp add: insert_entity_ref_escape)
qed

text \<open>The first tag of an element, and what is built from it.\<close>

lemma root_tag:
  assumes ok: "attr_order ord" "element_ok e"
  obtains t ts where "element_tokens ord e = t # ts" "determine_token (t @ concat ts) (concat ts) \<noteq> T_Comment"
    "deref (t @ concat ts) = CHR ''<''" "deref (drop 1 (t @ concat ts)) \<noteq> CHR ''?''"
    "build_element_tree er (sufs (t # ts)) = Ok (read_back er ord e)"
proof (cases e)
  case (Element n c m ch)
  have n: "name_ok n" "\<forall>kv \<in> set (ord m). attr_ok kv" "distinct (map fst (ord m))"
    using ok ord_attrs[of ord m] by (auto simp: Element)
  have hd: "\<exists>a n'. n = a # n' \<and> a \<noteq> CHR ''?''"
    using name_ok_chars(6)[OF n(1)] n(1) by (cases n) (auto simp: name_ok_def)
  have tree: "build_element_tree er (sufs (t # ts)) =
      obind (read_tag (t @ concat ts) (concat ts)) (\<lambda>root. build_loop er (sufs ts) root [])" for er t ts
  proof -
    obtain xs where "sufs ts = concat ts # xs" by (rule sufs_hd)
    then show ?thesis by (simp add: build_element_tree_def)
  qed
  show ?thesis
  proof (cases "c = [] \<and> ch = []")
    case True
    show ?thesis
    proof (rule that[of "single_tag n (ord m)" "[]"])
      show "build_element_tree er (sufs [single_tag n (ord m)]) = Ok (read_back er ord e)"
        using single_tag_read(2)[OF n, of "[]"] True by (simp add: tree Element del: sufs.simps(2))
    qed (use True hd single_tag_read(1)[OF n, of "[]"] in \<open>auto simp: Element single_tag_def deref_def\<close>)
  next
    case False
    obtain w where w: "blank w" "element_tokens ord e = (open_tag n (ord m) @ w) # tl (element_tokens ord e)"
      using False unfolding Element by (cases "blank c") auto
    let ?ts = "tl (element_tokens ord e)"
    note opened = open_tag_read[OF n w(1), of "concat ?ts"]
    have "build_element_tree er (sufs ((open_tag n (ord m) @ w) # ?ts)) =
        build_loop er (sufs (?ts @ [])) (Element n [] (ord m) []) []"
      using opened(2) by (simp add: tree del: sufs.simps)
    also have "\<dots> = build_loop er (sufs [close_tag n]) (read_back er ord e) []"
      using False ok build_element[OF ok(1)] unfolding Element by (intro build_inner) auto
    also have "\<dots> = Ok (read_back er ord e)"
      using close_tag_read[of n "[]"]
      by (simp add: build_loop_token del: sufs.simps(2) read_back.simps)
    finally have built: "build_element_tree er (sufs ((open_tag n (ord m) @ w) # ?ts)) = Ok (read_back er ord e)" .
    have "determine_token ((open_tag n (ord m) @ w) @ concat ?ts) (concat ?ts) \<noteq> T_Comment"
      "deref ((open_tag n (ord m) @ w) @ concat ?ts) = CHR ''<''"
      "deref (drop 1 ((open_tag n (ord m) @ w) @ concat ?ts)) \<noteq> CHR ''?''"
      using opened(1) hd by (auto simp: open_tag_def deref_def)
    from that[OF w(2) this built] show ?thesis .
  qed
qed

abbreviation doc_of :: "element \<Rightarrow> document" where
  "doc_of e \<equiv> \<lparr>doc_root = e, doc_version = [], doc_encoding = [], doc_standalone = []\<rparr>"

lemma xml_parses:
  assumes "element_ok e" and "attr_order ord"
  shows "parse_string (print_element ord e) er = Ok (doc_of (read_back er ord e))"
proof -
  let ?raw = "raw_tokens ord e" and ?toks = "element_tokens ord e"
  have "?raw \<noteq> []" by (cases e) simp
  then obtain r rs where raw: "?raw = r # rs" by (cases ?raw) auto
  have gaps: "remove_gaps (sufs ?raw) = sufs ?toks" "concat ?toks = concat ?raw"
    using remove_gaps_sufs[OF element_gaps[OF assms(1)]] by auto
  have ok: "tokens_ok False ?raw" using raw_tokens_ok[OF assms(2,1), of "[]" False] by simp
  have "tokenize (print_element ord e) = Ok (sufs ?raw)"
    using tokenize_tokens[of r rs] ok raw concat_raw_tokens[of ord e] by simp
  moreover have "remove_inside_comments None (sufs ?toks) = sufs ?toks"
    using lt_ok_tokens[OF ok] gaps(2) by (intro remove_inside_comments_sufs) simp
  moreover obtain t ts where t: "?toks = t # ts" "determine_token (t @ concat ts) (concat ts) \<noteq> T_Comment"
    "deref (t @ concat ts) = CHR ''<''" "deref (drop 1 (t @ concat ts)) \<noteq> CHR ''?''"
    "build_element_tree er (sufs (t # ts)) = Ok (read_back er ord e)"
    using root_tag[OF assms(2,1)] by metis
  moreover obtain xs where "sufs ts = concat ts # xs" by (rule sufs_hd)
  ultimately have "parse_document er (print_element ord e) =
      Ok (doc_of (read_back er ord e))"
    using gaps(1) by (simp add: parse_document_def)
  moreover have "takeWhile (\<lambda>c. c \<noteq> NUL) (print_element ord e) = print_element ord e"
    using print_no_NUL[OF assms(2,1)] by (intro iffD2[OF takeWhile_eq_all_conv]) blast
  ultimately show ?thesis by (simp only: parse_string_def)
qed

text \<open>
  C18. What the printer writes, the parser reads back, for every element of the documents the
  program exchanges and in every order of the attributes: the same names, the same attributes, the
  same children.  With entity references replaced the content is the same too, except that a blank
  one is lost; without, as in \<open>Deserialize\<close>, it comes back the way it was escaped.
\<close>

theorem xml_roundtrip:
  assumes "element_ok e" and "attr_order ord"
  shows "parse_string (print_element ord e) er = Ok (doc_of (read_back er ord e)) \<and>
         (\<not> blank (el_content e) \<longrightarrow> el_content (read_back True ord e) = el_content e) \<and>
         (\<not> blank (el_content e) \<longrightarrow> el_content (read_back False ord e) = insert_entity_ref (el_content e)) \<and>
         mset (el_attrs (read_back er ord e)) = mset (el_attrs e)"
  using xml_parses[OF assms] assms(2)
  by (cases e) (simp add: insert_entity_ref_escape attr_order_def)

theorem xml_roundtrip_witness:
  "parse_string (print_element rev (Element ''Offer'' [] [(''round'', ''12''), (''x'', [])] [Element ''Mac'' ''5c<b9'' [] []])) True =
   Ok (doc_of (Element ''Offer'' [] [(''x'', []), (''round'', ''12'')] [Element ''Mac'' ''5c<b9'' [] []]))"
proof -
  let ?e = "Element ''Offer'' [] [(''round'', ''12''), (''x'', [])] [Element ''Mac'' ''5c<b9'' [] []]"
  have "element_ok ?e" by code_simp
  moreover have "read_back True rev ?e =
      Element ''Offer'' [] [(''x'', []), (''round'', ''12'')] [Element ''Mac'' ''5c<b9'' [] []]"
    by code_simp
  ultimately show ?thesis using xml_roundtrip[of ?e rev True] by (simp add: attr_order_def)
qed

text \<open>
  Escaping and replacing entity references are inverse: \<open>SubstituteEntityRef\<close> ends on every
  content the printer has escaped and restores it, and an escaped content has no character that
  could open or close a tag.
\<close>

theorem entity_refs_roundtrip:
  assumes "NUL \<notin> set s"
  shows "substitute_entity_ref (insert_entity_ref s) = Some s \<and>
         CHR ''<'' \<notin> set (insert_entity_ref s) \<and> CHR ''>'' \<notin> set (insert_entity_ref s)"
  using substitute_escaped[OF assms] escape_no_tag(1,2)
  by (simp add: insert_entity_ref_escape substitute_entity_ref_def)

theorem entity_refs_roundtrip_witness:
  "substitute_entity_ref (insert_entity_ref ''a&b<c'') = Some ''a&b<c''"
  using entity_refs_roundtrip[of "''a&b<c''"] by simp

end
