(* ===== verification/Serializer.thy ===== *)
theory Serializer
  imports Xml_Roundtrip Dice
begin

text \<open>
  \<open>XmlSerializer\<close> (dice/serializer.cpp): the messages of the game as XML documents, and back.
  \<open>ord\<close> is the order in which a hash map iterates over the attributes of an element.
\<close>

subsection \<open>Writing\<close>

definition on_root :: "(element \<Rightarrow> element) \<Rightarrow> document \<Rightarrow> document" where
  "on_root f d = d\<lparr>doc_root := f (doc_root d)\<rparr>"

definition try_on_root :: "(element \<Rightarrow> element outcome) \<Rightarrow> document \<Rightarrow> document outcome" where
  "try_on_root f d = obind (f (doc_root d)) (\<lambda>e. Ok (d\<lparr>doc_root := e\<rparr>))"

text \<open>\<open>RequestToXml\<close> and \<open>ResponseToXml\<close>\<close>

definition request_to_xml :: "string \<Rightarrow> cast \<Rightarrow> document" where
  "request_to_xml type c =
     on_root (add_attribute ''size'' (to_string (cast_size c)))
       (on_root (add_attribute ''type'' type) (new_document ''Request''))"

fun add_values :: "u32 list \<Rightarrow> element \<Rightarrow> element outcome" where
  "add_values [] e = Ok e"
| "add_values (val # vals) e =
     obind (add_child ''Val'' (set_content (to_string (unat val))) e) (add_values vals)"

definition response_to_xml :: "string \<Rightarrow> cast \<Rightarrow> document outcome" where
  "response_to_xml type c =
     try_on_root (add_values (cast_vals c))
       (on_root (add_attribute ''size'' (to_string (cast_size c)))
         (on_root (add_attribute ''type'' type) (new_document ''Response'')))"

definition serialize_request :: "(attrs \<Rightarrow> attrs) \<Rightarrow> request \<Rightarrow> string outcome" where
  "serialize_request ord request =
     (let doc = request_to_xml (type_to_string (rq_cast request)) (rq_cast request);
          doc' = (case rq_threshold request of
                    None \<Rightarrow> doc
                  | Some t \<Rightarrow> on_root (add_attribute ''successFrom'' (to_string (unat t))) doc)
      in Ok (doc_to_string ord doc'))"

definition serialize_response :: "(attrs \<Rightarrow> attrs) \<Rightarrow> response \<Rightarrow> string outcome" where
  "serialize_response ord response =
     obind (response_to_xml (type_to_string (rs_cast response)) (rs_cast response)) (\<lambda>doc.
       let doc' = (case rs_successCount response of
                     None \<Rightarrow> doc
                   | Some n \<Rightarrow> on_root (add_attribute ''successCount'' (to_string (unat n))) doc)
       in Ok (doc_to_string ord doc'))"

definition serialize_hello :: "(attrs \<Rightarrow> attrs) \<Rightarrow> hello \<Rightarrow> string outcome" where
  "serialize_hello ord hello =
     obind (try_on_root (add_child ''Mac'' (set_content (hl_mac hello))) (new_document ''Hello''))
       (\<lambda>doc. Ok (doc_to_string ord doc))"

definition serialize_offer :: "(attrs \<Rightarrow> attrs) \<Rightarrow> offer \<Rightarrow> string outcome" where
  "serialize_offer ord offer =
     obind (try_on_root (add_child ''Mac'' (set_content (of_mac offer)))
              (on_root (add_attribute ''round'' (to_string (unat (of_round offer)))) (new_document ''Offer'')))
       (\<lambda>doc. Ok (doc_to_string ord doc))"

subsection \<open>Reading\<close>

text \<open>\<open>try { ... } catch (const xml::Exception &) {}\<close> around an assignment to an optional.\<close>

definition catch_xml :: "'a outcome \<Rightarrow> 'a option outcome" where
  "catch_xml r =
     (case r of Ok a \<Rightarrow> Ok (Some a) | Throw XmlException \<Rightarrow> Ok None | Throw e \<Rightarrow> Throw e | Undef \<Rightarrow> Undef)"

definition parse_request :: "element \<Rightarrow> message outcome" where
  "parse_request root =
     obind (get_attribute_value ''type'' root) (\<lambda>type.
     obind (obind (get_attribute_value ''size'' root) stoul) (\<lambda>n.
     obind (catch_xml (obind (get_attribute_value ''successFrom'' root) stoul)) (\<lambda>successFrom.
     obind (make_cast type n) (\<lambda>c.
       Ok (MRequest \<lparr>rq_cast = c, rq_threshold = map_option of_nat successFrom\<rparr>)))))"

text \<open>The loop over the values, from index \<open>i\<close> on.\<close>

fun parse_values :: "nat \<Rightarrow> nat \<Rightarrow> element \<Rightarrow> u32 list outcome" where
  "parse_values 0 i root = Ok []"
| "parse_values (Suc k) i root =
     obind (obind (get_child_at i root) (\<lambda>c. stoul (el_content c))) (\<lambda>v.
     obind (parse_values k (Suc i) root) (\<lambda>vs. Ok (of_nat v # vs)))"

definition parse_response :: "element \<Rightarrow> message outcome" where
  "parse_response root =
     obind (get_attribute_value ''type'' root) (\<lambda>type.
     obind (obind (get_attribute_value ''size'' root) stoul) (\<lambda>n.
     obind (make_cast type n) (\<lambda>c.
     obind (parse_values n 0 root) (\<lambda>vals.
     obind (catch_xml (obind (get_attribute_value ''successCount'' root) stoul)) (\<lambda>successCount.
       Ok (MResponse \<lparr>rs_cast = cast_update (\<lambda>_. vals) c,
                      rs_successCount = map_option of_nat successCount\<rparr>))))))"

definition parse_hello :: "element \<Rightarrow> message outcome" where
  "parse_hello root = obind (get_child ''Mac'' root) (\<lambda>c. Ok (MHello \<lparr>hl_mac = el_content c\<rparr>))"

definition parse_offer :: "element \<Rightarrow> message outcome" where
  "parse_offer root =
     obind (get_child ''Mac'' root) (\<lambda>c.
     obind (obind (get_attribute_value ''round'' root) stoi) (\<lambda>r.
       Ok (MOffer \<lparr>of_mac = el_content c, of_round = of_int r\<rparr>)))"

definition deserialize :: "string \<Rightarrow> message outcome" where
  "deserialize message =
     obind (parse_string message False) (\<lambda>doc.
       let root = doc_root doc; name = el_name root in
       if name = ''Request'' then parse_request root
       else if name = ''Response'' then parse_response root
       else if name = ''Hello'' then parse_hello root
       else if name = ''Offer'' then parse_offer root
       else Throw InvalidArgument)"

subsection \<open>Round trips\<close>

text \<open>What reading makes of a document with root \<open>e\<close>.\<close>

definition read_message :: "element \<Rightarrow> message outcome" where
  "read_message root =
     (let name = el_name root in
      if name = ''Request'' then parse_request root
      else if name = ''Response'' then parse_response root
      else if name = ''Hello'' then parse_hello root
      else if name = ''Offer'' then parse_offer root
      else Throw InvalidArgument)"

lemma deserialize_print:
  assumes "element_ok e" "attr_order ord"
  shows "deserialize (doc_to_string ord (doc_of e)) = read_message (read_back False ord e)"
proof -
  have "parse_string (doc_to_string ord (doc_of e)) False = Ok (doc_of (read_back False ord e))"
    using xml_parses[OF assms] by (simp add: doc_to_string_def)
  then show ?thesis by (simp add: deserialize_def read_message_def Let_def)
qed

lemma map_of_ord:
  assumes "attr_order ord" "distinct (map fst m)"
  shows "map_of (ord m) k = map_of m k"
  using ord_attrs[OF assms(1), of m] assms(2) by (metis map_of_inject_set)

lemma digits_chars:
  "NUL \<notin> set (to_string n)" "\<forall>c \<in> set (to_string n). \<not> special c" "\<not> blank (to_string n)"
proof -
  have d: "\<forall>c \<in> set (to_string n). is_digit c" by (rule to_string_digits)
  have no: "\<not> is_digit NUL" "\<And>c. is_digit c \<Longrightarrow> \<not> special c" "\<And>c. is_digit c \<Longrightarrow> \<not> is_space c"
    by (auto simp: is_digit_def special_iff is_space_def)
  show "NUL \<notin> set (to_string n)" using d no(1) by metis
  show "\<forall>c \<in> set (to_string n). \<not> special c" using d no(2) by blast
  have "hd (to_string n) \<in> set (to_string n)" by simp
  then show "\<not> blank (to_string n)" using d no(3) by blast
qed

lemma digits_attr_ok: "name_ok k \<Longrightarrow> is_alpha (hd k) \<Longrightarrow> attr_ok (k, to_string n)"
  using to_string_digits[of n] by (auto simp: attr_ok_def is_digit_def)

lemma type_attr_ok: "attr_ok (''type'', type_to_string c)"
  by (cases c) (simp_all add: attr_ok_def name_ok_def is_alpha_def is_digit_def)

lemma word_names:
  "name_ok ''type''" "name_ok ''size''" "name_ok ''successFrom''" "name_ok ''successCount''" "name_ok ''round''"
  "name_ok ''Request''" "name_ok ''Response''" "name_ok ''Hello''" "name_ok ''Offer''" "name_ok ''Mac''" "name_ok ''Val''"
  "is_alpha (CHR ''s'')" "is_alpha (CHR ''r'')"
  by (simp_all add: name_ok_def is_alpha_def)

lemma read_digits: "read_back False ord (Element n (to_string v) [] []) = Element n (to_string v) (ord []) []"
  using digits_chars[of v] concat_escape_id[of "to_string v"] by auto

text \<open>The elements that are written.\<close>

definition mac_element :: "string \<Rightarrow> element" where
  "mac_element mac = Element ''Mac'' mac [] []"

definition cast_attrs :: "cast \<Rightarrow> string \<Rightarrow> nat option \<Rightarrow> attrs" where
  "cast_attrs c key n = [(''type'', type_to_string c), (''size'', to_string (cast_size c))] @
     (case n of None \<Rightarrow> [] | Some v \<Rightarrow> [(key, to_string v)])"

definition val_element :: "u32 \<Rightarrow> element" where
  "val_element v = Element ''Val'' (to_string (unat v)) [] []"

lemma serialize_hello_element:
  "serialize_hello ord h = Ok (doc_to_string ord (doc_of (Element ''Hello'' [] [] [mac_element (hl_mac h)])))"
  by (simp add: serialize_hello_def try_on_root_def add_child_def set_content_def new_document_def
      new_element_def append_child_def with_content_def mac_element_def)

lemma serialize_offer_element:
  "serialize_offer ord v = Ok (doc_to_string ord (doc_of
     (Element ''Offer'' [] [(''round'', to_string (unat (of_round v)))] [mac_element (of_mac v)])))"
  by (simp add: serialize_offer_def try_on_root_def on_root_def add_child_def add_attribute_def set_content_def
      new_document_def new_element_def append_child_def with_content_def mac_element_def)

lemma serialize_request_element:
  "serialize_request ord r = Ok (doc_to_string ord (doc_of
     (Element ''Request'' [] (cast_attrs (rq_cast r) ''successFrom'' (map_option unat (rq_threshold r))) [])))"
  by (simp add: serialize_request_def request_to_xml_def on_root_def add_attribute_def new_document_def
      new_element_def cast_attrs_def split: option.split)

lemma add_values_ok:
  "el_content e = [] \<Longrightarrow>
   add_values vals e = Ok (Element (el_name e) [] (el_attrs e) (el_children e @ map val_element vals))"
  by (induction vals arbitrary: e)
     (auto simp: add_child_def set_content_def new_element_def append_child_def with_content_def val_element_def
       intro: element.expand)

lemma serialize_response_element:
  "serialize_response ord r = Ok (doc_to_string ord (doc_of
     (Element ''Response'' [] (cast_attrs (rs_cast r) ''successCount'' (map_option unat (rs_successCount r)))
        (map val_element (cast_vals (rs_cast r))))))"
  by (simp add: serialize_response_def response_to_xml_def try_on_root_def on_root_def add_attribute_def
      new_document_def new_element_def add_values_ok cast_attrs_def split: option.split)

text \<open>They can be told from their printed form.\<close>

lemma mac_element_ok: "NUL \<notin> set mac \<Longrightarrow> element_ok (mac_element mac)"
  by (simp add: mac_element_def word_names)

lemma val_element_ok: "element_ok (val_element v)"
  by (simp add: val_element_def word_names digits_chars)

lemma cast_attrs_ok:
  assumes "key = ''successFrom'' \<or> key = ''successCount''"
  shows "\<forall>kv \<in> set (cast_attrs c key n). attr_ok kv" "distinct (map fst (cast_attrs c key n))"
  using assms by (auto simp: cast_attrs_def type_attr_ok digits_attr_ok word_names split: option.split)

text \<open>What the attributes say.\<close>

lemma get_cast_attrs:
  assumes "attr_order ord" "el_attrs e = ord (cast_attrs c key n)" "key = ''successFrom'' \<or> key = ''successCount''"
  shows "get_attribute_value ''type'' e = Ok (type_to_string c)"
    and "get_attribute_value ''size'' e = Ok (to_string (cast_size c))"
    and "get_attribute_value key e = (case n of None \<Rightarrow> Throw XmlException | Some v \<Rightarrow> Ok (to_string v))"
  using map_of_ord[OF assms(1) cast_attrs_ok(2)[OF assms(3)]] assms(2,3)
  by (auto simp: get_attribute_value_def cast_attrs_def split: option.split)

text \<open>What arrives of an address: its special characters stay escaped, and a blank one is lost.\<close>

definition carried_mac :: "string \<Rightarrow> string" where
  "carried_mac mac = (if blank mac then [] else insert_entity_ref mac)"

definition plain_mac :: "string \<Rightarrow> bool" where
  "plain_mac mac \<longleftrightarrow> \<not> blank mac \<and> (\<forall>c \<in> set mac. \<not> special c \<and> c \<noteq> NUL)"

lemma carried_plain_mac: "plain_mac mac \<Longrightarrow> carried_mac mac = mac"
  unfolding plain_mac_def carried_mac_def insert_entity_ref_escape using concat_escape_id by auto

lemma read_mac: "read_back False ord (mac_element mac) = Element ''Mac'' (carried_mac mac) (ord []) []"
  by (simp add: mac_element_def carried_mac_def insert_entity_ref_escape)

lemma hello_parses:
  assumes "attr_order ord" "NUL \<notin> set (hl_mac h)" "serialize_hello ord h = Ok s"
  shows "deserialize s = Ok (MHello \<lparr>hl_mac = carried_mac (hl_mac h)\<rparr>)"
proof -
  let ?e = "Element ''Hello'' [] [] [mac_element (hl_mac h)]"
  have "element_ok ?e" using assms(2) by (simp add: mac_element_ok word_names)
  then have "deserialize s = parse_hello (read_back False ord ?e)"
    using assms deserialize_print[OF _ assms(1), of ?e]
    by (simp add: serialize_hello_element read_message_def del: element_ok.simps)
  then show ?thesis by (simp add: read_mac parse_hello_def get_child_def)
qed

lemma offer_parses:
  assumes "attr_order ord" "NUL \<notin> set (of_mac v)" "serialize_offer ord v = Ok s"
  shows "deserialize s = (if unat (of_round v) < 2 ^ 31
     then Ok (MOffer \<lparr>of_mac = carried_mac (of_mac v), of_round = of_round v\<rparr>) else Throw OutOfRange)"
proof -
  let ?m = "[(''round'', to_string (unat (of_round v)))]"
  let ?e = "Element ''Offer'' [] ?m [mac_element (of_mac v)]"
  have "element_ok ?e" using assms(2) by (simp add: mac_element_ok word_names digits_attr_ok)
  then have "deserialize s = parse_offer (read_back False ord ?e)"
    using assms deserialize_print[OF _ assms(1), of ?e]
    by (simp add: serialize_offer_element read_message_def del: element_ok.simps)
  moreover have "map_of (ord ?m) ''round'' = Some (to_string (unat (of_round v)))"
    using map_of_ord[OF assms(1), of ?m] by simp
  ultimately show ?thesis
    by (simp add: read_mac parse_offer_def get_child_def get_attribute_value_def stoi_to_string)
qed

lemma catch_stoul:
  "(case n of None \<Rightarrow> True | Some v \<Rightarrow> v < 2 ^ 64) \<Longrightarrow>
   catch_xml (obind (case n of None \<Rightarrow> Throw XmlException | Some v \<Rightarrow> Ok (to_string v)) stoul) = Ok n"
  by (auto simp: catch_xml_def stoul_to_string split: option.splits)

lemma request_parses:
  assumes "attr_order ord" "cast_size (rq_cast r) < 2 ^ 64" "serialize_request ord r = Ok s"
  shows "deserialize s = Ok (MRequest (r\<lparr>rq_cast := cast_update (map (\<lambda>_. 0)) (rq_cast r)\<rparr>))"
proof -
  let ?m = "cast_attrs (rq_cast r) ''successFrom'' (map_option unat (rq_threshold r))"
  let ?e = "Element ''Request'' [] ?m []"
  have "element_ok ?e" using cast_attrs_ok[of "''successFrom''"] by (simp add: word_names)
  then have d: "deserialize s = parse_request (read_back False ord ?e)"
    using assms deserialize_print[OF _ assms(1), of ?e]
    by (simp add: serialize_request_element read_message_def del: element_ok.simps)
  have "unat t < 2 ^ 64" for t :: u32 using unsigned_less[of t, where ?'a=nat] by simp
  then have "case map_option unat (rq_threshold r) of None \<Rightarrow> True | Some v \<Rightarrow> v < 2 ^ 64"
    by (auto split: option.split)
  note n = catch_stoul[OF this]
  have "cast_update (\<lambda>_. replicate (cast_size (rq_cast r)) 0) (rq_cast r) = cast_update (map (\<lambda>_. 0)) (rq_cast r)"
    by (intro cast_eqI) (simp_all add: map_replicate_const)
  moreover have "\<lparr>rq_cast = c, rq_threshold = rq_threshold r\<rparr> = r\<lparr>rq_cast := c\<rparr>" for c
    by (cases r) simp
  ultimately show ?thesis
    using assms(2) n get_cast_attrs[OF assms(1), of "read_back False ord ?e" "rq_cast r" "''successFrom''"]
    by (simp add: d parse_request_def stoul_to_string make_cast_type_to_string option.map_comp comp_def option.map_ident)
qed

lemma parse_values_ok:
  assumes "el_children e = map (read_back False ord \<circ> val_element) vals" "i + k = length vals"
  shows "parse_values k i e = Ok (drop i vals)"
  using assms(2)
proof (induction k arbitrary: i)
  case (Suc k)
  have "unat (vals ! i) < 2 ^ 64" using unsigned_less[of "vals ! i", where ?'a=nat] by simp
  moreover have "drop i vals = vals ! i # drop (Suc i) vals" using Suc.prems by (simp add: Cons_nth_drop_Suc)
  ultimately show ?case using Suc assms(1)
    by (simp add: get_child_at_def val_element_def read_digits stoul_to_string del: read_back.simps)
qed simp

lemma response_parses:
  assumes "attr_order ord" "cast_size (rs_cast r) < 2 ^ 64" "serialize_response ord r = Ok s"
  shows "deserialize s = Ok (MResponse r)"
proof -
  let ?m = "cast_attrs (rs_cast r) ''successCount'' (map_option unat (rs_successCount r))"
  let ?e = "Element ''Response'' [] ?m (map val_element (cast_vals (rs_cast r)))"
  have "element_ok ?e" using cast_attrs_ok[of "''successCount''"] val_element_ok by (simp add: word_names)
  then have d: "deserialize s = parse_response (read_back False ord ?e)"
    using assms deserialize_print[OF _ assms(1), of ?e]
    by (simp add: serialize_response_element read_message_def del: element_ok.simps)
  have "unat t < 2 ^ 64" for t :: u64 using unsigned_less[of t, where ?'a=nat] by simp
  then have "case map_option unat (rs_successCount r) of None \<Rightarrow> True | Some v \<Rightarrow> v < 2 ^ 64"
    by (auto split: option.split)
  note n = catch_stoul[OF this]
  define root where "root = read_back False ord ?e"
  have root: "el_attrs root = ord ?m" "el_children root = map (read_back False ord \<circ> val_element) (cast_vals (rs_cast r))"
    by (simp_all add: root_def)
  have "parse_values (cast_size (rs_cast r)) 0 root = Ok (cast_vals (rs_cast r))"
    using parse_values_ok[OF root(2), of 0] by simp
  moreover have "cast_update (\<lambda>_. cast_vals (rs_cast r)) (rs_cast r) = rs_cast r"
    by (intro cast_eqI) simp_all
  ultimately show ?thesis
    using assms(2) n get_cast_attrs[OF assms(1) root(1)]
    by (simp add: d[folded root_def] parse_response_def stoul_to_string make_cast_type_to_string
        option.map_comp comp_def option.map_ident)
qed

subsection \<open>The contract of a message codec\<close>

text \<open>
  What the state machine needs of the pair of \<open>Serialize\<close> and \<open>Deserialize\<close> for one type of message:
  messages that fit are encoded, and decoding gives what the encoding carries of them.
\<close>

locale codec =
  fixes enc :: "'m \<Rightarrow> string outcome"
    and dec :: "string \<Rightarrow> message outcome"
    and carried :: "'m \<Rightarrow> message outcome"
    and fits :: "'m \<Rightarrow> bool"
  assumes enc_ok: "fits m \<Longrightarrow> \<exists>s. enc m = Ok s"
    and dec_enc: "fits m \<Longrightarrow> enc m = Ok s \<Longrightarrow> dec s = carried m"
begin

lemma transport: "fits m \<Longrightarrow> obind (enc m) dec = carried m"
  using enc_ok[of m] dec_enc[of m] by auto

lemma never_confused: "fits m \<Longrightarrow> fits n \<Longrightarrow> enc m = enc n \<Longrightarrow> carried m = carried n"
  using enc_ok dec_enc by metis

end

interpretation hello: codec "serialize_hello ord" deserialize
  "\<lambda>h. Ok (MHello \<lparr>hl_mac = carried_mac (hl_mac h)\<rparr>)" "\<lambda>h. attr_order ord \<and> NUL \<notin> set (hl_mac h)" for ord
  by unfold_locales (auto intro: hello_parses simp: serialize_hello_element)

interpretation offer: codec "serialize_offer ord" deserialize
  "\<lambda>v. if unat (of_round v) < 2 ^ 31 then Ok (MOffer (v\<lparr>of_mac := carried_mac (of_mac v)\<rparr>)) else Throw OutOfRange"
  "\<lambda>v. attr_order ord \<and> NUL \<notin> set (of_mac v)" for ord
proof
  fix m s assume "attr_order ord \<and> NUL \<notin> set (of_mac m)" "serialize_offer ord m = Ok s"
  moreover have "m\<lparr>of_mac := c\<rparr> = \<lparr>of_mac = c, of_round = of_round m\<rparr>" for c by (cases m) simp
  ultimately show "deserialize s = (if unat (of_round m) < 2 ^ 31
      then Ok (MOffer (m\<lparr>of_mac := carried_mac (of_mac m)\<rparr>)) else Throw OutOfRange)"
    using offer_parses[of ord m s] by simp
qed (simp add: serialize_offer_element)

interpretation request: codec "serialize_request ord" deserialize
  "\<lambda>r. Ok (MRequest (r\<lparr>rq_cast := cast_update (map (\<lambda>_. 0)) (rq_cast r)\<rparr>))"
  "\<lambda>r. attr_order ord \<and> cast_size (rq_cast r) < 2 ^ 64" for ord
  by unfold_locales (auto intro: request_parses simp: serialize_request_element)

interpretation response: codec "serialize_response ord" deserialize
  "\<lambda>r. Ok (MResponse r)" "\<lambda>r. attr_order ord \<and> cast_size (rs_cast r) < 2 ^ 64" for ord
  by unfold_locales (auto intro: response_parses simp: serialize_response_element)

subsection \<open>Properties\<close>

text \<open>
  C16. A hello and an offer arrive as they were sent, in every order of the attributes, when the
  address has none of the five special characters and is not blank; special characters of an
  address arrive escaped, since \<open>Deserialize\<close> does not replace entity references; an offer of a
  round from \<open>2^31\<close> on cannot be read at all.
\<close>

theorem address_messages_roundtrip:
  assumes "attr_order ord" and "NUL \<notin> set mac"
  shows "obind (serialize_hello ord \<lparr>hl_mac = mac\<rparr>) deserialize = Ok (MHello \<lparr>hl_mac = carried_mac mac\<rparr>) \<and>
         obind (serialize_offer ord \<lparr>of_mac = mac, of_round = r\<rparr>) deserialize =
           (if unat r < 2 ^ 31 then Ok (MOffer \<lparr>of_mac = carried_mac mac, of_round = r\<rparr>) else Throw OutOfRange) \<and>
         (plain_mac mac \<longrightarrow> carried_mac mac = mac) \<and>
         (\<not> blank mac \<longrightarrow> carried_mac mac = concat (map escape mac))"
  using hello.transport[of ord "\<lparr>hl_mac = mac\<rparr>"] offer.transport[of ord "\<lparr>of_mac = mac, of_round = r\<rparr>"] assms
    carried_plain_mac[of mac] carried_mac_def[of mac] insert_entity_ref_escape[of mac]
  by auto

theorem address_messages_roundtrip_witness:
  "obind (serialize_offer rev \<lparr>of_mac = ''5C:B9:01'', of_round = 7\<rparr>) deserialize =
     Ok (MOffer \<lparr>of_mac = ''5C:B9:01'', of_round = 7\<rparr>)"
proof -
  have "plain_mac ''5C:B9:01''" by code_simp
  then show ?thesis using address_messages_roundtrip[of rev "''5C:B9:01''" 7] by (simp add: attr_order_def)
qed

text \<open>
  C15. A request arrives as it was sent but for the values of its dice, which nobody has thrown yet,
  and a response arrives exactly as it was sent, for every number of dice and every threshold.
\<close>

theorem cast_messages_roundtrip:
  assumes "attr_order ord" and "cast_size (rq_cast q) < 2 ^ 64" and "cast_size (rs_cast r) < 2 ^ 64"
  shows "obind (serialize_request ord q) deserialize =
           Ok (MRequest (q\<lparr>rq_cast := cast_update (map (\<lambda>_. 0)) (rq_cast q)\<rparr>)) \<and>
         obind (serialize_response ord r) deserialize = Ok (MResponse r)"
  using request.transport[of ord q] response.transport[of ord r] assms by simp

theorem cast_messages_roundtrip_witness:
  "obind (serialize_response rev \<lparr>rs_cast = D100 [7, 100], rs_successCount = Some 1\<rparr>) deserialize =
     Ok (MResponse \<lparr>rs_cast = D100 [7, 100], rs_successCount = Some 1\<rparr>)"
  using cast_messages_roundtrip[of rev "\<lparr>rq_cast = D4 [], rq_threshold = None\<rparr>"
      "\<lparr>rs_cast = D100 [7, 100], rs_successCount = Some 1\<rparr>"]
  by (simp add: attr_order_def)

lemma tokenize_loop_blank: "blank s \<Longrightarrow> is_space c \<Longrightarrow> tokenize_loop c s = [[]]"
proof (induction s arbitrary: c)
  case (Cons d s)
  have "\<not> is_space (CHR ''<'')" "\<not> is_space (CHR ''>'')" by (simp_all add: is_space_def)
  then show ?case using Cons by auto
qed simp

text \<open>
  C36. A message that is empty or blank, or has a null character before the first visible one,
  makes \<open>Deserialize\<close> read behind the text or behind the list of tokens: it has no defined result,
  whereas every message the program writes itself has one.
\<close>

theorem blank_message_undefined:
  assumes "blank (takeWhile (\<lambda>c. c \<noteq> NUL) m)"
  shows "deserialize m = Undef"
proof (cases "takeWhile (\<lambda>c. c \<noteq> NUL) m")
  case Nil
  then show ?thesis by (simp only: deserialize_def parse_string_def) (simp add: parse_document_def tokenize_def)
next
  case (Cons c cs)
  then have "tokenize (c # cs) = Ok [c # cs, []]"
    using assms tokenize_loop_blank[of cs c] by (simp add: tokenize_def)
  moreover have "remove_gaps [c # cs, []] = [[]]" using assms Cons by (simp add: seg_def)
  ultimately show ?thesis
    by (simp only: deserialize_def parse_string_def Cons) (simp add: parse_document_def)
qed

theorem blank_message_undefined_witness: "deserialize ''  '' = Undef"
  by (rule blank_message_undefined) (simp add: is_space_def)

end
