(* ===== verification/Negotiation.thy ===== *)
theory Negotiation
  imports Fsm_Negotiating
begin

text \<open>
  A group of devices that negotiate: each runs its own \<open>StateNegotiating\<close>, and the offers one
  broadcasts reach the others.  The theory shows that the rounds of \<open>UpdateAndBroadcastOffer\<close> make
  them agree on one generator.
\<close>

subsection \<open>One device\<close>

text \<open>
  The members while a negotiation runs: the local device is not among its peers, and there is one
  offer per member of the group, whose addresses are \<open>K\<close>.
\<close>

definition neg_ready :: "string set \<Rightarrow> negotiating \<Rightarrow> bool" where
  "neg_ready K s \<longleftrightarrow>
     ng_localMac s \<notin> dv_mac ` set (ng_peers s) \<and> sm_wf (ng_offers s) \<and>
     fst ` set (ng_offers s) = K \<and> K = insert (ng_localMac s) (dv_mac ` set (ng_peers s))"

definition own_offer :: "negotiating \<Rightarrow> offer" where
  "own_offer s = the (map_of (ng_offers s) (ng_localMac s))"

definition nominee :: "u32 \<Rightarrow> string set \<Rightarrow> string" where
  "nominee r K = sorted_list_of_set K ! (unat r mod card K)"

lemma sm_wf_keys: "sm_wf ps \<Longrightarrow> map fst ps = sorted_list_of_set (fst ` set ps)"
  unfolding sm_wf_def
  by (metis list.set_map sorted_list_of_set.sorted_key_list_of_set_unique finite_set
      strict_sorted_iff sorted_list_of_set.idem_if_sorted_distinct)

text \<open>The nominee of a round depends on the members of the group only, and is one of them.\<close>

lemma neg_local_offer_mac_nominee:
  assumes "sm_wf ps" "ps \<noteq> []"
  shows "neg_local_offer_mac r ps = nominee r (fst ` set ps)"
proof -
  have k: "map fst ps = sorted_list_of_set (fst ` set ps)" using assms(1) by (rule sm_wf_keys)
  have "length ps = card (fst ` set ps)"
    using arg_cong[OF k, of length] by (simp add: sorted_list_of_set.length_sorted_key_list_of_set)
  moreover have "unat r mod length ps < length ps" using assms(2) by simp
  ultimately show ?thesis unfolding neg_local_offer_mac_def nominee_def k[symmetric] by simp
qed

lemma nominee_in: "finite K \<Longrightarrow> K \<noteq> {} \<Longrightarrow> nominee r K \<in> K"
proof -
  assume K: "finite K" "K \<noteq> {}"
  then have "unat r mod card K < length (sorted_list_of_set K)"
    by (simp add: sorted_list_of_set.length_sorted_key_list_of_set card_gt_0_iff)
  then have "nominee r K \<in> set (sorted_list_of_set K)" unfolding nominee_def by (rule nth_mem)
  then show ?thesis using K by simp
qed

lemma max_round_Max: "max_round m ps = Max (insert m (of_round ` snd ` set ps))"
proof (induction m ps rule: max_round.induct)
  case (2 m p ps)
  have "Max (insert m (insert (of_round (snd p)) A)) =
        Max (insert (if m < of_round (snd p) then of_round (snd p) else m) A)"
    if "finite A" for A
    using that by (cases "A = {}") (auto simp: max_def)
  then show ?case using 2 by simp
qed simp

lemma neg_ready_own:
  assumes "neg_ready K s"
  shows "map_of (ng_offers s) (ng_localMac s) = Some (own_offer s)" and "ng_offers s \<noteq> []"
proof -
  have "ng_localMac s \<in> fst ` set (ng_offers s)" using assms by (auto simp: neg_ready_def)
  then show "map_of (ng_offers s) (ng_localMac s) = Some (own_offer s)"
    unfolding own_offer_def by (metis map_of_eq_None_keys option.exhaust_sel)
  show "ng_offers s \<noteq> []" using assms by (auto simp: neg_ready_def)
qed

text \<open>What an iteration of \<open>UpdateAndBroadcastOffer\<close> does, with its two outcomes.\<close>

definition neg_decides :: "negotiating \<Rightarrow> bool" where
  "neg_decides s = all_offers_equal (own_offer s) (ng_offers s)"

lemma neg_update_decides:
  assumes "neg_ready K s" "neg_decides s"
  shows "\<exists>s' y. neg_update_and_broadcast e sid s x =
    Some (s', switch_to (T_Playing (ng_peers s) (ng_localMac s) (of_mac (own_offer s))) y)"
  using assms neg_ready_own[OF assms(1)] by (auto simp: neg_update_and_broadcast_def neg_decides_def Let_def)

definition neg_next :: "string set \<Rightarrow> u32 \<Rightarrow> negotiating \<Rightarrow> negotiating" where
  "neg_next K r s = s\<lparr>ng_offers := sm_assign (ng_localMac s) \<lparr>of_mac = nominee r K, of_round = r\<rparr> (ng_offers s)\<rparr>"

lemma cx_round_await: "cx_round (snd (await_command e c f x)) = cx_round x"
  by (auto simp: await_command_def Let_def split: prod.split)

lemma cx_round_send_offers: "cx_round (fold (neg_send_offer e sid m) ps x) = cx_round x"
  by (induction ps arbitrary: x) (auto simp: neg_send_offer_def cx_round_await)

lemma neg_update_continues:
  assumes "neg_ready K s" "\<not> neg_decides s" "r = max_round (cx_round x) (ng_offers s)"
  shows "\<exists>y. neg_update_and_broadcast e sid s x = Some (neg_next K r s, y) \<and> cx_round y = r"
proof -
  have "cx_round x \<le> r" unfolding assms(3) max_round_Max by (intro Max_ge) auto
  then have r: "cx_round (if r > cx_round x then x\<lparr>cx_round := r\<rparr> else x) = r" by auto
  have "K = fst ` set (ng_offers s)" "sm_wf (ng_offers s)" using assms(1) by (auto simp: neg_ready_def)
  then have n: "neg_local_offer_mac q (ng_offers s) = nominee q K" for q
    using neg_local_offer_mac_nominee neg_ready_own(2)[OF assms(1)] by simp
  show ?thesis
    using assms(2) neg_ready_own(1)[OF assms(1)] r
    by (simp add: neg_update_and_broadcast_def neg_decides_def assms(3)[symmetric] n Let_def
        neg_next_def wait_for_def cx_round_send_offers)
qed

lemma neg_ready_assign:
  "neg_ready K s \<Longrightarrow> k \<in> K \<Longrightarrow> neg_ready K (s\<lparr>ng_offers := sm_assign k v (ng_offers s)\<rparr>)"
  by (auto simp: neg_ready_def sm_wf_assign)

lemma neg_ready_next: "neg_ready K s \<Longrightarrow> neg_ready K (neg_next K r s)"
  unfolding neg_next_def by (intro neg_ready_assign) (auto simp: neg_ready_def)

subsection \<open>The group\<close>

text \<open>
  One second of a group whose members run in step: everybody updates and broadcasts, then
  everybody receives what the others sent.
\<close>

type_synonym neg_group = "(negotiating \<times> ctx) list"

fun neg_receive_all ::
  "env \<Rightarrow> nat \<Rightarrow> (string \<times> string) list \<Rightarrow> negotiating \<times> ctx \<Rightarrow> (negotiating \<times> ctx) option" where
  "neg_receive_all e sid [] sx = Some sx"
| "neg_receive_all e sid ((mac, message) # ms) sx =
     (case neg_on_message_received e sid (dv_of_mac mac) message (fst sx) (snd sx) of
        None \<Rightarrow> None
      | Some sx' \<Rightarrow> neg_receive_all e sid ms sx')"

definition neg_messages :: "env \<Rightarrow> neg_group \<Rightarrow> string \<Rightarrow> (string \<times> string) list" where
  "neg_messages e grp mac =
     map (\<lambda>sx. (ng_localMac (fst sx), e_ser_offer e (own_offer (fst sx))))
       (filter (\<lambda>sx. ng_localMac (fst sx) \<noteq> mac) grp)"

fun opt_all :: "('a \<Rightarrow> 'b option) \<Rightarrow> 'a list \<Rightarrow> 'b list option" where
  "opt_all f [] = Some []"
| "opt_all f (a # as) =
     (case f a of None \<Rightarrow> None | Some b \<Rightarrow> map_option (Cons b) (opt_all f as))"

definition neg_group_round :: "env \<Rightarrow> nat \<Rightarrow> neg_group \<Rightarrow> neg_group option" where
  "neg_group_round e sid grp =
     (case opt_all (\<lambda>sx. neg_update_and_broadcast e sid (fst sx) (snd sx)) grp of
        None \<Rightarrow> None
      | Some grp1 \<Rightarrow>
          opt_all (\<lambda>sx. neg_receive_all e sid (neg_messages e grp1 (ng_localMac (fst sx))) sx) grp1)"

lemma opt_all_map: "(\<And>a. a \<in> set as \<Longrightarrow> f a = Some (g a)) \<Longrightarrow> opt_all f as = Some (map g as)"
  by (induction as) auto

text \<open>The members of a group are ready, and together they are the group.\<close>

definition neg_group :: "string set \<Rightarrow> neg_group \<Rightarrow> bool" where
  "neg_group K grp \<longleftrightarrow>
     distinct (map (ng_localMac \<circ> fst) grp) \<and> ng_localMac ` fst ` set grp = K \<and>
     (\<forall>sx \<in> set grp. neg_ready K (fst sx))"

text \<open>What the rounds promise: every member decides, for the same member of the group.\<close>

definition neg_agreed :: "env \<Rightarrow> nat \<Rightarrow> string set \<Rightarrow> neg_group \<Rightarrow> bool" where
  "neg_agreed e sid K grp \<longleftrightarrow>
     (\<exists>g \<in> K. \<forall>sx \<in> set grp. \<exists>s' y. neg_update_and_broadcast e sid (fst sx) (snd sx) =
        Some (s', switch_to (T_Playing (ng_peers (fst sx)) (ng_localMac (fst sx)) g) y))"

subsection \<open>Receiving the offers of a round\<close>

lemma neg_receive_one:
  assumes "neg_ready K s" "mac \<in> K" "mac \<noteq> ng_localMac s" "e_deserialize e m = Ok (MOffer v)"
  shows "neg_on_message_received e sid (dv_of_mac mac) m s x =
    Some (s\<lparr>ng_offers := sm_assign mac v (ng_offers s)\<rparr>, x)"
  using assms by (auto simp: neg_on_message_received_def neg_ready_def dv_count_iff dv_of_mac_def)

text \<open>
  Receiving an offer from every other member leaves exactly these offers, whatever was known
  before; \<open>F\<close> maps the members to their offers.
\<close>

lemma neg_receive_all_offers:
  assumes "neg_ready K s"
    and "\<forall>(mac, m) \<in> set ms. mac \<in> K \<and> mac \<noteq> ng_localMac s \<and> e_deserialize e m = Ok (MOffer (F mac))"
  shows "\<exists>s'. neg_receive_all e sid ms (s, x) = Some (s', x) \<and> neg_ready K s' \<and>
              ng_localMac s' = ng_localMac s \<and> ng_peers s' = ng_peers s \<and>
              map_of (ng_offers s') =
                (\<lambda>k. if k \<in> fst ` set ms then Some (F k) else map_of (ng_offers s) k)"
  using assms
proof (induction ms arbitrary: s)
  case (Cons p ms)
  obtain mac m where p: "p = (mac, m)" by fastforce
  let ?s = "s\<lparr>ng_offers := sm_assign mac (F mac) (ng_offers s)\<rparr>"
  have r: "neg_on_message_received e sid (dv_of_mac mac) m s x = Some (?s, x)"
    using Cons.prems p by (intro neg_receive_one) auto
  have wf: "sm_wf (ng_offers s)" using Cons.prems(1) by (simp add: neg_ready_def)
  have "neg_ready K ?s" using Cons.prems p by (intro neg_ready_assign) auto
  from Cons.IH[OF this] Cons.prems(2) obtain s' where
    "neg_receive_all e sid ms (?s, x) = Some (s', x)" "neg_ready K s'"
    "ng_localMac s' = ng_localMac s" "ng_peers s' = ng_peers s"
    "map_of (ng_offers s') = (\<lambda>k. if k \<in> fst ` set ms then Some (F k) else map_of (ng_offers ?s) k)"
    by auto
  then show ?case using r p map_of_sm_assign[OF wf, of mac "F mac"] by (auto simp: fun_eq_iff)
qed auto

subsection \<open>A round of the group\<close>

lemma key_function: "distinct (map f xs) \<Longrightarrow> \<exists>F. \<forall>x \<in> set xs. F (f x) = g x"
  by (rule exI[of _ "\<lambda>k. g (the_inv_into (set xs) f k)"]) (auto simp: distinct_map the_inv_into_f_f)

lemma sm_wf_set: "sm_wf ps \<Longrightarrow> (k, v) \<in> set ps \<longleftrightarrow> map_of ps k = Some v"
  using sm_wf_al_wf[of ps] map_of_eq_Some_iff[of ps k v] by (auto simp: al_wf_def)

lemma own_offer_next:
  "neg_ready K s \<Longrightarrow> own_offer (neg_next K r s) = \<lparr>of_mac = nominee r K, of_round = r\<rparr>"
  by (simp add: own_offer_def neg_next_def neg_ready_def map_of_sm_assign)

lemma neg_ready_nominee: "neg_ready K s \<Longrightarrow> nominee r K \<in> K"
  by (rule nominee_in) (auto simp: neg_ready_def)

text \<open>What the serializer owes the negotiation: offers of the group survive the transport.\<close>

definition offers_travel :: "env \<Rightarrow> string set \<Rightarrow> bool" where
  "offers_travel e K \<longleftrightarrow>
     (\<forall>v. of_mac v \<in> K \<longrightarrow> of_round v < 2 ^ 31 \<longrightarrow>
          e_deserialize e (e_ser_offer e v) = Ok (MOffer v))"

text \<open>
  After a round everybody holds the same offers \<open>F\<close>, each computed by its sender from the largest
  round it knew.
\<close>

abbreviation mac_of :: "negotiating \<times> ctx \<Rightarrow> string" where
  "mac_of sx \<equiv> ng_localMac (fst sx)"

definition neg_synced :: "string set \<Rightarrow> (string \<Rightarrow> offer) \<Rightarrow> neg_group \<Rightarrow> bool" where
  "neg_synced K F grp \<longleftrightarrow> neg_group K grp \<and>
     (\<forall>sx \<in> set grp. set (ng_offers (fst sx)) = (\<lambda>k. (k, F k)) ` K \<and>
        F (mac_of sx) = \<lparr>of_mac = nominee (cx_round (snd sx)) K, of_round = cx_round (snd sx)\<rparr>)"

lemma neg_synced_own:
  assumes "neg_synced K F grp" "sx \<in> set grp"
  shows "own_offer (fst sx) = F (mac_of sx)" 
    and "neg_decides (fst sx) \<longleftrightarrow> (\<forall>k \<in> K. F k = F (mac_of sx))"
    and "neg_ready K (fst sx)" and "mac_of sx \<in> K"
proof -
  show r: "neg_ready K (fst sx)" using assms by (auto simp: neg_synced_def neg_group_def)
  then show "mac_of sx \<in> K" by (auto simp: neg_ready_def)
  have "(mac_of sx, own_offer (fst sx)) \<in> set (ng_offers (fst sx))"
    using neg_ready_own(1)[OF r] by (rule map_of_SomeD)
  moreover have o: "set (ng_offers (fst sx)) = (\<lambda>k. (k, F k)) ` K"
    using assms by (auto simp: neg_synced_def)
  ultimately show own: "own_offer (fst sx) = F (mac_of sx)" by auto
  show "neg_decides (fst sx) \<longleftrightarrow> (\<forall>k \<in> K. F k = F (mac_of sx))"
    by (auto simp: neg_decides_def all_offers_equal_def o own intro: offer.equality)
qed

lemma neg_device_receive:
  assumes ready: "neg_ready K s" and own: "own_offer s = F (ng_localMac s)"
    and ms: "set ms = (\<lambda>k. (k, e_ser_offer e (F k))) ` (K - {ng_localMac s})"
    and travel: "\<forall>k \<in> K. e_deserialize e (e_ser_offer e (F k)) = Ok (MOffer (F k))"
  shows "\<exists>s'. neg_receive_all e sid ms (s, x) = Some (s', x) \<and> neg_ready K s' \<and>
           ng_localMac s' = ng_localMac s \<and> set (ng_offers s') = (\<lambda>k. (k, F k)) ` K"
proof -
  have "\<forall>(mac, m) \<in> set ms. mac \<in> K \<and> mac \<noteq> ng_localMac s \<and> e_deserialize e m = Ok (MOffer (F mac))"
    using travel by (auto simp: ms)
  from neg_receive_all_offers[OF ready this, of sid x] obtain s' where s':
    "neg_receive_all e sid ms (s, x) = Some (s', x)" "neg_ready K s'" "ng_localMac s' = ng_localMac s"
    "map_of (ng_offers s') = (\<lambda>k. if k \<in> fst ` set ms then Some (F k) else map_of (ng_offers s) k)"
    by blast
  have keys: "fst ` set ms = K - {ng_localMac s}" by (force simp: ms)
  have "map_of (ng_offers s') k = Some (F k)" if "k \<in> K" for k
    using that neg_ready_own(1)[OF ready] own unfolding s'(4) keys by auto
  moreover have "map_of (ng_offers s') k = None" if "k \<notin> K" for k
    using s'(2) that by (simp add: map_of_eq_None_keys neg_ready_def)
  ultimately have "(k, v) \<in> set (ng_offers s') \<longleftrightarrow> k \<in> K \<and> v = F k" for k v
    using sm_wf_set[of "ng_offers s'" k v] s'(2) by (cases "k \<in> K") (auto simp: neg_ready_def)
  then have "set (ng_offers s') = (\<lambda>k. (k, F k)) ` K" by auto
  with s' show ?thesis by blast
qed

lemma opt_all_obtain:
  assumes "\<And>a. a \<in> set as \<Longrightarrow> \<exists>b. f a = Some b \<and> P a b"
  obtains g where "opt_all f as = Some (map g as)" "\<And>a. a \<in> set as \<Longrightarrow> P a (g a)"
proof -
  have "\<forall>a \<in> set as. f a = Some (the (f a)) \<and> P a (the (f a))" using assms by fastforce
  then show thesis using opt_all_map[of as f "\<lambda>a. the (f a)"] that by blast
qed

lemma neg_messages_set:
  "set (neg_messages e grp mac) =
   (\<lambda>sx. (ng_localMac (fst sx), e_ser_offer e (own_offer (fst sx)))) `
     {sx \<in> set grp. ng_localMac (fst sx) \<noteq> mac}"
  by (simp add: neg_messages_def)

text \<open>First everybody updates ...\<close>

abbreviation next_round :: "negotiating \<times> ctx \<Rightarrow> u32" where
  "next_round sx \<equiv> max_round (cx_round (snd sx)) (ng_offers (fst sx))"

lemma neg_group_update:
  assumes grp: "neg_group K grp" and cont: "\<forall>sx \<in> set grp. \<not> neg_decides (fst sx)"
  obtains g where "opt_all (\<lambda>sx. neg_update_and_broadcast e sid (fst sx) (snd sx)) grp = Some (map g grp)"
    and "\<And>sx. sx \<in> set grp \<Longrightarrow>
      fst (g sx) = neg_next K (next_round sx) (fst sx) \<and> cx_round (snd (g sx)) = next_round sx"
proof (rule opt_all_obtain[of grp "\<lambda>sx. neg_update_and_broadcast e sid (fst sx) (snd sx)" "\<lambda>sx b.
      fst b = neg_next K (next_round sx) (fst sx) \<and> cx_round (snd b) = next_round sx"])
  fix sx assume "sx \<in> set grp"
  then have "neg_ready K (fst sx)" "\<not> neg_decides (fst sx)" using grp cont by (auto simp: neg_group_def)
  from neg_update_continues[OF this refl, of e sid "snd sx"]
  show "\<exists>b. neg_update_and_broadcast e sid (fst sx) (snd sx) = Some b \<and>
      fst b = neg_next K (next_round sx) (fst sx) \<and> cx_round (snd b) = next_round sx" by auto
qed (use that in blast)

text \<open>... and then everybody receives.\<close>

lemma neg_group_receive:
  assumes own: "\<And>sx. sx \<in> set grp \<Longrightarrow> neg_ready K (fst sx) \<and> own_offer (fst sx) = F (mac_of sx)"
    and K: "K = mac_of ` set grp"
    and travel: "\<forall>k \<in> K. e_deserialize e (e_ser_offer e (F k)) = Ok (MOffer (F k))"
  obtains h where
    "opt_all (\<lambda>sx. neg_receive_all e sid (neg_messages e grp (mac_of sx)) sx) grp = Some (map h grp)"
    and "\<And>sx. sx \<in> set grp \<Longrightarrow> snd (h sx) = snd sx \<and> neg_ready K (fst (h sx)) \<and>
           mac_of (h sx) = mac_of sx \<and> set (ng_offers (fst (h sx))) = (\<lambda>k. (k, F k)) ` K"
proof (rule opt_all_obtain[of grp "\<lambda>sx. neg_receive_all e sid (neg_messages e grp (mac_of sx)) sx"
      "\<lambda>sx b. snd b = snd sx \<and> neg_ready K (fst b) \<and> mac_of b = mac_of sx \<and>
              set (ng_offers (fst b)) = (\<lambda>k. (k, F k)) ` K"])
  fix sx assume sx: "sx \<in> set grp"
  have "(\<lambda>sx. (mac_of sx, e_ser_offer e (own_offer (fst sx)))) ` {q \<in> set grp. mac_of q \<noteq> mac_of sx} =
        (\<lambda>q. (mac_of q, e_ser_offer e (F (mac_of q)))) ` {q \<in> set grp. mac_of q \<noteq> mac_of sx}"
    by (rule image_cong) (use own in auto)
  then have "set (neg_messages e grp (mac_of sx)) = (\<lambda>k. (k, e_ser_offer e (F k))) ` (K - {mac_of sx})"
    unfolding neg_messages_set by (auto simp: K)
  from neg_device_receive[OF _ _ this travel, of sid "snd sx"] own[OF sx]
  show "\<exists>b. neg_receive_all e sid (neg_messages e grp (mac_of sx)) sx = Some b \<and>
      snd b = snd sx \<and> neg_ready K (fst b) \<and> mac_of b = mac_of sx \<and>
      set (ng_offers (fst b)) = (\<lambda>k. (k, F k)) ` K" by auto
qed (use that in blast)

lemma neg_group_round_sync:
  assumes grp: "neg_group K grp" and travel: "offers_travel e K"
    and cont: "\<forall>sx \<in> set grp. \<not> neg_decides (fst sx)" and small: "\<forall>sx \<in> set grp. next_round sx < 2 ^ 31"
  shows "\<exists>f F. neg_group_round e sid grp = Some (map f grp) \<and> neg_synced K F (map f grp) \<and>
           (\<forall>sx \<in> set grp. mac_of (f sx) = mac_of sx \<and> cx_round (snd (f sx)) = next_round sx)"
proof -
  obtain g where up: "opt_all (\<lambda>sx. neg_update_and_broadcast e sid (fst sx) (snd sx)) grp = Some (map g grp)"
    and g: "\<And>sx. sx \<in> set grp \<Longrightarrow>
      fst (g sx) = neg_next K (next_round sx) (fst sx) \<and> cx_round (snd (g sx)) = next_round sx"
    using neg_group_update[OF grp cont] by blast
  have ready: "neg_ready K (fst sx)" if "sx \<in> set grp" for sx using grp that by (simp add: neg_group_def)
  have mac1: "mac_of (g sx) = mac_of sx" "neg_ready K (fst (g sx))" if "sx \<in> set grp" for sx
    using g[OF that] neg_ready_next[OF ready[OF that]] by (simp_all add: neg_next_def)
  have K: "K = mac_of ` set grp" and K1: "K = mac_of ` set (map g grp)"
    using grp mac1 by (auto simp: neg_group_def image_image)
  obtain F where F: "\<And>sx. sx \<in> set grp \<Longrightarrow> F (mac_of sx) = own_offer (fst (g sx))"
    using key_function[of mac_of grp "\<lambda>sx. own_offer (fst (g sx))"] grp by (auto simp: neg_group_def comp_def)
  have own: "F (mac_of sx) = \<lparr>of_mac = nominee (next_round sx) K, of_round = next_round sx\<rparr>"
    if "sx \<in> set grp" for sx
    using F[OF that] own_offer_next[OF ready[OF that]] g[OF that] by simp
  have travel': "\<forall>k \<in> K. e_deserialize e (e_ser_offer e (F k)) = Ok (MOffer (F k))"
    using travel small own neg_ready_nominee[OF ready] by (auto simp: K offers_travel_def)
  have "neg_ready K (fst q) \<and> own_offer (fst q) = F (mac_of q)" if "q \<in> set (map g grp)" for q
    using that F mac1 by auto
  from neg_group_receive[OF this K1 travel', of sid] obtain h where
    down: "opt_all (\<lambda>sx. neg_receive_all e sid (neg_messages e (map g grp) (mac_of sx)) sx) (map g grp) =
        Some (map h (map g grp))"
    and h: "\<And>q. q \<in> set (map g grp) \<Longrightarrow> snd (h q) = snd q \<and> neg_ready K (fst (h q)) \<and>
        mac_of (h q) = mac_of q \<and> set (ng_offers (fst (h q))) = (\<lambda>k. (k, F k)) ` K" by blast
  define f where "f = h \<circ> g"
  have f: "snd (f sx) = snd (g sx)" "neg_ready K (fst (f sx))" "mac_of (f sx) = mac_of sx"
    "set (ng_offers (fst (f sx))) = (\<lambda>k. (k, F k)) ` K" if "sx \<in> set grp" for sx
    using h[of "g sx"] mac1[OF that] that by (simp_all add: f_def)
  have "map (ng_localMac \<circ> fst) (map f grp) = map (ng_localMac \<circ> fst) grp" using f by simp
  moreover have "ng_localMac ` fst ` set (map f grp) = K" using f by (simp add: K image_image)
  ultimately have "neg_group K (map f grp)" using grp f(2) unfolding neg_group_def by (metis (mono_tags, lifting) imageE list.set_map)
  then have "neg_synced K F (map f grp)" using f own g by (simp add: neg_synced_def)
  moreover have "neg_group_round e sid grp = Some (map f grp)"
    using down by (simp add: neg_group_round_def up f_def)
  moreover have "\<forall>sx \<in> set grp. mac_of (f sx) = mac_of sx \<and> cx_round (snd (f sx)) = next_round sx"
    using f g by metis
  ultimately show ?thesis by blast
qed

subsection \<open>Agreement\<close>

text \<open>When everybody holds the same offers and these are equal, the group has agreed.\<close>

lemma neg_synced_agreed:
  assumes sync: "neg_synced K F grp" and all: "\<forall>k \<in> K. \<forall>l \<in> K. F k = F l" and ne: "grp \<noteq> []"
  shows "neg_agreed e sid K grp"
proof -
  obtain q where q: "q \<in> set grp" using ne by (cases grp) auto
  note own = neg_synced_own[OF sync]
  have "of_mac (F (mac_of q)) = nominee (cx_round (snd q)) K"
    using sync q by (simp add: neg_synced_def)
  then have g: "of_mac (F (mac_of q)) \<in> K" using neg_ready_nominee[OF own(3)[OF q]] by simp
  have "\<exists>s' y. neg_update_and_broadcast e sid (fst sx) (snd sx) =
      Some (s', switch_to (T_Playing (ng_peers (fst sx)) (mac_of sx) (of_mac (F (mac_of q)))) y)"
    if sx: "sx \<in> set grp" for sx
  proof -
    have "F (mac_of sx) = F (mac_of q)" using all own(4)[OF sx] own(4)[OF q] by blast
    then have "own_offer (fst sx) = F (mac_of q)" using own(1)[OF sx] by simp
    moreover have "neg_decides (fst sx)" unfolding own(2)[OF sx] using all own(4)[OF sx] by blast
    ultimately show ?thesis using neg_update_decides[OF own(3)[OF sx]] by metis
  qed
  with g show ?thesis unfolding neg_agreed_def by blast
qed

lemma neg_synced_max:
  assumes sync: "neg_synced K F grp" and sx: "sx \<in> set grp"
  shows "next_round sx = Max (of_round ` F ` K)"
proof -
  have o: "set (ng_offers (fst sx)) = (\<lambda>k. (k, F k)) ` K" and "cx_round (snd sx) = of_round (F (mac_of sx))"
    using sync sx by (simp_all add: neg_synced_def)
  moreover have "mac_of sx \<in> K" using neg_synced_own[OF sync sx] by simp
  ultimately have "insert (cx_round (snd sx)) (of_round ` snd ` set (ng_offers (fst sx))) = of_round ` F ` K"
    by (auto simp: image_image)
  then show ?thesis by (simp add: max_round_Max)
qed

text \<open>After a round in which nobody decided, the next round makes all offers equal.\<close>

lemma neg_second_round:
  assumes sync: "neg_synced K F grp" and travel: "offers_travel e K" and ne: "grp \<noteq> []"
    and small: "\<forall>sx \<in> set grp. cx_round (snd sx) < 2 ^ 31"
    and no: "\<not> (\<forall>k \<in> K. \<forall>l \<in> K. F k = F l)"
  shows "\<exists>grp'. neg_group_round e sid grp = Some grp' \<and> neg_agreed e sid K grp'"
proof -
  let ?M = "Max (of_round ` F ` K)"
  have grp: "neg_group K grp" using sync by (simp add: neg_synced_def)
  have K: "K = mac_of ` set grp" using grp by (simp add: neg_group_def image_image)
  have "of_round (F (mac_of sx)) = cx_round (snd sx)" if "sx \<in> set grp" for sx
    using sync that by (simp add: neg_synced_def)
  then have "\<forall>k \<in> K. of_round (F k) < 2 ^ 31" using small by (simp add: K)
  moreover have "finite K" "K \<noteq> {}" using ne by (simp_all add: K)
  ultimately have "?M < 2 ^ 31" by simp
  then have small': "\<forall>sx \<in> set grp. next_round sx < 2 ^ 31" using neg_synced_max[OF sync] by simp
  have "\<not> neg_decides (fst sx)" if "sx \<in> set grp" for sx
    using neg_synced_own(2,4)[OF sync that] no by metis
  then obtain f F' where r: "neg_group_round e sid grp = Some (map f grp)" "neg_synced K F' (map f grp)"
    "\<forall>sx \<in> set grp. mac_of (f sx) = mac_of sx \<and> cx_round (snd (f sx)) = next_round sx"
    using neg_group_round_sync[OF grp travel _ small', of sid] by blast
  have "F' (mac_of sx) = \<lparr>of_mac = nominee ?M K, of_round = ?M\<rparr>" if "sx \<in> set grp" for sx
    using r(2,3) that neg_synced_max[OF sync that] by (simp add: neg_synced_def)
  then have "F' k = \<lparr>of_mac = nominee ?M K, of_round = ?M\<rparr>" if "k \<in> K" for k
    using that unfolding K by blast
  then have all: "\<forall>k \<in> K. \<forall>l \<in> K. F' k = F' l" by metis
  have "neg_agreed e sid K (map f grp)" by (rule neg_synced_agreed[OF r(2) all]) (use ne in simp)
  with r(1) show ?thesis by blast
qed

subsection \<open>From the constructor to the agreement\<close>

text \<open>A member before the negotiation: its own address, its peers, its context.\<close>

type_synonym member = "string \<times> devices \<times> ctx"

definition member_of :: "string set \<Rightarrow> member \<Rightarrow> bool" where
  "member_of K m \<longleftrightarrow>
     fst m \<notin> dv_mac ` set (fst (snd m)) \<and> K = insert (fst m) (dv_mac ` set (fst (snd m))) \<and>
     cx_round (snd (snd m)) + 1 < 2 ^ 31"

definition start_member :: "env \<Rightarrow> nat \<Rightarrow> member \<Rightarrow> negotiating \<times> ctx" where
  "start_member e sid m = neg_construct e sid (fst (snd m)) (fst m) (snd (snd m))"

lemma set_sm_insert: "set (sm_insert k v ps) \<subseteq> insert (k, v) (set ps)"
proof -
  have "set (sm_assign k v ps) \<subseteq> insert (k, v) (set ps)" by (induction ps) auto
  then show ?thesis by (auto simp: sm_insert_def)
qed

lemma fold_sm_insert_values:
  "snd ` set ps \<subseteq> {v} \<Longrightarrow> snd ` set (fold (\<lambda>d. sm_insert (f d) v) ds ps) \<subseteq> {v}"
proof (induction ds arbitrary: ps)
  case (Cons d ds)
  have "snd ` set (sm_insert (f d) v ps) \<subseteq> {v}"
    using Cons.prems set_sm_insert[of "f d" v ps] by force
  then show ?case using Cons.IH by simp
qed simp

lemma neg_initial_offers_zero: 
  "(k, v) \<in> set (neg_initial_offers peers) \<Longrightarrow> v = \<lparr>of_mac = [], of_round = 0\<rparr>"
  using fold_sm_insert_values[of "[]" "\<lparr>of_mac = [], of_round = 0\<rparr>" dv_mac peers]
  by (force simp: neg_initial_offers_def)

lemma start_member_ready:
  assumes m: "member_of K (mac, peers, x)" and s: "start_member e sid (mac, peers, x) = (s, y)"
  shows "neg_ready K s" "ng_localMac s = mac" "cx_round y = cx_round x + 1"
    and "map_of (ng_offers s) = (\<lambda>k. if k \<in> K then Some (if k = mac
           then \<lparr>of_mac = nominee (cx_round x + 1) K, of_round = cx_round x + 1\<rparr>
           else \<lparr>of_mac = [], of_round = 0\<rparr>) else None)"
proof -
  let ?r = "cx_round x + 1" and ?z = "\<lparr>of_mac = [], of_round = 0\<rparr>"
  let ?o0 = "neg_initial_offers peers"
  let ?o1 = "sm_assign mac \<lparr>of_mac = [], of_round = ?r\<rparr> ?o0"
  let ?o2 = "sm_assign mac \<lparr>of_mac = neg_local_offer_mac ?r ?o1, of_round = ?r\<rparr> ?o1"
  have K: "mac \<notin> dv_mac ` set peers" "K = insert mac (dv_mac ` set peers)"
    using m by (simp_all add: member_of_def)
  have wf: "sm_wf ?o0" "sm_wf ?o1" "sm_wf ?o2" by (simp_all add: neg_initial_offers_wf sm_wf_assign)
  have keys: "fst ` set ?o1 = K" "fst ` set ?o2 = K" by (simp_all add: neg_initial_offers_keys K)
  have "?o1 \<noteq> []" using keys(1) K(2) by (metis image_empty insert_not_empty list.set(1))
  then have nom: "neg_local_offer_mac ?r ?o1 = nominee ?r K"
    using neg_local_offer_mac_nominee[OF wf(2)] keys(1) by simp
  have sy: "s = \<lparr>ng_localMac = mac, ng_peers = peers, ng_offers = ?o2\<rparr>" "cx_round y = ?r"
    using s by (auto simp: start_member_def neg_construct_def Let_def neg_start_def cx_round_await)
  then show "neg_ready K s" "ng_localMac s = mac" "cx_round y = ?r"
    using K wf keys by (auto simp: neg_ready_def)
  have "map_of ?o0 k = (if k \<in> dv_mac ` set peers then Some ?z else None)" for k
  proof (cases "map_of ?o0 k")
    case None
    then show ?thesis by (simp add: map_of_eq_None_keys neg_initial_offers_keys)
  next
    case (Some v)
    then have "(k, v) \<in> set ?o0" by (rule map_of_SomeD)
    then have "k \<in> fst ` set ?o0" "v = ?z" using neg_initial_offers_zero by (force, blast)
    then show ?thesis using Some by (simp add: neg_initial_offers_keys)
  qed
  then show "map_of (ng_offers s) = (\<lambda>k. if k \<in> K then Some (if k = mac
           then \<lparr>of_mac = nominee ?r K, of_round = ?r\<rparr> else ?z) else None)"
    using K(2) by (auto simp: sy nom map_of_sm_assign wf)
qed

text \<open>A member starts undecided, and its first round is the one it was constructed with.\<close>

lemma start_member_undecided:
  assumes m: "member_of K m" and two: "K \<noteq> {fst m}" and clean: "[] \<notin> K"
  shows "\<not> neg_decides (fst (start_member e sid m))" and "next_round (start_member e sid m) < 2 ^ 31"
proof -
  obtain mac peers x where mx: "m = (mac, peers, x)" by (cases m) auto
  obtain s y where sy: "start_member e sid m = (s, y)" by fastforce
  note st = start_member_ready[OF m[unfolded mx] sy[unfolded mx]]
  have wf: "sm_wf (ng_offers s)" using st(1) by (simp add: neg_ready_def)
  have mac: "mac \<in> K" using m by (auto simp: member_of_def mx)
  have own: "own_offer s = \<lparr>of_mac = nominee (cx_round x + 1) K, of_round = cx_round x + 1\<rparr>"
    using st(2,4) mac by (simp add: own_offer_def)
  obtain k where k: "k \<in> K" "k \<noteq> mac" using two mac mx by auto
  have "map_of (ng_offers s) k = Some \<lparr>of_mac = [], of_round = 0\<rparr>" using st(4) k by simp
  then have "(k, \<lparr>of_mac = [], of_round = 0\<rparr>) \<in> set (ng_offers s)" by (rule map_of_SomeD)
  moreover have "of_mac (own_offer s) \<noteq> []" using neg_ready_nominee[OF st(1), of "cx_round x + 1"] clean by (auto simp: own)
  ultimately show "\<not> neg_decides (fst (start_member e sid m))"
    by (force simp: sy neg_decides_def all_offers_equal_def)
  have "of_round ` snd ` set (ng_offers s) \<subseteq> {cx_round x + 1, 0}"
    using sm_wf_set[OF wf] st(4) by (auto split: if_splits)
  then have "insert (cx_round y) (of_round ` snd ` set (ng_offers s)) \<subseteq> {cx_round x + 1, 0}"
    using st(3) by simp
  moreover have "\<forall>r \<in> {cx_round x + 1, 0}. r < 2 ^ 31" using m by (simp add: member_of_def mx)
  ultimately have "\<forall>r \<in> insert (cx_round y) (of_round ` snd ` set (ng_offers s)). r < 2 ^ 31" by blast
  then show "next_round (start_member e sid m) < 2 ^ 31" by (simp add: sy max_round_Max)
qed

lemma start_group:
  assumes "distinct (map fst ms)" "K = fst ` set ms" "\<forall>m \<in> set ms. member_of K m"
  shows "neg_group K (map (start_member e sid) ms)"
proof -
  have s: "neg_ready K (fst (start_member e sid m)) \<and> mac_of (start_member e sid m) = fst m" 
    if "m \<in> set ms" for m
    using start_member_ready(1,2)[of K "fst m" "fst (snd m)" "snd (snd m)" e sid] assms(3) that
    by (metis prod.collapse)
  then have "map (ng_localMac \<circ> fst) (map (start_member e sid) ms) = map fst ms" by simp
  moreover have "ng_localMac ` fst ` set (map (start_member e sid) ms) = K"
    using s by (simp add: image_image assms(2))
  ultimately show ?thesis using assms(1) s unfolding neg_group_def by (simp del: map_map)
qed

text \<open>
  Agreement, for every serializer that carries the offers: at least two devices that know each
  other, started in whatever rounds below \<open>2^31\<close>, agree on the generator after at most two exchanges.
\<close>

lemma negotiation_agrees:
  assumes "distinct (map fst ms)" "K = fst ` set ms" "\<forall>m \<in> set ms. member_of K m"
    and "2 \<le> length ms" "[] \<notin> K" "offers_travel e K"
  shows "\<exists>grp1. neg_group_round e sid (map (start_member e sid) ms) = Some grp1 \<and>
           (neg_agreed e sid K grp1 \<or>
            (\<exists>grp2. neg_group_round e sid grp1 = Some grp2 \<and> neg_agreed e sid K grp2))"
proof -
  let ?grp = "map (start_member e sid) ms"
  have "K \<noteq> {fst m}" for m
  proof
    assume "K = {fst m}"
    then have "card (set (map fst ms)) = 1" using assms(2) by simp
    then show False using assms(1,4) distinct_card[of "map fst ms"] by simp
  qed
  then have start: "\<not> neg_decides (fst q)" "next_round q < 2 ^ 31" if "q \<in> set ?grp" for q
    using that start_member_undecided assms(3,5) by auto
  obtain f F where r: "neg_group_round e sid ?grp = Some (map f ?grp)" "neg_synced K F (map f ?grp)"
    "\<forall>q \<in> set ?grp. mac_of (f q) = mac_of q \<and> cx_round (snd (f q)) = next_round q"
    using neg_group_round_sync[OF start_group[OF assms(1-3)] assms(6), of e sid sid] start by blast
  have ne: "map f ?grp \<noteq> []" using assms(4) by auto
  show ?thesis
  proof (cases "\<forall>k \<in> K. \<forall>l \<in> K. F k = F l")
    case True
    then show ?thesis using neg_synced_agreed[OF r(2) True ne] r(1) by blast
  next
    case False
    have "\<forall>q \<in> set (map f ?grp). cx_round (snd q) < 2 ^ 31" using r(3) start(2) by auto
    then show ?thesis using neg_second_round[OF r(2) assms(6) ne _ False] r(1) by blast
  qed
qed

text \<open>A serializer for the example: the round in unary, then the address.\<close>

definition unary_env :: env where
  "unary_env = \<lparr>e_accept = (\<lambda>_. True), e_ser_hello = hl_mac,
     e_ser_offer = (\<lambda>v. replicate (unat (of_round v)) (CHR ''1'') @ CHR '':'' # of_mac v),
     e_ser_request = (\<lambda>_. []), e_ser_response = (\<lambda>_. []),
     e_deserialize = (\<lambda>m. Ok (MOffer
        \<lparr>of_mac = tl (dropWhile (\<lambda>c. c = CHR ''1'') m),
         of_round = of_nat (length (takeWhile (\<lambda>c. c = CHR ''1'') m))\<rparr>)),
     e_generate = (\<lambda>_ c. c)\<rparr>"

subsection \<open>Properties of one device\<close>

text \<open>
  C12. While the local device is not among its own peers, a round of \<open>UpdateAndBroadcastOffer\<close>
  always finds the local offer: it decides, or it goes on with an offer of the largest round known
  to it, nominating the member that this round picks; the negotiation round never goes back.
\<close>

theorem neg_round_spec:
  assumes "neg_ready K s"
  shows "\<exists>s' y. neg_update_and_broadcast e sid s x = Some (s', y) \<and> cx_round x \<le> cx_round y \<and>
    (if all_offers_equal (own_offer s) (ng_offers s)
     then F_Switch (T_Playing (ng_peers s) (ng_localMac s) (of_mac (own_offer s))) \<in># waiting y
     else neg_ready K s' \<and> F_NegRound sid \<in># waiting y \<and>
          own_offer s' = \<lparr>of_mac = nominee (cx_round y) K, of_round = cx_round y\<rparr> \<and>
          cx_round y = Max (insert (cx_round x) (of_round ` snd ` set (ng_offers s))))"
proof (cases "neg_decides s")
  case True
  have "cx_round (switch_to t (fire_and_forget e c x)) = cx_round x" for t c
    by (simp add: switch_to_def wait_for_def fire_and_forget_def)
  then show ?thesis
    using True neg_ready_own[OF assms] grows_switch_to[unfolded grows_def]
    by (auto simp: neg_update_and_broadcast_def neg_decides_def Let_def)
next
  case False
  obtain y where y: "neg_update_and_broadcast e sid s x =
      Some (neg_next K (max_round (cx_round x) (ng_offers s)) s, y)"
    "cx_round y = max_round (cx_round x) (ng_offers s)"
    using neg_update_continues[OF assms False refl] by blast
  have "F_NegRound sid \<in># waiting y"
    using y(1) False neg_ready_own(1)[OF assms] waiting_wait_for
    by (auto simp: neg_update_and_broadcast_def neg_decides_def Let_def grows_def)
  moreover have "cx_round x \<le> Max (insert (cx_round x) (of_round ` snd ` set (ng_offers s)))"
    by (intro Max_ge) auto
  ultimately show ?thesis
    using y False neg_ready_next[OF assms] own_offer_next[OF assms]
    by (simp add: neg_decides_def max_round_Max)
qed

theorem neg_round_spec_witness:
  "\<exists>s' y. neg_update_and_broadcast unary_env 3
     \<lparr>ng_localMac = ''a'', ng_peers = [], ng_offers = [(''a'', \<lparr>of_mac = ''a'', of_round = 1\<rparr>)]\<rparr>
     ctx_init = Some (s', y) \<and>
     F_Switch (T_Playing [] ''a'' ''a'') \<in># waiting y"
  using neg_round_spec[of "{''a''}" "\<lparr>ng_localMac = ''a'', ng_peers = [],
      ng_offers = [(''a'', \<lparr>of_mac = ''a'', of_round = 1\<rparr>)]\<rparr>" unary_env 3
    ctx_init]
  by (auto simp: neg_ready_def sm_wf_def all_offers_equal_def own_offer_def)

text \<open>
  C13. No event makes the offer of the local device disappear: whatever is called, the members of
  the group only shrink, and there is still exactly one offer for each of them and for the local
  device.
\<close>

theorem neg_call_members:
  assumes "neg_ready K s" and "call_negotiating e sid c s x = Some (s', x')"
  shows "\<exists>K' \<subseteq> K. neg_ready K' s' \<and> ng_localMac s' = ng_localMac s \<and> ng_localMac s \<in> K'"
proof -
  have same: "\<exists>K' \<subseteq> K. neg_ready K' s \<and> ng_localMac s \<in> K'"
    using assms(1) by (auto simp: neg_ready_def)
  have forget: "neg_ready (K - {dv_mac d}) (neg_forget d s)" if "dv_count d (ng_peers s)" for d
    using assms(1) that by (auto simp: neg_ready_def neg_forget_def sm_wf_erase dv_macs_erase dv_count_iff)
  have offer: "neg_ready K (s\<lparr>ng_offers := sm_assign (dv_mac d) v (ng_offers s)\<rparr>)"
    if "dv_count d (ng_peers s)" for d v
    using assms(1) that by (intro neg_ready_assign) (auto simp: neg_ready_def dv_count_iff)
  have local: "ng_localMac s \<in> K - {dv_mac d}" if "dv_count d (ng_peers s)" for d
    using assms(1) that by (auto simp: neg_ready_def dv_count_iff)
  show ?thesis
  proof (cases c)
    case (OnMessageReceived d m)
    then have "s' = s \<or> (dv_count d (ng_peers s) \<and> (\<exists>v. s' = s\<lparr>ng_offers := sm_assign (dv_mac d) v (ng_offers s)\<rparr>))"
      using assms(2) by (auto simp: neg_on_message_received_def split: if_splits outcome.splits message.splits)
    then show ?thesis
    proof
      assume "dv_count d (ng_peers s) \<and> (\<exists>v. s' = s\<lparr>ng_offers := sm_assign (dv_mac d) v (ng_offers s)\<rparr>)"
      then show ?thesis using offer[of d] local[of d] by (intro exI[of _ K]) auto
    qed (use same in auto)
  next
    case (OnSocketReadFailure d)
    then have "s' = s \<or> (dv_count d (ng_peers s) \<and> s' = neg_forget d s)"
      using assms(2) by (auto simp: neg_on_socket_read_failure_def split: if_splits)
    moreover have "ng_localMac (neg_forget d s) = ng_localMac s" by (simp add: neg_forget_def)
    ultimately show ?thesis using same forget[of d] local[of d] by (metis Diff_subset)
  qed (use assms(2) same in \<open>auto simp: neg_on_bluetooth_off_def neg_on_game_stopped_def Let_def\<close>)
qed

theorem neg_call_members_witness:
  "\<exists>K' \<subseteq> {''a'', ''b''}. neg_ready K' (neg_forget (dv_of_mac ''b'')
     \<lparr>ng_localMac = ''a'', ng_peers = [dv_of_mac ''b''],
      ng_offers = [(''a'', \<lparr>of_mac = ''a'', of_round = 1\<rparr>), (''b'', \<lparr>of_mac = [], of_round = 0\<rparr>)]\<rparr>)"
proof -
  let ?s = "\<lparr>ng_localMac = ''a'', ng_peers = [dv_of_mac ''b''],
      ng_offers = [(''a'', \<lparr>of_mac = ''a'', of_round = 1\<rparr>), (''b'', \<lparr>of_mac = [], of_round = 0\<rparr>)]\<rparr>"
  obtain y where "neg_disconnect unary_env ''b'' (F_NegDisconnect 0 ''b'') ctx_init = Some y"
    using neg_disconnect_ends[of "''b''" ctx_init unary_env 0 "F_NegDisconnect 0 ''b''"] window_not_full[of ctx_init]
    by (auto simp: unary_env_def manager_init_def ctx_init_def)
  then have call: "call_negotiating unary_env 0 (OnSocketReadFailure (dv_of_mac ''b'')) ?s ctx_init =
      Some (neg_forget (dv_of_mac ''b'') ?s, y)"
    by (simp add: neg_on_socket_read_failure_def dv_count_iff dv_of_mac_def)
  have "neg_ready {''a'', ''b''} ?s" by (auto simp: neg_ready_def sm_wf_def dv_of_mac_def)
  from neg_call_members[OF this call] show ?thesis by blast
qed

end
