(* ===== verification/Xml_Game.thy ===== *)
theory Xml_Game
  imports Serializer Negotiation Fsm_Playing
begin

text \<open>
  The state machine with the program's own serializer and engine: what the devices of a game say to
  each other, through XML.
\<close>

subsection \<open>The environment the program is built with\<close>

text \<open>
  \<open>CreateXmlSerializer\<close> and \<open>CreateUniformEngine\<close> as the collaborators of the controller; \<open>accept\<close> is
  what the external invokers return, \<open>ord\<close> the order of the attributes, \<open>raw\<close> the random numbers.
\<close>

definition written :: "string outcome \<Rightarrow> string" where
  "written r = (case r of Ok s \<Rightarrow> s | _ \<Rightarrow> [])"

definition xml_env ::
  "(nat \<Rightarrow> bool) \<Rightarrow> (attrs \<Rightarrow> attrs) \<Rightarrow> (nat \<Rightarrow> nat \<Rightarrow> u32) \<Rightarrow> env" where
  "xml_env accept ord raw =
     \<lparr>e_accept = accept,
      e_ser_hello = \<lambda>h. written (serialize_hello ord h),
      e_ser_offer = \<lambda>v. written (serialize_offer ord v),
      e_ser_request = \<lambda>r. written (serialize_request ord r),
      e_ser_response = \<lambda>r. written (serialize_response ord r),
      e_deserialize = deserialize,
      e_generate = \<lambda>n. generate_result (raw n)\<rparr>"

lemma deserialize_written: "obind r deserialize = Ok m \<Longrightarrow> deserialize (written r) = Ok m"
  by (cases r) (simp_all add: written_def)

lemma xml_env_travel:
  assumes "attr_order ord" "\<forall>mac \<in> K. plain_mac mac"
  shows "offers_travel (xml_env accept ord raw) K"
proof -
  have "deserialize (written (serialize_offer ord v)) = Ok (MOffer v)"
    if "of_mac v \<in> K" "of_round v < 2 ^ 31" for v
  proof -
    have mac: "plain_mac (of_mac v)" using assms(2) that(1) by blast
    then have "NUL \<notin> set (of_mac v)" "carried_mac (of_mac v) = of_mac v"
      by (auto simp: plain_mac_def carried_plain_mac)
    moreover have "unat (of_round v) < 2 ^ 31" using that(2) by (simp add: word_less_nat_alt)
    moreover have "v\<lparr>of_mac := of_mac v\<rparr> = v" by (cases v) simp
    ultimately show ?thesis
      using offer.transport[of ord v] assms(1) by (intro deserialize_written) simp
  qed
  then show ?thesis by (simp add: offers_travel_def xml_env_def)
qed

subsection \<open>Properties\<close>


definition example_members :: "member list" where
  "example_members =
     [(''AA:01'', [dv_of_mac ''BB:02''], ctx_init), (''BB:02'', [dv_of_mac ''AA:01''], ctx_init\<lparr>cx_round := 6\<rparr>)]"

abbreviation example_env :: env where
  "example_env \<equiv> xml_env (\<lambda>_. True) rev (\<lambda>n i. of_nat (7 * n + i))"


text \<open>
  C2. A cast request is settled from end to end: the request of a player, written as XML and read by
  the generator, gets a response that, written and read again, matches it, so the player's
  pending request is settled by it.
\<close>

theorem cast_request_settled:
  fixes x :: ctx
  assumes "attr_order ord" and "cast_size (rq_cast q) < 2 ^ 64"
    and "e_deserialize (xml_env accept ord raw) (e_ser_request (xml_env accept ord raw) q) = Ok (MRequest q')"
    and "generate_response (xml_env accept ord raw) q' x = (r, x')"
    and "map_of (pl_managers s) (dv_mac sender) = Some p" and "pm_isGenerator p"
    and "pl_pendingRequest s = Some q"
  shows "\<exists>s' y'. play_on_message_received (xml_env accept ord raw) sid sender
             (e_ser_response (xml_env accept ord raw) r) s y = Some (s', y') \<and>
           pl_pendingRequest s' = None"
proof -
  let ?e = "xml_env accept ord raw"
  have q': "q' = q\<lparr>rq_cast := cast_update (map (\<lambda>_. 0)) (rq_cast q)\<rparr>"
    using deserialize_written[OF request.transport[of ord q]] assms(1-3) by (simp add: xml_env_def)
  have r: "rs_cast r = generate_result (raw (cx_gen x)) (rq_cast q')"
    "rs_successCount r = None \<longleftrightarrow> rq_threshold q = None"
    using assms(4) q' by (auto simp: generate_response_def xml_env_def Let_def)
  have same: "cast_index (rs_cast r) = cast_index (rq_cast q)" "cast_size (rs_cast r) = cast_size (rq_cast q)"
    by (simp_all add: r(1) q' uniform.gen_index uniform.gen_size)
  then have "matches r (Some q)" using r(2) by (auto simp: matches_def)
  moreover have "e_deserialize ?e (e_ser_response ?e r) = Ok (MResponse r)"
    using deserialize_written[OF response.transport[of ord r]] assms(1,2) same(2) by (simp add: xml_env_def)
  ultimately have m: "play_on_message_received ?e sid sender (e_ser_response ?e r) s y =
      Some (play_show_response ?e sid r (dv_name (pm_remote p))
        (sender_received (dv_mac sender) p (s\<lparr>pl_pendingRequest := None\<rparr>)) y)"
    using assms(5-7) by (simp add: play_on_message_received_def Let_def)
  obtain s' y' where "play_show_response ?e sid r (dv_name (pm_remote p))
        (sender_received (dv_mac sender) p (s\<lparr>pl_pendingRequest := None\<rparr>)) y = (s', y')" by fastforce
  moreover from this have "pl_pendingRequest s' = None"
    using play_show_response_pending by (metis fst_conv sender_received_pending
        playing.select_convs(4) playing.surjective playing.update_convs(4))
  ultimately show ?thesis using m by simp
qed

theorem cast_request_settled_witness:
  "\<exists>r s' y'. play_on_message_received example_env 0 (dv_of_mac ''a'')
      (e_ser_response example_env r) waiting_player ctx_init = Some (s', y') \<and> pl_pendingRequest s' = None"
proof -
  let ?q = "\<lparr>rq_cast = D6 [0], rq_threshold = None\<rparr>"
  have "deserialize (written (serialize_request rev ?q)) = Ok (MRequest ?q)"
    using request.transport[of rev ?q] by (intro deserialize_written) (simp add: attr_order_def)
  then have "e_deserialize example_env (e_ser_request example_env ?q) = Ok (MRequest ?q)"
    by (simp add: xml_env_def)
  then show ?thesis
    using cast_request_settled[where ord = rev and q = ?q and q' = ?q and x = ctx_init and
        s = waiting_player and sender = "dv_of_mac ''a''" and y = ctx_init and sid = 0 and
        accept = "\<lambda>_. True" and raw = "\<lambda>n i. of_nat (7 * n + i)", OF _ _ _ prod.collapse[symmetric]]
    by (auto simp: waiting_player_def pm_construct_def dv_of_mac_def attr_order_def)
qed

end
