(* ===== verification/Xml_Api.thy ===== *)
theory Xml_Api
  imports Xml
begin

text \<open>
  The rest of the interface of dice/xmlparser.hpp, on top of theory Xml: markup tables, names with a
  namespace, positional access, insertion at a position, copies, and the constructors and setters of
  \<open>Document\<close>.  A client edits an element through a chain of calls; the edits are data here.
\<close>

subsection \<open>Tables\<close>

fun MarkupTable :: "nat \<Rightarrow> string" where
  "MarkupTable i =
     [''<'', ''>'', '' />'', ''</'', [CHR ''='', CHR 0x22], '' '', [CHR 0x22], ''<?xml'', '' ?>''] ! i"

definition DeclarationAttrs :: "string list" where
  "DeclarationAttrs = [''version'', ''encoding'', ''standalone'']"

datatype markup =
    OPENING_TAG_START | SINGLE_TAG_END | OPENING_TAG_END | CLOSING_TAG_START | CLOSING_TAG_END
  | ATTR_START | ATTR_END | ATTR_MID | DECL_START | DECL_END

fun markup_index :: "markup \<Rightarrow> nat" where
  "markup_index OPENING_TAG_START = 0"
| "markup_index SINGLE_TAG_END = 2"
| "markup_index OPENING_TAG_END = 1"
| "markup_index CLOSING_TAG_START = 3"
| "markup_index CLOSING_TAG_END = 1"
| "markup_index ATTR_START = 5"
| "markup_index ATTR_END = 6"
| "markup_index ATTR_MID = 4"
| "markup_index DECL_START = 7"
| "markup_index DECL_END = 8"

abbreviation mk :: "markup \<Rightarrow> string" where
  "mk m \<equiv> MarkupTable (markup_index m)"

text \<open>The printer of theory Xml writes the texts of the tables.\<close>

lemma print_attr_markup:
  "print_attr kv = mk ATTR_START @ fst kv @ mk ATTR_MID @ snd kv @ mk ATTR_END"
  by (simp add: print_attr_def)

lemma print_element_markup:
  "print_element ord (Element name content attrs children) =
     mk OPENING_TAG_START @ name @ concat (map print_attr (ord attrs)) @
     (if content = [] \<and> children = [] then mk SINGLE_TAG_END
      else mk OPENING_TAG_END @ insert_entity_ref content @ concat (map (print_element ord) children) @
           mk CLOSING_TAG_START @ name @ mk CLOSING_TAG_END)"
  by simp

lemma doc_to_string_markup:
  "doc_to_string ord d =
     (if doc_version d = [] \<and> doc_encoding d = [] \<and> doc_standalone d = [] then []
      else mk DECL_START @
           concat (map2 decl_attr DeclarationAttrs [doc_version d, doc_encoding d, doc_standalone d]) @
           mk DECL_END) @ print_element ord (doc_root d)"
  by (simp add: doc_to_string_def DeclarationAttrs_def)

subsection \<open>Elements\<close>

definition set_name :: "string \<Rightarrow> element \<Rightarrow> element" where
  "set_name name e = Element name (el_content e) (el_attrs e) (el_children e)"

definition set_name_ns :: "string \<Rightarrow> string \<Rightarrow> element \<Rightarrow> element" where
  "set_name_ns ns name e = set_name (ns @ '':'' @ name) e"

definition get_name_prefix :: "element \<Rightarrow> string" where
  "get_name_prefix e =
     (if CHR '':'' \<in> set (el_name e) then takeWhile (\<lambda>c. c \<noteq> CHR '':'') (el_name e) else [])"

definition get_name_postfix :: "element \<Rightarrow> string" where
  "get_name_postfix e =
     (if CHR '':'' \<in> set (el_name e) then tl (dropWhile (\<lambda>c. c \<noteq> CHR '':'') (el_name e)) else el_name e)"

definition get_attribute_count :: "element \<Rightarrow> nat" where
  "get_attribute_count e = length (el_attrs e)"

definition get_child_count :: "element \<Rightarrow> nat" where
  "get_child_count e = length (el_children e)"

text \<open>
  \<open>GetAttr\<close>: the iterator moves \<open>index\<close> times, each time only if it is not the end, and is dereferenced;
  \<open>rest\<close> are the attributes from the iterator on.
\<close>

fun get_attr_loop :: "nat \<Rightarrow> attrs \<Rightarrow> (string \<times> string) outcome" where
  "get_attr_loop 0 rest = (case rest of [] \<Rightarrow> Undef | kv # _ \<Rightarrow> Ok kv)"
| "get_attr_loop (Suc n) rest = (case rest of [] \<Rightarrow> Throw XmlException | _ # kvs \<Rightarrow> get_attr_loop n kvs)"

definition get_attr :: "(attrs \<Rightarrow> attrs) \<Rightarrow> nat \<Rightarrow> element \<Rightarrow> (string \<times> string) outcome" where
  "get_attr ord index e = get_attr_loop index (ord (el_attrs e))"

definition get_attribute_name_at :: "(attrs \<Rightarrow> attrs) \<Rightarrow> nat \<Rightarrow> element \<Rightarrow> string outcome" where
  "get_attribute_name_at ord index e = obind (get_attr ord index e) (\<lambda>kv. Ok (fst kv))"

definition get_attribute_value_at :: "(attrs \<Rightarrow> attrs) \<Rightarrow> nat \<Rightarrow> element \<Rightarrow> string outcome" where
  "get_attribute_value_at ord index e = obind (get_attr ord index e) (\<lambda>kv. Ok (snd kv))"

text \<open>\<open>AddChild(pos, name)\<close>: the iterator stops at \<open>pos\<close> or at the end.\<close>

fun insert_child :: "nat \<Rightarrow> element \<Rightarrow> element list \<Rightarrow> element list" where
  "insert_child pos c [] = [c]"
| "insert_child pos c (x # xs) = (case pos of 0 \<Rightarrow> c # x # xs | Suc p \<Rightarrow> x # insert_child p c xs)"

definition add_child_at :: "nat \<Rightarrow> string \<Rightarrow> (element \<Rightarrow> element outcome) \<Rightarrow> element \<Rightarrow> element outcome" where
  "add_child_at pos name f e =
     (if el_content e \<noteq> [] then Throw XmlException
      else obind (f (new_element name)) (\<lambda>c.
        Ok (Element (el_name e) (el_content e) (el_attrs e) (insert_child pos c (el_children e)))))"

text \<open>\<open>ElementData::Copy\<close>\<close>

fun copy_element :: "element \<Rightarrow> element" where
  "copy_element (Element name content attrs children) =
     Element name content attrs (map copy_element children)"

subsection \<open>Documents\<close>

definition make_document :: "string \<Rightarrow> string \<Rightarrow> string \<Rightarrow> string \<Rightarrow> document" where
  "make_document root_name version encoding standalone =
     \<lparr>doc_root = new_element root_name, doc_version = version, doc_encoding = encoding,
      doc_standalone = standalone\<rparr>"

definition copy_document :: "document \<Rightarrow> document" where
  "copy_document d =
     (make_document [] (doc_version d) (doc_encoding d) (doc_standalone d))\<lparr>doc_root := copy_element (doc_root d)\<rparr>"

definition set_version :: "string \<Rightarrow> document \<Rightarrow> document" where
  "set_version v d = d\<lparr>doc_version := v\<rparr>"

definition set_encoding :: "string \<Rightarrow> document \<Rightarrow> document" where
  "set_encoding v d = d\<lparr>doc_encoding := v\<rparr>"

definition set_standalone :: "string \<Rightarrow> document \<Rightarrow> document" where
  "set_standalone v d = d\<lparr>doc_standalone := v\<rparr>"

text \<open>
  \<open>ParseStream\<close>: \<open>read\<close> yields false when it gets fewer than \<open>SIZE\<close> characters, which are then
  \<open>gcount\<close> many.
\<close>

abbreviation SIZE :: nat where "SIZE \<equiv> 4096"

function read_stream :: "string \<Rightarrow> string \<Rightarrow> string" where
  "read_stream s input =
     (if SIZE \<le> length input then read_stream (s @ take SIZE input) (drop SIZE input) else s @ input)"
  by pat_completeness auto

termination read_stream
  by (relation "measure (\<lambda>(s, input). length input)") auto

declare read_stream.simps [simp del]

definition parse_stream :: "string \<Rightarrow> bool \<Rightarrow> document outcome" where
  "parse_stream input entity_references =
     parse_document entity_references (takeWhile (\<lambda>c. c \<noteq> NUL) (read_stream [] input))"

subsection \<open>Chains of edits\<close>

text \<open>What a client does to an element; a new child is edited through the wrapper that \<open>AddChild\<close> returns.\<close>

datatype edit =
    SetName string
  | SetNameNs string string
  | SetContent string
  | AddAttribute string string
  | AddChild string "edit list"
  | AddChildAt nat string "edit list"

fun apply_edit :: "edit \<Rightarrow> element \<Rightarrow> element outcome"
  and apply_edits :: "edit list \<Rightarrow> element \<Rightarrow> element outcome" where
  "apply_edit (SetName n) e = Ok (set_name n e)"
| "apply_edit (SetNameNs ns n) e = Ok (set_name_ns ns n e)"
| "apply_edit (SetContent c) e = set_content c e"
| "apply_edit (AddAttribute k v) e = Ok (add_attribute k v e)"
| "apply_edit (AddChild n eds) e = add_child n (apply_edits eds) e"
| "apply_edit (AddChildAt pos n eds) e = add_child_at pos n (apply_edits eds) e"
| "apply_edits [] e = Ok e"
| "apply_edits (ed # eds) e = obind (apply_edit ed e) (apply_edits eds)"

text \<open>An element has content or children, and each attribute once; so have its children.\<close>

fun well_formed :: "element \<Rightarrow> bool" where
  "well_formed (Element name content attrs children) \<longleftrightarrow>
     (content = [] \<or> children = []) \<and> al_wf attrs \<and> (\<forall>c \<in> set children. well_formed c)"

lemma well_formed_iff:
  "well_formed e \<longleftrightarrow>
     (el_content e = [] \<or> el_children e = []) \<and> al_wf (el_attrs e) \<and> (\<forall>c \<in> set (el_children e). well_formed c)"
  by (cases e) simp

lemma set_insert_child [simp]: "set (insert_child pos c xs) = insert c (set xs)"
  by (induction pos c xs rule: insert_child.induct) (auto split: nat.splits)

lemma insert_child_at: "insert_child pos c xs = take pos xs @ c # drop pos xs"
  by (induction pos c xs rule: insert_child.induct) (auto split: nat.splits)

lemma well_formed_new [simp]: "well_formed (new_element n)"
  by (simp add: new_element_def al_wf_def)

lemma well_formed_simps [intro]:
  "well_formed e \<Longrightarrow> well_formed (set_name n e)"
  "well_formed e \<Longrightarrow> well_formed (set_name_ns ns n e)"
  "well_formed e \<Longrightarrow> well_formed (add_attribute k v e)"
  "well_formed e \<Longrightarrow> set_content c e = Ok e' \<Longrightarrow> well_formed e'"
  by (auto simp: new_element_def set_name_def set_name_ns_def add_attribute_def set_content_def with_content_def
      well_formed_iff[of e] al.invar_assign split: if_splits)

lemma apply_well_formed:
  "apply_edit ed e = Ok e' \<Longrightarrow> well_formed e \<Longrightarrow> well_formed e'"
  "apply_edits eds e = Ok e' \<Longrightarrow> well_formed e \<Longrightarrow> well_formed e'"
proof (induction ed e and eds e arbitrary: e' and e' rule: apply_edit_apply_edits.induct)
  case (5 n eds e)
  then show ?case
    by (auto simp: add_child_def append_child_def well_formed_iff[of e] obind_eq_Ok split: if_splits)
next
  case (6 pos n eds e)
  then show ?case
    by (auto simp: add_child_at_def well_formed_iff[of e] obind_eq_Ok split: if_splits)
qed (auto simp: obind_eq_Ok)

text \<open>When an edit throws.\<close>

fun edit_ok :: "edit \<Rightarrow> element \<Rightarrow> bool" where
  "edit_ok (SetContent _) e \<longleftrightarrow> el_children e = []"
| "edit_ok (AddChild n eds) e \<longleftrightarrow> el_content e = [] \<and> (\<exists>c. apply_edits eds (new_element n) = Ok c)"
| "edit_ok (AddChildAt _ n eds) e \<longleftrightarrow> el_content e = [] \<and> (\<exists>c. apply_edits eds (new_element n) = Ok c)"
| "edit_ok _ e \<longleftrightarrow> True"

lemma apply_edits_no_Undef: "apply_edit ed e \<noteq> Undef" "apply_edits eds e \<noteq> Undef"
proof (induction ed e and eds e rule: apply_edit_apply_edits.induct)
  case (5 n eds e)
  then show ?case by (cases "apply_edits eds (new_element n)") (auto simp: add_child_def)
next
  case (6 pos n eds e)
  then show ?case by (cases "apply_edits eds (new_element n)") (auto simp: add_child_at_def)
next
  case (8 ed eds e)
  then show ?case by (cases "apply_edit ed e") auto
qed (auto simp: set_content_def)

lemma apply_edits_throws: "apply_edit ed e = Throw x \<Longrightarrow> x = XmlException" "apply_edits eds e = Throw x \<Longrightarrow> x = XmlException"
proof (induction ed e and eds e arbitrary: x and x rule: apply_edit_apply_edits.induct)
  case (5 n eds e)
  then show ?case by (cases "apply_edits eds (new_element n)") (auto simp: add_child_def split: if_splits)
next
  case (6 pos n eds e)
  then show ?case by (cases "apply_edits eds (new_element n)") (auto simp: add_child_at_def split: if_splits)
next
  case (8 ed eds e)
  then show ?case by (cases "apply_edit ed e") auto
qed (auto simp: set_content_def split: if_splits)

lemma apply_edit_ok: "(\<exists>e'. apply_edit ed e = Ok e') \<longleftrightarrow> edit_ok ed e"
  by (cases ed) (auto simp: set_content_def add_child_def add_child_at_def obind_eq_Ok)

text \<open>Copies and names.\<close>

lemma copy_element_same: "copy_element e = e"
  by (induction e) (simp add: map_idI)

lemma copy_document_same: "copy_document d = d"
  by (simp add: copy_document_def make_document_def copy_element_same)

lemma name_parts:
  assumes "CHR '':'' \<notin> set ns"
  shows "get_name_prefix (set_name_ns ns n e) = ns \<and> get_name_postfix (set_name_ns ns n e) = n"
proof -
  have "dropWhile (\<lambda>c. c \<noteq> CHR '':'') (ns @ CHR '':'' # n) = CHR '':'' # n"
    using assms by (intro dropWhile_stop) auto
  then show ?thesis
    using set_takeWhile_stop[OF assms, of n]
    by (simp add: get_name_prefix_def get_name_postfix_def set_name_ns_def set_name_def)
qed

lemma get_attr_loop_spec:
  "get_attr_loop n m =
     (if n < length m then Ok (m ! n) else if n = length m then Undef else Throw XmlException)"
  by (induction n m rule: get_attr_loop.induct) (auto split: list.splits)

lemma read_stream_all: "read_stream s input = s @ input"
  by (induction s input rule: read_stream.induct) (subst read_stream.simps, auto)

subsection \<open>Properties\<close>

text \<open>
  C19. Whatever a client does through the interface of \<open>Element\<close>, an element it started from scratch is
  well formed: it and its descendants have content or children but not both, and no attribute twice.
  An edit that would break this throws \<open>xml::Exception\<close>, and no edit throws anything else or is
  undefined.
\<close>

theorem edits_well_formed:
  "(case apply_edits eds (new_element n) of
      Ok e \<Rightarrow> well_formed e \<and> (\<forall>ed. case apply_edit ed e of
                Ok e' \<Rightarrow> edit_ok ed e \<and> well_formed e' | Throw x \<Rightarrow> \<not> edit_ok ed e \<and> x = XmlException | Undef \<Rightarrow> False)
    | Throw x \<Rightarrow> x = XmlException
    | Undef \<Rightarrow> False)"
proof (cases "apply_edits eds (new_element n)")
  case (Ok e)
  then have w: "well_formed e" using apply_well_formed(2) by simp
  have "case apply_edit ed e of Ok e' \<Rightarrow> edit_ok ed e \<and> well_formed e'
          | Throw x \<Rightarrow> \<not> edit_ok ed e \<and> x = XmlException | Undef \<Rightarrow> False" for ed
    using apply_edit_ok[of ed e] apply_edits_no_Undef(1)[of ed e] apply_edits_throws(1)[of ed e]
      apply_well_formed(1)[of ed e, OF _ w]
    by (cases "apply_edit ed e") auto
  then show ?thesis using Ok w by simp
next
  case (Throw x)
  then show ?thesis using apply_edits_throws(2) by simp
next
  case Undef
  then show ?thesis using apply_edits_no_Undef(2) by blast
qed

lemma attribute_at_index:
  assumes "\<forall>m. length (ord m) = length m"
  shows "get_attr ord index e =
           (if index < get_attribute_count e then Ok (ord (el_attrs e) ! index)
            else if index = get_attribute_count e then Undef else Throw XmlException)"
  using assms by (simp add: get_attr_def get_attribute_count_def get_attr_loop_spec)

text \<open>
  C39. Positions, copies and streams.  An index below the number of attributes gives the attribute at
  that position, in whatever order the table iterates, and a larger index throws, but the index that
  equals the number passes the check and dereferences the end iterator.  \<open>AddChild(pos)\<close> inserts the
  new child at its position, or at the end; a name that was set with a namespace is split again where
  it was joined; a copy of a document equals it; and \<open>ParseStream\<close> finds in a stream what
  \<open>ParseString\<close> finds in the same text.
\<close>

theorem element_interface:
  assumes "\<forall>m. length (ord m) = length m" "CHR '':'' \<notin> set ns" "el_content e = []"
  shows "get_attr ord index e =
           (if index < get_attribute_count e then Ok (ord (el_attrs e) ! index)
            else if index = get_attribute_count e then Undef else Throw XmlException) \<and>
         add_child_at pos n Ok e =
           Ok (Element (el_name e) [] (el_attrs e)
                 (take pos (el_children e) @ new_element n # drop pos (el_children e))) \<and>
         get_name_prefix (set_name_ns ns n e) = ns \<and> get_name_postfix (set_name_ns ns n e) = n \<and>
         copy_document d = d \<and>
         parse_stream s er = parse_string s er"
  using attribute_at_index[OF assms(1)] assms(3) name_parts[OF assms(2)]
  by (simp add: add_child_at_def insert_child_at copy_document_same parse_stream_def parse_string_def read_stream_all)

theorem element_interface_witness:
  "get_attr rev 1 (Element ''a'' [] [(''k'', ''v'')] []) = Undef \<and>
   add_child_at 1 ''b'' Ok (Element ''r'' [] [] [new_element ''a'', new_element ''c'']) =
     Ok (Element ''r'' [] [] [new_element ''a'', new_element ''b'', new_element ''c'']) \<and>
   get_name_prefix (set_name_ns ''svg'' ''path'' (new_element [])) = ''svg''"
  using element_interface[of rev "''svg''" "Element ''a'' [] [(''k'', ''v'')] []" 1]
    element_interface[of rev "''svg''" "Element ''r'' [] [] [new_element ''a'', new_element ''c'']" _ 1 "''b''"]
    element_interface[of rev "''svg''" "new_element []" _ _ "''path''"]
  by (simp add: new_element_def get_attribute_count_def)

end
