(* ===== verification/Fmt.thy ===== *)
theory Fmt
  imports Text_Conv Dice
begin

text \<open>
  The text formatter of utils/format.hpp and utils/format.cpp: the overloads of \<open>WriteAsText\<close>,
  the scanning of the format string and \<open>Format\<close>, with the overload for casts (dice/cast.cpp).
\<close>

subsection \<open>Spans\<close>

text \<open>
  A \<open>std::span<char>\<close> of this code always reaches to the end of the array it looks into, so it
  is the array and the position of its first byte; what is written through it changes the
  array.  \<open>sp_put\<close> is \<open>dest[0] = c\<close> followed by \<open>dest.subspan(1)\<close>.
\<close>

record span =
  sp_mem :: string
  sp_pos :: nat

definition sp_size :: "span \<Rightarrow> nat" where
  "sp_size d = length (sp_mem d) - sp_pos d"

abbreviation sp_empty :: "span \<Rightarrow> bool" where
  "sp_empty d \<equiv> sp_size d = 0"

definition sp_ok :: "span \<Rightarrow> bool" where
  "sp_ok d \<longleftrightarrow> sp_pos d \<le> length (sp_mem d)"

definition sp_put :: "char \<Rightarrow> span \<Rightarrow> span" where
  "sp_put c d = d\<lparr>sp_mem := (sp_mem d)[sp_pos d := c], sp_pos := Suc (sp_pos d)\<rparr>"

fun copy_n :: "string \<Rightarrow> span \<Rightarrow> span" where
  "copy_n [] d = d"
| "copy_n (c # cs) d = copy_n cs (sp_put c d)"

subsection \<open>Writing one value (utils/format.cpp)\<close>

definition write_char :: "char \<Rightarrow> span \<Rightarrow> span" where
  "write_char c d = sp_put c d"

definition write_view :: "string \<Rightarrow> span \<Rightarrow> span" where
  "write_view arg d = copy_n (take (min (length arg) (sp_size d)) arg) d"

text \<open>
  \<open>std::to_chars\<close> leaves the bytes unspecified when the digits do not fit, and returns the end
  of the range: \<open>junk i\<close> is what it leaves in the \<open>i\<close>-th byte, an arbitrary function.
\<close>

definition to_chars :: "(nat \<Rightarrow> char) \<Rightarrow> string \<Rightarrow> span \<Rightarrow> span" where
  "to_chars junk digits d =
     (if length digits \<le> sp_size d then copy_n digits d
      else copy_n (map junk [0..<sp_size d]) d)"

definition write_number :: "(nat \<Rightarrow> char) \<Rightarrow> int \<Rightarrow> span \<Rightarrow> span" where
  "write_number junk i d = to_chars junk (int_to_string i) d"

definition hex_char :: "nat \<Rightarrow> char" where
  "hex_char n = (if n < 10 then digit_char n else char_of (87 + n))"

fun to_hex :: "nat \<Rightarrow> string" where
  "to_hex n = (if n < 16 then [hex_char n] else to_hex (n div 16) @ [hex_char (n mod 16)])"

declare to_hex.simps [simp del]

definition write_pointer :: "(nat \<Rightarrow> char) \<Rightarrow> u64 \<Rightarrow> span \<Rightarrow> span" where
  "write_pointer junk p d = to_chars junk (to_hex (unat p)) (write_view ''0x'' d)"

definition write_bool :: "bool \<Rightarrow> span \<Rightarrow> span" where
  "write_bool b d = (if b then write_view ''true'' d else write_view ''false'' d)"

text \<open>The view of a \<open>const char *\<close> ends at the first zero byte.\<close>

definition write_cstring :: "string \<Rightarrow> span \<Rightarrow> span" where
  "write_cstring arg d = write_view (takeWhile (\<lambda>c. c \<noteq> CHR 0x00) arg) d"

definition write_string :: "string \<Rightarrow> span \<Rightarrow> span" where
  "write_string arg d = write_view arg d"

subsection \<open>Placeholders\<close>

definition parse_placeholder :: "string \<Rightarrow> nat" where
  "parse_placeholder src = (if take 2 src = ''{}'' then 2 else 0)"

fun count_placeholders :: "string \<Rightarrow> nat" where
  "count_placeholders [] = 0"
| "count_placeholders (c # src) =
     (if parse_placeholder (c # src) > 0 then 1 else 0) + count_placeholders src"

fun copy_until_placeholder :: "string \<Rightarrow> span \<Rightarrow> string \<times> span" where
  "copy_until_placeholder [] d = ([], d)"
| "copy_until_placeholder (c # src) d =
     (if sp_empty d then (c # src, d)
      else if parse_placeholder (c # src) > 0 then (drop (parse_placeholder (c # src)) (c # src), d)
      else copy_until_placeholder src (sp_put c d))"

text \<open>
  \<open>Format\<close> with its parameter pack as the list of the calls of \<open>WriteAsText\<close> the overload
  resolution selects: the fold over the pack stops as soon as the buffer is full.
\<close>

fun process_args :: "(span \<Rightarrow> span) list \<Rightarrow> string \<Rightarrow> span \<Rightarrow> string \<times> span" where
  "process_args [] src d = (src, d)"
| "process_args (w # ws) src d =
     (let (src1, d1) = copy_until_placeholder src d;
          d2 = (if \<not> sp_empty d1 then w d1 else d1)
      in if \<not> sp_empty d2 then process_args ws src1 d2 else (src1, d2))"

definition fmt_format :: "span \<Rightarrow> string \<Rightarrow> (span \<Rightarrow> span) list \<Rightarrow> span" where
  "fmt_format d src args =
     (let (src1, d1) = process_args args src d in snd (copy_until_placeholder src1 d1))"

text \<open>\<open>dice::WriteAsText\<close> of a cast (dice/cast.cpp): every value followed by a semicolon.\<close>

definition write_cast :: "(nat \<Rightarrow> char) \<Rightarrow> cast \<Rightarrow> span \<Rightarrow> span" where
  "write_cast junk c d =
     foldl (\<lambda>d e. fmt_format d ''{};'' [write_number junk (uint e)]) d (cast_vals c)"

subsection \<open>Facts on spans\<close>

text \<open>What a writer may change: the bytes between its first position and the one it returns.\<close>

definition sp_grows :: "span \<Rightarrow> span \<Rightarrow> bool" where
  "sp_grows d e \<longleftrightarrow>
     length (sp_mem e) = length (sp_mem d) \<and> sp_pos d \<le> sp_pos e \<and> sp_ok e \<and>
     take (sp_pos d) (sp_mem e) = take (sp_pos d) (sp_mem d) \<and>
     drop (sp_pos e) (sp_mem e) = drop (sp_pos e) (sp_mem d)"

lemma sp_grows_refl [simp]: "sp_ok d \<Longrightarrow> sp_grows d d"
  by (simp add: sp_grows_def)

lemma sp_grows_trans:
  assumes de: "sp_grows d e" and ef: "sp_grows e f"
  shows "sp_grows d f"
proof -
  have "take (sp_pos d) (sp_mem f) = take (sp_pos d) (take (sp_pos e) (sp_mem f))"
    using de by (simp add: sp_grows_def min_absorb1)
  also have "\<dots> = take (sp_pos d) (sp_mem d)"
    using de ef by (simp add: sp_grows_def min_absorb1)
  finally have t: "take (sp_pos d) (sp_mem f) = take (sp_pos d) (sp_mem d)" .
  have "drop (sp_pos f) (sp_mem e) = drop (sp_pos f - sp_pos e) (drop (sp_pos e) (sp_mem e))"
    using ef by (simp add: sp_grows_def)
  also have "\<dots> = drop (sp_pos f) (sp_mem d)"
    using de ef by (simp add: sp_grows_def)
  finally show ?thesis using t de ef by (simp add: sp_grows_def)
qed

lemma sp_grows_ok: "sp_grows d e \<Longrightarrow> sp_ok e"
  by (simp add: sp_grows_def)

lemma sp_put_grows: "\<not> sp_empty d \<Longrightarrow> sp_grows d (sp_put c d)"
  by (simp add: sp_grows_def sp_put_def sp_size_def sp_ok_def)

lemma sp_put_size [simp]: "sp_size (sp_put c d) = sp_size d - 1"
  by (simp add: sp_put_def sp_size_def)

lemma sp_put_ok: "\<not> sp_empty d \<Longrightarrow> sp_ok (sp_put c d)"
  by (simp add: sp_put_def sp_size_def sp_ok_def)

lemma copy_n_append: "copy_n (s @ t) d = copy_n t (copy_n s d)"
  by (induction s arbitrary: d) auto

lemma copy_n_size [simp]: "sp_size (copy_n t d) = sp_size d - length t"
  by (induction t arbitrary: d) auto

lemma copy_n_grows: "sp_ok d \<Longrightarrow> length t \<le> sp_size d \<Longrightarrow> sp_grows d (copy_n t d)"
proof (induction t arbitrary: d)
  case (Cons c t)
  then have n: "\<not> sp_empty d" by auto
  have "sp_grows (sp_put c d) (copy_n t (sp_put c d))"
    using Cons.prems by (intro Cons.IH sp_put_ok) simp_all
  then show ?case using sp_grows_trans[OF sp_put_grows[OF n]] by simp
qed simp

lemma copy_n_mem:
  "sp_ok d \<Longrightarrow> length t \<le> sp_size d \<Longrightarrow>
   copy_n t d = \<lparr>sp_mem = take (sp_pos d) (sp_mem d) @ t @ drop (sp_pos d + length t) (sp_mem d),
                 sp_pos = sp_pos d + length t\<rparr>"
proof (induction t arbitrary: d)
  case (Cons c t)
  then have n: "\<not> sp_empty d" by auto
  then have p: "sp_pos d < length (sp_mem d)" by (simp add: sp_size_def)
  have "take (Suc (sp_pos d)) ((sp_mem d)[sp_pos d := c]) = take (sp_pos d) (sp_mem d) @ [c]"
    using p by (simp add: take_Suc_conv_app_nth)
  moreover have "copy_n t (sp_put c d) =
    \<lparr>sp_mem = take (sp_pos (sp_put c d)) (sp_mem (sp_put c d)) @ t @
               drop (sp_pos (sp_put c d) + length t) (sp_mem (sp_put c d)),
     sp_pos = sp_pos (sp_put c d) + length t\<rparr>"
    using Cons.prems n by (intro Cons.IH sp_put_ok) simp_all
  ultimately show ?case by (simp add: sp_put_def)
qed simp

subsection \<open>Writers\<close>

text \<open>
  What \<open>Format\<close> expects of an overload of \<open>WriteAsText\<close>, given a span with room: it touches only
  the span, writes the value's text when there is room for it and fills the span otherwise.
\<close>

locale writer =
  fixes wr :: "'a \<Rightarrow> span \<Rightarrow> span"
    and txt_of :: "'a \<Rightarrow> string"
  assumes writes: "sp_ok d \<Longrightarrow> length (txt_of a) \<le> sp_size d \<Longrightarrow> wr a d = copy_n (txt_of a) d"
    and fills: "sp_ok d \<Longrightarrow> sp_size d < length (txt_of a) \<Longrightarrow> sp_empty (wr a d)"
    and within: "sp_ok d \<Longrightarrow> sp_grows d (wr a d)"
begin

lemma wr_size: "sp_ok d \<Longrightarrow> sp_size (wr a d) = sp_size d - length (txt_of a)"
  using writes[of d a] fills[of d a] by (cases "length (txt_of a) \<le> sp_size d") auto

end

lemma parse_placeholder_pos: "parse_placeholder src > 0 \<longleftrightarrow> (\<exists>rest. src = ''{}'' @ rest)"
proof
  assume "parse_placeholder src > 0"
  then have "take 2 src = ''{}''" by (simp add: parse_placeholder_def split: if_splits)
  then have "src = ''{}'' @ drop 2 src" by (metis append_take_drop_id)
  then show "\<exists>rest. src = ''{}'' @ rest" ..
qed (auto simp: parse_placeholder_def)

lemma parse_placeholder_simps [simp]:
  "parse_placeholder (CHR 0x7B # CHR 0x7D # src) = 2" "c \<noteq> CHR 0x7B \<Longrightarrow> parse_placeholder (c # src) = 0"
  by (auto simp: parse_placeholder_def take_Cons' split: if_splits)

lemma copy_until_placeholder_grows: "sp_ok d \<Longrightarrow> sp_grows d (snd (copy_until_placeholder src d))"
proof (induction src d rule: copy_until_placeholder.induct)
  case (2 c src d)
  then show ?case
    using sp_grows_trans[OF sp_put_grows, of d c] by (auto simp: sp_put_ok)
qed simp

text \<open>The literal text before the first placeholder, and the format string after it.\<close>

fun literal :: "string \<Rightarrow> string" where
  "literal [] = []"
| "literal (c # src) = (if parse_placeholder (c # src) > 0 then [] else c # literal src)"

fun after_placeholder :: "string \<Rightarrow> string" where
  "after_placeholder [] = []"
| "after_placeholder (c # src) =
     (if parse_placeholder (c # src) > 0 then drop (parse_placeholder (c # src)) (c # src)
      else after_placeholder src)"

lemma count_placeholders_0: "count_placeholders src = 0 \<Longrightarrow> literal src = src \<and> after_placeholder src = []"
  by (induction src) (auto split: if_splits)

lemma parse_placeholder_cases: "parse_placeholder src = 0 \<or> (\<exists>rest. src = ''{}'' @ rest)"
  using parse_placeholder_pos[of src] by auto

lemma count_after_placeholder: "count_placeholders (after_placeholder src) = count_placeholders src - 1"
proof (induction src)
  case (Cons c src)
  then show ?case using parse_placeholder_cases[of "c # src"] by auto
qed simp

lemma copy_until_placeholder_fits:
  "length (literal src) < sp_size d \<Longrightarrow>
   copy_until_placeholder src d = (after_placeholder src, copy_n (literal src) d)"
  by (induction src d rule: copy_until_placeholder.induct) (auto split: if_splits)

lemma copy_until_placeholder_full:
  "sp_size d \<le> length (literal src) \<Longrightarrow>
   snd (copy_until_placeholder src d) = copy_n (take (sp_size d) (literal src)) d"
proof (induction src d rule: copy_until_placeholder.induct)
  case (2 c src d)
  then show ?case by (cases "sp_size d") (auto split: if_splits)
qed simp

lemma copy_until_placeholder_empty [simp]: "sp_empty d \<Longrightarrow> copy_until_placeholder src d = (src, d)"
  by (cases src) auto

lemma fmt_format_Nil [simp]: "fmt_format d src [] = snd (copy_until_placeholder src d)"
  by (simp add: fmt_format_def)

lemma fmt_format_Cons:
  "fmt_format d src (w # ws) =
     (let (src1, d1) = copy_until_placeholder src d;
          d2 = (if \<not> sp_empty d1 then w d1 else d1)
      in if \<not> sp_empty d2 then fmt_format d2 src1 ws else d2)"
  by (simp add: fmt_format_def Let_def split: prod.split)

lemma write_view_empty [simp]: "sp_empty d \<Longrightarrow> write_view t d = d"
  by (simp add: write_view_def)

subsection \<open>The contract of Format\<close>

text \<open>The text a format string and the texts of its arguments denote.\<close>

fun render :: "string \<Rightarrow> string list \<Rightarrow> string" where
  "render src [] = literal src"
| "render src (t # ts) = literal src @ t @ render (after_placeholder src) ts"

text \<open>One writer on its own, as the contract of the interface states it.\<close>

abbreviation text_writer :: "(span \<Rightarrow> span) \<Rightarrow> string \<Rightarrow> bool" where
  "text_writer w t \<equiv> writer (\<lambda>_::unit. w) (\<lambda>_. t)"

context writer begin

lemma as_text_writer: "text_writer (wr a) (txt_of a)"
  by unfold_locales (auto simp: writes fills within)

end

text \<open>\<open>copied t d e\<close>: writing \<open>t\<close> to \<open>d\<close> may end in \<open>e\<close>.\<close>

definition copied :: "string \<Rightarrow> span \<Rightarrow> span \<Rightarrow> bool" where
  "copied t d e \<longleftrightarrow>
     sp_grows d e \<and> (if length t \<le> sp_size d then e = copy_n t d else sp_empty e)"

lemma text_writer_copied: "text_writer w t \<Longrightarrow> sp_ok d \<Longrightarrow> copied t d (w d)"
  using writer.writes[of "\<lambda>_::unit. w" "\<lambda>_. t" d] writer.fills[of "\<lambda>_::unit. w" "\<lambda>_. t" d]
    writer.within[of "\<lambda>_::unit. w" "\<lambda>_. t" d]
  by (auto simp: copied_def)

lemma text_writerI: "(\<And>d. sp_ok d \<Longrightarrow> copied t d (w d)) \<Longrightarrow> text_writer w t"
  by unfold_locales (auto simp: copied_def)

lemma copied_trans:
  assumes "copied s d e" "copied t e f"
  shows "copied (s @ t) d f"
  using assms sp_grows_trans[of d e f]
  by (auto simp: copied_def copy_n_append split: if_splits)

lemma copied_refl [simp]: "sp_ok d \<Longrightarrow> copied [] d d"
  by (simp add: copied_def)

lemma copied_ok: "copied t d e \<Longrightarrow> sp_ok e"
  using sp_grows_ok by (auto simp: copied_def)

lemma copied_empty: "sp_ok d \<Longrightarrow> sp_empty d \<Longrightarrow> copied t d d"
  by (simp add: copied_def)

lemma copied_stuck: "copied s d e \<Longrightarrow> sp_empty e \<Longrightarrow> copied (s @ t) d e"
  using copied_trans[of s d e t e] copied_empty[of e t] copied_ok by blast

lemma copied_literal: "sp_ok d \<Longrightarrow> copied (literal src) d (snd (copy_until_placeholder src d))"
  using copy_until_placeholder_fits[of src d] copy_until_placeholder_full[of d src]
    copy_until_placeholder_grows[of d src]
  by (cases "length (literal src) < sp_size d") (auto simp: copied_def)

lemma fmt_format_copied:
  "list_all2 text_writer ws ts \<Longrightarrow> sp_ok d \<Longrightarrow> copied (render src ts) d (fmt_format d src ws)"
proof (induction ws ts arbitrary: src d rule: list_all2_induct)
  case Nil
  then show ?case by (simp add: copied_literal)
next
  case (Cons w ws t ts)
  obtain src1 d1 where c: "copy_until_placeholder src d = (src1, d1)" by fastforce
  have l: "copied (literal src) d d1" using copied_literal[OF Cons.prems, of src] by (simp add: c)
  show ?case
  proof (cases "sp_empty d1")
    case True
    then show ?thesis using copied_stuck[OF l] by (simp add: fmt_format_Cons c)
  next
    case False
    have s: "src1 = after_placeholder src"
      using c False copy_until_placeholder_fits[of src d] copied_literal[OF Cons.prems, of src]
      by (cases "length (literal src) < sp_size d") (auto simp: copied_def split: if_splits)
    have w: "copied t d1 (w d1)" using Cons.hyps(1) copied_ok[OF l] by (rule text_writer_copied)
    have lt: "copied (literal src @ t) d (w d1)" using l w by (rule copied_trans)
    show ?thesis
    proof (cases "sp_empty (w d1)")
      case True
      then show ?thesis using copied_stuck[OF lt] False by (simp add: fmt_format_Cons c)
    next
      case n: False
      have "copied (render src1 ts) (w d1) (fmt_format (w d1) src1 ws)"
        using copied_ok[OF w] by (rule Cons.IH)
      from copied_trans[OF lt this] show ?thesis using False n by (simp add: fmt_format_Cons c s)
    qed
  qed
qed

subsection \<open>The overloads meet the contract\<close>

lemma write_view_copied: "sp_ok d \<Longrightarrow> copied t d (write_view t d)"
  using copy_n_grows[of d "take (sp_size d) t"]
  by (auto simp: copied_def write_view_def min_def copy_n_grows)

lemma to_chars_copied: "sp_ok d \<Longrightarrow> copied t d (to_chars junk t d)"
  by (auto simp: copied_def to_chars_def copy_n_grows)

lemma write_number_copied: "sp_ok d \<Longrightarrow> copied (int_to_string i) d (write_number junk i d)"
  by (simp add: write_number_def to_chars_copied)

lemma write_bool_copied: "sp_ok d \<Longrightarrow> copied (if b then ''true'' else ''false'') d (write_bool b d)"
  by (simp add: write_bool_def write_view_copied)

lemma write_pointer_copied: "sp_ok d \<Longrightarrow> copied (''0x'' @ to_hex (unat p)) d (write_pointer junk p d)"
  unfolding write_pointer_def
  by (rule copied_trans[OF write_view_copied to_chars_copied]) (auto intro: copied_ok write_view_copied)

lemma write_char_copied: "sp_ok d \<Longrightarrow> \<not> sp_empty d \<Longrightarrow> copied [c] d (write_char c d)"
  by (auto simp: copied_def write_char_def sp_put_grows)

text \<open>The text of a cast: its values, each followed by a semicolon.\<close>

definition cast_text :: "cast \<Rightarrow> string" where
  "cast_text c = concat (map (\<lambda>v. int_to_string (uint v) @ '';'') (cast_vals c))"

lemma write_number_text: "text_writer (write_number junk i) (int_to_string i)"
  by (rule text_writerI) (rule write_number_copied)

lemma write_value_copied:
  "sp_ok d \<Longrightarrow> copied (int_to_string i @ '';'') d (fmt_format d ''{};'' [write_number junk i])"
  using fmt_format_copied[of "[write_number junk i]" "[int_to_string i]" d "''{};''"] write_number_text[of junk i]
  by simp

lemma write_values_copied:
  "sp_ok d \<Longrightarrow>
   copied (concat (map (\<lambda>v. int_to_string (uint v) @ '';'') vs)) d
     (foldl (\<lambda>d e. fmt_format d ''{};'' [write_number junk (uint e)]) d vs)"
proof (induction vs arbitrary: d)
  case (Cons v vs)
  have v: "copied (int_to_string (uint v) @ '';'') d (fmt_format d ''{};'' [write_number junk (uint v)])"
    using Cons.prems by (rule write_value_copied)
  show ?case using copied_trans[OF v Cons.IH[OF copied_ok[OF v]]] by simp
qed simp

lemma write_cast_copied: "sp_ok d \<Longrightarrow> copied (cast_text c) d (write_cast junk c d)"
  by (simp add: write_cast_def cast_text_def write_values_copied)

interpretation view: writer write_view "\<lambda>t. t"
  using write_view_copied by unfold_locales (auto simp: copied_def)

interpretation number: writer "write_number junk" int_to_string for junk
  using write_number_copied by unfold_locales (auto simp: copied_def)

interpretation boolean: writer write_bool "\<lambda>b. if b then ''true'' else ''false''"
  using write_bool_copied by unfold_locales (auto simp: copied_def)

interpretation casts: writer "write_cast junk" cast_text for junk
  using write_cast_copied by unfold_locales (auto simp: copied_def)

lemma copied_mem:
  assumes "copied t d e" "sp_ok d" "length t \<le> sp_size d"
  shows "sp_mem e = take (sp_pos d) (sp_mem d) @ t @ drop (sp_pos d + length t) (sp_mem d) \<and>
         sp_pos e = sp_pos d + length t"
  using assms copy_n_mem[of d t] by (simp add: copied_def)

text \<open>
  C28. \<open>Format\<close> stays inside the buffer it is given and keeps every byte before it, whatever the
  arguments are.  When the rendered text fits, the buffer starts with exactly that text, the bytes
  after it are unchanged and the span returned begins behind it; when it does not fit, the span
  returned is empty.
\<close>

theorem format_spec:
  assumes "list_all2 text_writer ws ts" "sp_ok d"
  shows "sp_grows d (fmt_format d src ws) \<and>
         (if length (render src ts) \<le> sp_size d
          then sp_mem (fmt_format d src ws) =
                 take (sp_pos d) (sp_mem d) @ render src ts @
                 drop (sp_pos d + length (render src ts)) (sp_mem d) \<and>
               sp_pos (fmt_format d src ws) = sp_pos d + length (render src ts)
          else sp_empty (fmt_format d src ws))"
proof -
  have c: "copied (render src ts) d (fmt_format d src ws)"
    using assms by (rule fmt_format_copied)
  then show ?thesis using copied_mem[OF c assms(2)] by (auto simp: copied_def)
qed

theorem format_spec_witness:
  "(let ws = [write_number (\<lambda>_. CHR ''?'') (- 42), write_bool True, write_view ''abc'']
    in sp_mem (fmt_format \<lparr>sp_mem = replicate 20 CHR ''.'', sp_pos = 2\<rparr> ''n={}, {}{};'' ws) =
         ''..n=-42, trueabc;...'' \<and>
       sp_empty (fmt_format \<lparr>sp_mem = replicate 9 CHR ''.'', sp_pos = 2\<rparr> ''n={}, {}{};'' ws))"
proof -
  let ?ws = "[write_number (\<lambda>_. CHR ''?'') (- 42), write_bool True, write_view ''abc'']"
  let ?ts = "[''-42'', ''true'', ''abc'']"
  have i: "int_to_string (- 42) = ''-42''" by code_simp
  have w: "list_all2 text_writer ?ws ?ts"
    using number.as_text_writer[of "\<lambda>_. CHR ''?''" "- 42"] boolean.as_text_writer[of True]
      view.as_text_writer[of "''abc''"]
    by (simp add: i)
  have r: "render ''n={}, {}{};'' ?ts = ''n=-42, trueabc;''" by code_simp
  show ?thesis
    using format_spec[OF w, of "\<lparr>sp_mem = replicate 20 CHR ''.'', sp_pos = 2\<rparr>" "''n={}, {}{};''"]
      format_spec[OF w, of "\<lparr>sp_mem = replicate 9 CHR ''.'', sp_pos = 2\<rparr>" "''n={}, {}{};''"]
    unfolding r by (simp add: sp_ok_def sp_size_def numeral_eq_Suc)
qed

end
