(* ===== verification/Cmd_Buffers.thy ===== *)
theory Cmd_Buffers
  imports Fmt Cmd_Types
begin

text \<open>
  The command objects of sign/commands.hpp and sign/commands.cpp: a command keeps the text of
  its parameters in fixed buffers, from which the bridge reads them.
\<close>

subsection \<open>Traits (sign/commands.hpp)\<close>

text \<open>The parameters, with the overload of \<open>WriteAsText\<close> their type selects.\<close>

datatype param = PView string | PNumber int | PBool bool | PCast cast

fun cmd_params :: "command \<Rightarrow> param list" where
  "cmd_params (StartListening uuid name dur) = [PView uuid, PView name, PNumber dur]"
| "cmd_params (StartDiscovery uuid name paired) = [PView uuid, PView name, PBool paired]"
| "cmd_params StopListening = []"
| "cmd_params StopDiscovery = []"
| "cmd_params (CloseConnection msg mac) = [PView msg, PView mac]"
| "cmd_params EnableBluetooth = []"
| "cmd_params NegotiationStart = []"
| "cmd_params (NegotiationStop name) = [PView name]"
| "cmd_params (SendMessage msg mac) = [PView msg, PView mac]"
| "cmd_params (SendLongMessage msg mac) = [PView msg, PView mac]"
| "cmd_params (ShowAndExit t) = [PView t]"
| "cmd_params (ShowToast t dur) = [PView t, PNumber dur]"
| "cmd_params (ShowNotification t) = [PView t]"
| "cmd_params (ShowRequest ty n threshold name) =
     [PView ty, PNumber (int n), PNumber (uint threshold), PView name]"
| "cmd_params (ShowResponse c ty count name) = [PCast c, PView ty, PNumber count, PView name]"
| "cmd_params (ShowLongResponse c ty count name) = [PCast c, PView ty, PNumber count, PView name]"
| "cmd_params ResetGame = []"
| "cmd_params ResetConnections = []"

text \<open>The sizes of \<open>Traits\<close>, \<open>LongTraits\<close> and \<open>ExtraLongTraits\<close>.\<close>

datatype traits = Traits | LongTraits | ExtraLongTraits

fun LONG_BUFFER_SIZE :: "traits \<Rightarrow> nat" where
  "LONG_BUFFER_SIZE Traits = 32"
| "LONG_BUFFER_SIZE LongTraits = 256"
| "LONG_BUFFER_SIZE ExtraLongTraits = 1024"

fun SHORT_BUFFER_SIZE :: "traits \<Rightarrow> nat" where
  "SHORT_BUFFER_SIZE Traits = 24"
| "SHORT_BUFFER_SIZE LongTraits = 32"
| "SHORT_BUFFER_SIZE ExtraLongTraits = 32"

fun cmd_traits :: "command \<Rightarrow> traits" where
  "cmd_traits (StartListening _ _ _) = LongTraits"
| "cmd_traits (StartDiscovery _ _ _) = LongTraits"
| "cmd_traits (SendMessage _ _) = LongTraits"
| "cmd_traits (SendLongMessage _ _) = ExtraLongTraits"
| "cmd_traits (ShowAndExit _) = LongTraits"
| "cmd_traits (ShowResponse _ _ _ _) = LongTraits"
| "cmd_traits (ShowLongResponse _ _ _ _) = ExtraLongTraits"
| "cmd_traits _ = Traits"

definition MAX_BUFFER_SIZE :: "traits \<Rightarrow> nat" where
  "MAX_BUFFER_SIZE t = LONG_BUFFER_SIZE t - 1"

subsection \<open>Filling the buffers (sign/commands.cpp)\<close>

fun write_param :: "(nat \<Rightarrow> char) \<Rightarrow> param \<Rightarrow> span \<Rightarrow> span" where
  "write_param junk (PView s) = write_view s"
| "write_param junk (PNumber i) = write_number junk i"
| "write_param junk (PBool b) = write_bool b"
| "write_param junk (PCast c) = write_cast junk c"

text \<open>
  \<open>WriteToBuffer\<close>: the text goes behind the first byte, which gets its length, reduced to an
  \<open>unsigned char\<close>.
\<close>

definition write_to_buffer :: "(nat \<Rightarrow> char) \<Rightarrow> param \<Rightarrow> string \<Rightarrow> string" where
  "write_to_buffer junk v buffer =
     (let rest = fmt_format \<lparr>sp_mem = buffer, sp_pos = 1\<rparr> ''{}'' [write_param junk v];
          len = length buffer - sp_size rest - 1
      in (sp_mem rest)[0 := char_of len])"

fun fill_char_arrays :: "(nat \<Rightarrow> char) \<Rightarrow> param list \<Rightarrow> string list \<Rightarrow> string list" where
  "fill_char_arrays junk (p # ps) (b # bs) = write_to_buffer junk p b # fill_char_arrays junk ps bs"
| "fill_char_arrays junk ps bs = bs"

record base =
  bs_longArgs :: "string list"
  bs_shortArgs :: "string list"

definition blank :: "nat \<Rightarrow> string" where
  "blank n = replicate n CHR 0x00"

text \<open>The constructor of \<open>Base\<close>; both arrays are zero-initialised.\<close>

definition base_construct :: "(nat \<Rightarrow> char) \<Rightarrow> command \<Rightarrow> base" where
  "base_construct junk c =
     (let ps = cmd_params c;
          long = blank (LONG_BUFFER_SIZE (cmd_traits c));
          short = blank (SHORT_BUFFER_SIZE (cmd_traits c))
      in \<lparr>bs_longArgs = (case ps of [] \<Rightarrow> [] | p # _ \<Rightarrow> [write_to_buffer junk p long]),
          bs_shortArgs = fill_char_arrays junk (drop 1 ps) (replicate (length ps - 1) short)\<rparr>)"

subsection \<open>Reading them\<close>

definition get_args_count :: "command \<Rightarrow> nat" where
  "get_args_count c = length (cmd_params c)"

text \<open>
  \<open>static_cast<size_t>(*buffer)\<close>: whether a plain \<open>char\<close> is signed depends on the platform.
\<close>

definition char_to_size :: "bool \<Rightarrow> char \<Rightarrow> nat" where
  "char_to_size csigned c =
     (if csigned \<and> 128 \<le> char_code c then 2 ^ 64 - 256 + char_code c else char_code c)"

text \<open>
  A view of the bytes after the first one.  It is \<open>Undef\<close> when it reaches behind the array, which
  only the assertions of a debug build catch.
\<close>

definition counted_view :: "bool \<Rightarrow> string \<Rightarrow> string outcome" where
  "counted_view csigned buffer =
     (let n = char_to_size csigned (buffer ! 0)
      in if 1 + n \<le> length buffer then Ok (take n (drop 1 buffer)) else Undef)"

definition terminated_view :: "string \<Rightarrow> string outcome" where
  "terminated_view buffer =
     (if CHR 0x00 \<in> set (drop 1 buffer) then Ok (takeWhile (\<lambda>c. c \<noteq> CHR 0x00) (drop 1 buffer))
      else Undef)"

definition get_arg_at :: "bool \<Rightarrow> command \<Rightarrow> base \<Rightarrow> nat \<Rightarrow> string outcome" where
  "get_arg_at csigned c b index =
     (if index = 0 then
        (if index < length (bs_longArgs b) then
           (if MAX_BUFFER_SIZE (cmd_traits c) \<le> 255 then counted_view csigned (bs_longArgs b ! index)
            else terminated_view (bs_longArgs b ! index))
         else Undef)
      else if index - 1 < length (bs_shortArgs b) then
        counted_view csigned (bs_shortArgs b ! (index - 1))
      else Undef)"

fun cmd_name :: "command \<Rightarrow> string" where
  "cmd_name (StartListening _ _ _) = ''StartListening''"
| "cmd_name (StartDiscovery _ _ _) = ''StartDiscovery''"
| "cmd_name StopListening = ''StopListening''"
| "cmd_name StopDiscovery = ''StopDiscovery''"
| "cmd_name (CloseConnection _ _) = ''CloseConnection''"
| "cmd_name EnableBluetooth = ''EnableBluetooth''"
| "cmd_name NegotiationStart = ''NegotiationStart''"
| "cmd_name (NegotiationStop _) = ''NegotiationStop''"
| "cmd_name (SendMessage _ _) = ''SendMessage''"
| "cmd_name (SendLongMessage _ _) = ''SendLongMessage''"
| "cmd_name (ShowAndExit _) = ''ShowAndExit''"
| "cmd_name (ShowToast _ _) = ''ShowToast''"
| "cmd_name (ShowNotification _) = ''ShowNotification''"
| "cmd_name (ShowRequest _ _ _ _) = ''ShowRequest''"
| "cmd_name (ShowResponse _ _ _ _) = ''ShowResponse''"
| "cmd_name (ShowLongResponse _ _ _ _) = ''ShowLongResponse''"
| "cmd_name ResetGame = ''ResetGame''"
| "cmd_name ResetConnections = ''ResetConnections''"

subsection \<open>The contents of a buffer\<close>

fun param_text :: "param \<Rightarrow> string" where
  "param_text (PView s) = s"
| "param_text (PNumber i) = int_to_string i"
| "param_text (PBool b) = (if b then ''true'' else ''false'')"
| "param_text (PCast c) = cast_text c"

lemma write_param_text: "text_writer (write_param junk p) (param_text p)"
  using view.as_text_writer number.as_text_writer boolean.as_text_writer casts.as_text_writer
  by (cases p) auto

lemma write_param_copied:
  assumes "0 < n"
  shows "copied (param_text p) \<lparr>sp_mem = blank n, sp_pos = 1\<rparr>
           (fmt_format \<lparr>sp_mem = blank n, sp_pos = 1\<rparr> ''{}'' [write_param junk p])"
  using fmt_format_copied[of "[write_param junk p]" "[param_text p]" "\<lparr>sp_mem = blank n, sp_pos = 1\<rparr>" "''{}''"]
    write_param_text[of junk p] assms
  by (simp add: sp_ok_def blank_def)

text \<open>A text that fits is stored behind its length and followed by zeros.\<close>

lemma write_to_buffer_fits:
  assumes "length (param_text p) < n"
  shows "write_to_buffer junk p (blank n) =
         char_of (length (param_text p)) # param_text p @ blank (n - 1 - length (param_text p))"
proof -
  let ?d = "\<lparr>sp_mem = blank n, sp_pos = 1\<rparr>"
  let ?e = "fmt_format ?d ''{}'' [write_param junk p]"
  have n: "0 < n" using assms by simp
  then obtain m where m: "n = Suc m" by (cases n) auto
  have "sp_mem ?e = take 1 (blank n) @ param_text p @ drop (1 + length (param_text p)) (blank n) \<and>
        sp_pos ?e = 1 + length (param_text p)"
    using copied_mem[OF write_param_copied[OF n, of p junk]] assms n
    by (simp add: sp_ok_def sp_size_def blank_def)
  then show ?thesis using assms
    by (simp add: write_to_buffer_def Let_def sp_size_def blank_def m)
qed

text \<open>A text that does not fit fills the buffer; a string is cut off.\<close>

lemma write_to_buffer_full:
  assumes "0 < n" "n \<le> length (param_text p)"
  shows "length (write_to_buffer junk p (blank n)) = n \<and>
         write_to_buffer junk p (blank n) ! 0 = char_of (n - 1)"
proof -
  let ?d = "\<lparr>sp_mem = blank n, sp_pos = 1\<rparr>"
  let ?e = "fmt_format ?d ''{}'' [write_param junk p]"
  have c: "copied (param_text p) ?d ?e" using assms(1) by (rule write_param_copied)
  then have "sp_empty ?e" "length (sp_mem ?e) = n"
    using assms by (auto simp: copied_def sp_grows_def sp_size_def blank_def split: if_splits)
  then show ?thesis using assms by (simp add: write_to_buffer_def Let_def blank_def)
qed

lemma write_to_buffer_view:
  assumes "0 < n"
  shows "write_to_buffer junk (PView s) (blank n) =
         char_of (min (length s) (n - 1)) # take (n - 1) s @ blank (n - 1 - length s)"
proof (cases "length s < n")
  case True
  then show ?thesis using write_to_buffer_fits[of "PView s" n junk] by simp
next
  case False
  then obtain m where m: "n = Suc m" "m < length s" using assms by (cases n) auto
  let ?d = "\<lparr>sp_mem = blank n, sp_pos = 1\<rparr>"
  have e: "fmt_format ?d ''{}'' [write_view s] = write_view s ?d"
    by (auto simp: fmt_format_Cons Let_def)
  have "sp_mem (write_view s ?d) = CHR 0x00 # take m s"
    using m copy_n_mem[of ?d "take m s"]
    by (simp add: write_view_def sp_ok_def blank_def sp_size_def)
  moreover have "sp_size (write_view s ?d) = 0"
    using m view.wr_size[of ?d s] by (simp add: sp_ok_def blank_def sp_size_def)
  moreover have "write_to_buffer junk (PView s) (blank n) =
    (sp_mem (write_view s ?d))[0 := char_of (length (blank n) - sp_size (write_view s ?d) - 1)]"
    by (simp only: write_to_buffer_def write_param.simps e Let_def)
  ultimately show ?thesis using m by (simp add: blank_def)
qed

subsection \<open>Reading back what was written\<close>

lemma fill_char_arrays_map:
  "fill_char_arrays junk ps (replicate (length ps) b) = map (\<lambda>p. write_to_buffer junk p b) ps"
  by (induction ps) auto

definition arg_buffer_size :: "command \<Rightarrow> nat \<Rightarrow> nat" where
  "arg_buffer_size c i =
     (if i = 0 then LONG_BUFFER_SIZE (cmd_traits c) else SHORT_BUFFER_SIZE (cmd_traits c))"

lemma arg_buffer_size_ge: "24 \<le> arg_buffer_size c i"
  by (cases "cmd_traits c") (auto simp: arg_buffer_size_def)

abbreviation arg_buffer :: "(nat \<Rightarrow> char) \<Rightarrow> command \<Rightarrow> nat \<Rightarrow> string" where
  "arg_buffer junk c i \<equiv> write_to_buffer junk (cmd_params c ! i) (blank (arg_buffer_size c i))"

text \<open>The parameters whose view is delimited by a zero byte, not by the length byte.\<close>

definition zero_terminated :: "command \<Rightarrow> nat \<Rightarrow> bool" where
  "zero_terminated c i \<longleftrightarrow> i = 0 \<and> cmd_traits c = ExtraLongTraits"

lemma get_arg_at_buffer:
  assumes "i < get_args_count c"
  shows "get_arg_at csigned c (base_construct junk c) i =
         (if zero_terminated c i then terminated_view (arg_buffer junk c i)
          else counted_view csigned (arg_buffer junk c i))"
proof -
  obtain p ps where p: "cmd_params c = p # ps" using assms by (cases "cmd_params c") (auto simp: get_args_count_def)
  have "fill_char_arrays junk ps (replicate (length ps) b) ! (i - 1) = write_to_buffer junk (ps ! (i - 1)) b"
    if "i \<noteq> 0" for b
    using assms that by (simp add: fill_char_arrays_map p get_args_count_def)
  moreover have "MAX_BUFFER_SIZE (cmd_traits c) \<le> 255 \<longleftrightarrow> cmd_traits c \<noteq> ExtraLongTraits"
    by (cases "cmd_traits c") (auto simp: MAX_BUFFER_SIZE_def)
  ultimately show ?thesis using assms
    by (cases i)
      (auto simp: get_arg_at_def base_construct_def p get_args_count_def arg_buffer_size_def
        zero_terminated_def Let_def fill_char_arrays_map)
qed

lemma counted_size:
  assumes "\<not> zero_terminated c i"
  shows "arg_buffer_size c i \<le> 256"
  using assms by (cases "cmd_traits c") (auto simp: arg_buffer_size_def zero_terminated_def)

lemma counted_view_text:
  assumes "length s < 256" "csigned \<longrightarrow> length s < 128"
  shows "counted_view csigned (char_of (length s) # s @ rest) = Ok s"
  using assms by (auto simp: counted_view_def char_to_size_def Let_def)

lemma counted_view_signed:
  assumes "128 \<le> (n::nat)" "n < 256" "length buffer < 2 ^ 63"
  shows "counted_view True (char_of n # buffer) = Undef"
  using assms by (auto simp: counted_view_def char_to_size_def Let_def)

lemma terminated_view_text:
  "CHR 0x00 \<notin> set s \<Longrightarrow> 0 < n \<Longrightarrow> terminated_view (l # s @ blank n) = Ok s"
  by (cases n) (auto simp: terminated_view_def blank_def takeWhile_append)

text \<open>Numbers always fit: 64-bit integers have at most twenty characters.\<close>

lemma to_string_length: "n < 10 ^ Suc k \<Longrightarrow> length (to_string n) \<le> Suc k"
proof (induction k arbitrary: n)
  case 0
  then show ?case by (subst to_string.simps) simp
next
  case (Suc k)
  have "n div 10 < 10 ^ Suc k" using Suc.prems by (simp add: less_mult_imp_div_less)
  from Suc.IH[OF this] show ?case by (subst to_string.simps) simp
qed

lemma int_to_string_length:
  assumes "- (2 ^ 63) \<le> i" "i < 2 ^ 64"
  shows "length (int_to_string i) \<le> 20"
proof (cases "i < 0")
  case True
  then have "nat (- i) < 10 ^ Suc 18" using assms by simp
  from to_string_length[OF this] True show ?thesis by (simp add: int_to_string_def)
next
  case False
  then have "nat i < 10 ^ Suc 19" using assms by (simp add: nat_less_iff)
  from to_string_length[OF this] False show ?thesis by (simp add: int_to_string_def)
qed

text \<open>A parameter fits its buffer; numbers only have to be numbers of at most 64 bits.\<close>

fun param_fits :: "nat \<Rightarrow> param \<Rightarrow> bool" where
  "param_fits n (PNumber i) \<longleftrightarrow> - (2 ^ 63) \<le> i \<and> i < 2 ^ 64"
| "param_fits n p \<longleftrightarrow> length (param_text p) < n"

lemma param_fits_length: "param_fits n p \<Longrightarrow> 21 \<le> n \<Longrightarrow> length (param_text p) < n"
  using int_to_string_length by (cases p) fastforce+

subsection \<open>Properties\<close>

lemma args_roundtrip_aux:
  assumes i: "i < get_args_count c"
    and fit: "param_fits (arg_buffer_size c i) (cmd_params c ! i)"
    and long: "zero_terminated c i \<Longrightarrow> CHR 0x00 \<notin> set (param_text (cmd_params c ! i)) \<and>
                                  length (param_text (cmd_params c ! i)) < arg_buffer_size c i - 1"
    and sign: "csigned \<Longrightarrow> \<not> zero_terminated c i \<Longrightarrow> length (param_text (cmd_params c ! i)) < 128"
  shows "get_arg_at csigned c (base_construct junk c) i = Ok (param_text (cmd_params c ! i))"
proof -
  let ?t = "param_text (cmd_params c ! i)"
  have l: "length ?t < arg_buffer_size c i"
    using fit arg_buffer_size_ge[of c i] by (intro param_fits_length) simp_all
  note b = write_to_buffer_fits[OF l, of junk]
  show ?thesis
  proof (cases "zero_terminated c i")
    case True
    have "terminated_view (arg_buffer junk c i) = Ok ?t"
      unfolding b using long[OF True] by (intro terminated_view_text) auto
    then show ?thesis using True by (simp add: get_arg_at_buffer[OF i])
  next
    case False
    have "length ?t < 256" using l counted_size[OF False] by simp
    then show ?thesis using False sign by (simp add: get_arg_at_buffer[OF i] b counted_view_text)
  qed
qed

text \<open>
  C20. Every argument of a command reaches the bridge as it was given: \<open>GetArgAt\<close> on the command
  the constructor built returns the text of the parameter, for every command and index, provided
  the text fits its buffer, has no zero byte where the view is zero-terminated, and is shorter than
  128 bytes where the length byte is read as a signed \<open>char\<close>.
\<close>

theorem args_roundtrip:
  assumes "i < get_args_count c"
    and "param_fits (arg_buffer_size c i) (cmd_params c ! i)"
    and "zero_terminated c i \<Longrightarrow> CHR 0x00 \<notin> set (param_text (cmd_params c ! i)) \<and>
                                  length (param_text (cmd_params c ! i)) < arg_buffer_size c i - 1"
    and "csigned \<Longrightarrow> \<not> zero_terminated c i \<Longrightarrow> length (param_text (cmd_params c ! i)) < 128"
  shows "get_arg_at csigned c (base_construct junk c) i = Ok (param_text (cmd_params c ! i))"
  using assms by (rule args_roundtrip_aux)

theorem args_roundtrip_witness:
  "let c = ShowResponse (D100 [7, 42, 100]) ''D100'' (- 1) ''Player 1'' in
   get_arg_at True c (base_construct (\<lambda>_. CHR ''?'') c) 0 = Ok ''7;42;100;'' \<and>
   get_arg_at True c (base_construct (\<lambda>_. CHR ''?'') c) 2 = Ok ''-1''"
proof -
  let ?c = "ShowResponse (D100 [7, 42, 100]) ''D100'' (- 1) ''Player 1''"
  have t: "cast_text (D100 [7, 42, 100]) = ''7;42;100;''" "int_to_string (- 1) = ''-1''"
    by code_simp+
  have "get_arg_at True ?c (base_construct (\<lambda>_. CHR ''?'') ?c) 0 = Ok (param_text (cmd_params ?c ! 0))"
    by (rule args_roundtrip) (simp_all add: get_args_count_def t zero_terminated_def arg_buffer_size_def)
  moreover have "get_arg_at True ?c (base_construct (\<lambda>_. CHR ''?'') ?c) 2 = Ok (param_text (cmd_params ?c ! 2))"
    by (rule args_roundtrip) (simp_all add: get_args_count_def t zero_terminated_def arg_buffer_size_def)
  ultimately show ?thesis by (simp add: t)
qed

text \<open>
  A string that is too long for its buffer arrives cut off to the buffer's capacity, one byte
  less than its size, wherever the length byte is read as an unsigned \<open>char\<close>; where it is signed,
  a string of 128 bytes or more makes \<open>GetArgAt\<close> return a view far behind the buffer.
\<close>

theorem long_string_arg:
  assumes "i < get_args_count c" "\<not> zero_terminated c i" "cmd_params c ! i = PView s"
  shows "get_arg_at csigned c (base_construct junk c) i =
           (if csigned \<and> 128 \<le> min (length s) (arg_buffer_size c i - 1) then Undef
            else Ok (take (arg_buffer_size c i - 1) s))"
proof -
  let ?n = "arg_buffer_size c i"
  let ?m = "min (length s) (?n - 1)"
  have n: "0 < ?n" "?n \<le> 256"
    using arg_buffer_size_ge[of c i] counted_size[OF assms(2)] by simp_all
  have l: "length (take (?n - 1) s) = ?m" by simp
  have b: "arg_buffer junk c i = char_of ?m # take (?n - 1) s @ blank (?n - 1 - length s)"
    using n(1) by (simp add: assms(3) write_to_buffer_view)
  show ?thesis
  proof (cases "csigned \<and> 128 \<le> ?m")
    case True
    have "counted_view True (char_of ?m # take (?n - 1) s @ blank (?n - 1 - length s)) = Undef"
      using True n by (intro counted_view_signed) (auto simp: blank_def)
    then show ?thesis using True assms(2) by (simp add: get_arg_at_buffer[OF assms(1)] b)
  next
    case False
    have "?m < 256" "csigned \<longrightarrow> ?m < 128" using False n by (auto simp: not_le)
    then have "counted_view csigned (arg_buffer junk c i) = Ok (take (?n - 1) s)"
      unfolding b using counted_view_text[of "take (?n - 1) s" csigned "blank (?n - 1 - length s)"]
      by (simp only: l)
    then show ?thesis using False assms(2) by (simp only: get_arg_at_buffer[OF assms(1)] if_False)
  qed
qed

theorem long_string_arg_witness:
  "get_arg_at False (NegotiationStop ''A name of more than 31 characters'')
     (base_construct (\<lambda>_. CHR ''?'') (NegotiationStop ''A name of more than 31 characters'')) 0 =
     Ok ''A name of more than 31 characte'' \<and>
   get_arg_at True (SendMessage (replicate 200 CHR ''x'') ''mac'')
     (base_construct (\<lambda>_. CHR ''?'') (SendMessage (replicate 200 CHR ''x'') ''mac'')) 0 = Undef"
  using long_string_arg[of 0 "NegotiationStop ''A name of more than 31 characters''" _ False "\<lambda>_. CHR ''?''"]
    long_string_arg[of 0 "SendMessage (replicate 200 CHR ''x'') ''mac''" _ True "\<lambda>_. CHR ''?''"]
  by (simp add: get_args_count_def zero_terminated_def arg_buffer_size_def)

text \<open>A zero-terminated view of a string that was cut off at \<open>n\<close> bytes.\<close>

lemma terminated_view_cut:
  "terminated_view (l # take n s @ blank (n - length s)) =
     (if length s < n \<or> CHR 0x00 \<in> set (take n s) then Ok (takeWhile (\<lambda>c. c \<noteq> CHR 0x00) s) else Undef)"
proof (cases "CHR 0x00 \<in> set (take n s)")
  case True
  then have "takeWhile (\<lambda>c. c \<noteq> CHR 0x00) (take n s @ u) = takeWhile (\<lambda>c. c \<noteq> CHR 0x00) (take n s)" for u
    by (intro takeWhile_append1) auto
  from this[of "blank (n - length s)"] this[of "drop n s"] True show ?thesis
    by (simp add: terminated_view_def)
next
  case no: False
  show ?thesis
  proof (cases "length s < n")
    case True
    then have s: "take n s = s" by simp
    then have "CHR 0x00 \<notin> set s" using no by simp
    then have "takeWhile (\<lambda>c. c \<noteq> CHR 0x00) s = s" by (auto simp: takeWhile_eq_all_conv)
    moreover have "terminated_view (l # s @ blank (n - length s)) = Ok s"
      using True \<open>CHR 0x00 \<notin> set s\<close> by (intro terminated_view_text) auto
    ultimately show ?thesis using True by (simp only: s simp_thms if_True)
  next
    case False
    then show ?thesis using no by (simp add: terminated_view_def blank_def)
  qed
qed

text \<open>
  The message of \<open>SendLongMessage\<close> is read up to its first zero byte.  \<open>Send\<close> admits messages of up
  to \<open>MAX_BUFFER_SIZE\<close>, 1023 bytes, but one of that length leaves no room for a terminator, and reading
  it runs off the buffer.
\<close>

theorem long_message_arg:
  "get_arg_at csigned (SendLongMessage msg mac) (base_construct junk (SendLongMessage msg mac)) 0 =
     (if length msg < MAX_BUFFER_SIZE ExtraLongTraits \<or>
         CHR 0x00 \<in> set (take (MAX_BUFFER_SIZE ExtraLongTraits) msg)
      then Ok (takeWhile (\<lambda>c. c \<noteq> CHR 0x00) msg) else Undef)"
proof -
  let ?c = "SendLongMessage msg mac"
  have s: "arg_buffer_size ?c 0 = 1024" "MAX_BUFFER_SIZE ExtraLongTraits = 1024 - 1"
    by (simp_all add: arg_buffer_size_def MAX_BUFFER_SIZE_def)
  have p: "cmd_params ?c ! 0 = PView msg" by simp
  have z: "zero_terminated ?c 0" "0 < get_args_count ?c" "0 < (1024 :: nat)"
    by (simp_all add: zero_terminated_def get_args_count_def)
  show ?thesis
    unfolding get_arg_at_buffer[OF z(2)] if_P[OF z(1)] s p write_to_buffer_view[OF z(3)]
    by (rule terminated_view_cut)
qed

text \<open>
  The dice of \<open>ShowResponse\<close>: what fits, and why the bound of three bytes per die is too small for
  a die that shows 100.
\<close>

lemma cast_text_length:
  "\<forall>v \<in> set vs. uint v < 100 \<Longrightarrow>
   length (concat (map (\<lambda>v. int_to_string (uint v) @ '';'') vs)) \<le> 3 * length (vs :: u32 list)"
proof (induction vs)
  case (Cons v vs)
  have "nat (uint v) < nat 100" using Cons.prems by (intro nat_mono_iff[THEN iffD2]) simp_all
  then have "nat (uint v) < 10 ^ Suc 1" by simp
  from to_string_length[OF this] Cons show ?case
    by (simp add: int_to_string_def)
qed simp

lemma cast_text_hundreds:
  "length (concat (map (\<lambda>v. int_to_string (uint v) @ '';'') (replicate n (100 :: u32)))) = 4 * n"
proof -
  have "int_to_string 100 = ''100''" by code_simp
  then show ?thesis by (induction n) simp_all
qed

text \<open>
  Eighty-five dice of a hundred sides that all show 100, a response \<open>ShowResponse\<close> accepts, never
  reach the bridge complete, whatever the platform.
\<close>

lemma show_response_hundreds:
  "cast_size (D100 (replicate 85 100)) \<le> MAX_BUFFER_SIZE LongTraits div 3 \<and>
   get_arg_at csigned (ShowResponse (D100 (replicate 85 100)) ty n name)
     (base_construct junk (ShowResponse (D100 (replicate 85 100)) ty n name)) 0 \<noteq>
   Ok (cast_text (D100 (replicate 85 100)))"
proof -
  let ?c = "ShowResponse (D100 (replicate 85 100)) ty n name"
  have t: "length (cast_text (D100 (replicate 85 100))) = 340"
    using cast_text_hundreds[of 85] by (simp add: cast_text_def)
  have "length (arg_buffer junk ?c 0) = 256"
    using write_to_buffer_full[of 256 "PCast (D100 (replicate 85 100))" junk] t
    by (simp add: arg_buffer_size_def)
  then have "length s < 256" if "counted_view csigned (arg_buffer junk ?c 0) = Ok s" for s
    using that by (auto simp: counted_view_def Let_def split: if_splits)
  then show ?thesis using t
    by (auto simp: get_arg_at_buffer get_args_count_def zero_terminated_def MAX_BUFFER_SIZE_def)
qed

text \<open>
  C31. With dice that show less than 100, a response of at most \<open>MAX_BUFFER_SIZE / 3\<close> dice, the bound
  \<open>ShowResponse\<close> is used for, reaches the bridge complete, if a \<open>char\<close> is unsigned; eighty-five dice that
  all show 100 are within the bound and never do.
\<close>

theorem show_response_arg:
  assumes "cast_size c \<le> MAX_BUFFER_SIZE LongTraits div 3" "\<forall>v \<in> set (cast_vals c). v < 100"
  shows "get_arg_at False (ShowResponse c ty n name)
           (base_construct junk (ShowResponse c ty n name)) 0 = Ok (cast_text c) \<and>
         cast_size (D100 (replicate 85 100)) \<le> MAX_BUFFER_SIZE LongTraits div 3 \<and>
         get_arg_at csigned (ShowResponse (D100 (replicate 85 100)) ty n name)
           (base_construct junk (ShowResponse (D100 (replicate 85 100)) ty n name)) 0 \<noteq>
         Ok (cast_text (D100 (replicate 85 100)))"
proof -
  note h = show_response_hundreds[of csigned ty n name junk]
  have "length (cast_text c) \<le> 3 * cast_size c"
    unfolding cast_text_def using assms(2) by (intro cast_text_length) (auto simp: word_less_def)
  then have "length (cast_text c) < 256" using assms(1) by (simp add: MAX_BUFFER_SIZE_def)
  then show ?thesis
    using args_roundtrip_aux[of 0 "ShowResponse c ty n name" False junk] h
    by (simp only: get_args_count_def zero_terminated_def arg_buffer_size_def) simp
qed

theorem show_response_arg_witness:
  "get_arg_at False (ShowResponse (D20 (replicate 85 17)) ''D20'' 85 ''me'')
     (base_construct (\<lambda>_. CHR ''?'') (ShowResponse (D20 (replicate 85 17)) ''D20'' 85 ''me'')) 0 =
   Ok (cast_text (D20 (replicate 85 17)))"
  by (rule show_response_arg[THEN conjunct1]) (simp_all add: MAX_BUFFER_SIZE_def)


end
