(* ===== verification/Java_Call.thy ===== *)
theory Java_Call
  imports Cmd_Buffers
begin

text \<open>
  \<open>JavaInvoker::PassCommand\<close> (dispatch/src/android/javainvoker.cpp): how a command leaves the native
  code.  The functions of \<open>JNIEnv\<close> are not part of the program; the model records the calls made to
  them, in order, and takes what \<open>ExceptionCheck\<close> answers as an argument.
\<close>

subsection \<open>The calls\<close>

text \<open>
  A creating call yields a local reference.  They are named after what they refer to; \<open>ArgString i\<close> is
  the \<open>jstring\<close> of the iteration \<open>i\<close>.
\<close>

datatype local_ref = StringClass | ArgsArray | ArgString nat

text \<open>
  \<open>NewStringUTF i t\<close>: the text \<open>t\<close> is what the pointer reads as a C string.  \<open>CallStaticVoidMethod\<close> has
  the method, the identifier of the command, and whether it gets the array or a null pointer.
\<close>

datatype jni_call =
    FindClass string
  | NewObjectArray nat
  | NewStringUTF nat string
  | SetObjectArrayElement nat local_ref
  | DeleteLocalRef local_ref
  | CallStaticVoidMethod string int bool
  | ExceptionCheck
  | ExceptionDescribe
  | ExceptionClear

text \<open>
  \<open>GetArgAt(index).data()\<close> points behind the first byte of the buffer; the length of the view is not
  passed on, so the reader stops at the first zero byte, and leaves the buffer when there is none.
\<close>

definition arg_c_string :: "base \<Rightarrow> nat \<Rightarrow> string outcome" where
  "arg_c_string b index = terminated_view ((bs_longArgs b @ bs_shortArgs b) ! index)"

text \<open>The body of the loop over the arguments, from index \<open>i\<close> on.\<close>

fun pass_args :: "base \<Rightarrow> nat list \<Rightarrow> jni_call list outcome" where
  "pass_args b [] = Ok []"
| "pass_args b (i # is) =
     obind (arg_c_string b i) (\<lambda>t.
     obind (pass_args b is) (\<lambda>calls.
       Ok ([NewStringUTF i t, SetObjectArrayElement i (ArgString i), DeleteLocalRef (ArgString i)] @ calls)))"

definition pass_command :: "string \<Rightarrow> bool \<Rightarrow> command \<Rightarrow> base \<Rightarrow> int \<Rightarrow> jni_call list outcome" where
  "pass_command m threw c b argId =
     (let argCount = get_args_count c in
      obind
        (if argCount > 0 then
           obind (pass_args b [0..<argCount]) (\<lambda>calls.
             Ok ([FindClass ''java/lang/String'', NewObjectArray argCount] @ calls @
                 [DeleteLocalRef StringClass]))
         else Ok [])
        (\<lambda>args.
          Ok (args @ [CallStaticVoidMethod m argId (argCount > 0), ExceptionCheck] @
              (if threw then [ExceptionDescribe, ExceptionClear] else []) @
              (if argCount > 0 then [DeleteLocalRef ArgsArray] else []))))"

subsection \<open>What Java sees\<close>

text \<open>The elements of the array, and the call of the method with them.\<close>

fun array_elements :: "jni_call list \<Rightarrow> (nat \<times> string) list" where
  "array_elements (NewStringUTF i t # SetObjectArrayElement j (ArgString k) # calls) =
     (if i = k then (j, t) # array_elements calls else array_elements calls)"
| "array_elements (_ # calls) = array_elements calls"
| "array_elements [] = []"

definition method_calls :: "jni_call list \<Rightarrow> (string \<times> int \<times> bool) list" where
  "method_calls calls =
     List.map_filter (\<lambda>c. case c of CallStaticVoidMethod m i a \<Rightarrow> Some (m, i, a) | _ \<Rightarrow> None) calls"

text \<open>The local references that are alive after each call; a call of a dead one has no result.\<close>

fun refs_after :: "local_ref list \<Rightarrow> jni_call list \<Rightarrow> local_ref list option" where
  "refs_after rs [] = Some rs"
| "refs_after rs (c # cs) =
     (case c of
        FindClass _ \<Rightarrow> refs_after (StringClass # rs) cs
      | NewObjectArray _ \<Rightarrow> if StringClass \<in> set rs then refs_after (ArgsArray # rs) cs else None
      | NewStringUTF i _ \<Rightarrow> refs_after (ArgString i # rs) cs
      | SetObjectArrayElement _ r \<Rightarrow>
          if ArgsArray \<in> set rs \<and> r \<in> set rs then refs_after rs cs else None
      | DeleteLocalRef r \<Rightarrow> if r \<in> set rs then refs_after (remove1 r rs) cs else None
      | CallStaticVoidMethod _ _ a \<Rightarrow> if a \<longrightarrow> ArgsArray \<in> set rs then refs_after rs cs else None
      | _ \<Rightarrow> refs_after rs cs)"

subsection \<open>The arguments\<close>

definition cmd_texts :: "command \<Rightarrow> string list" where
  "cmd_texts c = map param_text (cmd_params c)"

text \<open>A text leaves room for the terminator, and has none in it.\<close>

definition leaves_room :: "nat \<Rightarrow> string \<Rightarrow> bool" where
  "leaves_room n t \<longleftrightarrow> Suc (length t) < n \<and> CHR 0x00 \<notin> set t"

lemma arg_buffers:
  assumes "i < get_args_count c"
  shows "(bs_longArgs (base_construct junk c) @ bs_shortArgs (base_construct junk c)) ! i = arg_buffer junk c i"
proof -
  obtain p ps where p: "cmd_params c = p # ps"
    using assms by (cases "cmd_params c") (auto simp: get_args_count_def)
  then show ?thesis using assms
    by (cases i) (auto simp: base_construct_def get_args_count_def arg_buffer_size_def Let_def fill_char_arrays_map)
qed

lemma arg_c_string_exact:
  assumes i: "i < get_args_count c"
    and fit: "leaves_room (arg_buffer_size c i) (param_text (cmd_params c ! i))"
  shows "arg_c_string (base_construct junk c) i = Ok (param_text (cmd_params c ! i))"
proof -
  have "terminated_view (arg_buffer junk c i) = Ok (param_text (cmd_params c ! i))"
    using fit unfolding leaves_room_def
    by (subst write_to_buffer_fits) (auto intro!: terminated_view_text)
  then show ?thesis by (simp add: arg_c_string_def arg_buffers[OF i])
qed

lemma arg_c_string_view:
  assumes i: "i < get_args_count c" and s: "cmd_params c ! i = PView s"
  shows "arg_c_string (base_construct junk c) i =
           (if length s < arg_buffer_size c i - 1 \<or> CHR 0x00 \<in> set (take (arg_buffer_size c i - 1) s)
            then Ok (takeWhile (\<lambda>ch. ch \<noteq> CHR 0x00) s) else Undef)"
proof -
  have n: "0 < arg_buffer_size c i" using arg_buffer_size_ge[of c i] by simp
  show ?thesis
    by (simp only: arg_c_string_def arg_buffers[OF i] s write_to_buffer_view[OF n] terminated_view_cut)
qed

lemma pass_args_exact:
  assumes "\<forall>i \<in> set is. arg_c_string b i = Ok (f i)"
  shows "pass_args b is =
    Ok (concat (map (\<lambda>i. [NewStringUTF i (f i), SetObjectArrayElement i (ArgString i), DeleteLocalRef (ArgString i)]) is))"
  using assms by (induction "is") auto

lemma terminated_view_no_throw: "terminated_view b \<noteq> Throw x"
  by (simp add: terminated_view_def)

lemma pass_args_Undef:
  assumes "i \<in> set is" "arg_c_string b i = Undef"
  shows "pass_args b is = Undef"
  using assms(1)
proof (induction "is")
  case (Cons j js)
  then show ?case using assms(2) terminated_view_no_throw
    by (cases "arg_c_string b j") (auto simp: arg_c_string_def)
qed simp

lemma array_elements_args:
  "array_elements (concat (map (\<lambda>i. [NewStringUTF i (f i), SetObjectArrayElement i (ArgString i),
     DeleteLocalRef (ArgString i)]) is) @ calls) = map (\<lambda>i. (i, f i)) is @ array_elements calls"
  by (induction "is") auto

lemma method_calls_simps [simp]:
  "method_calls [] = []"
  "method_calls (CallStaticVoidMethod m i a # cs) = (m, i, a) # method_calls cs"
  "(\<forall>m i a. c \<noteq> CallStaticVoidMethod m i a) \<Longrightarrow> method_calls (c # cs) = method_calls cs"
  by (auto simp: method_calls_def map_filter_simps split: jni_call.splits)

lemma method_calls_append: "method_calls (cs @ ds) = method_calls cs @ method_calls ds"
  by (simp add: method_calls_def map_filter_append)

lemma method_calls_args:
  "method_calls (concat (map (\<lambda>i. [NewStringUTF i (f i), SetObjectArrayElement i (ArgString i),
     DeleteLocalRef (ArgString i)]) is)) = []"
  by (induction "is") auto

lemma refs_after_args:
  assumes "ArgsArray \<in> set rs"
  shows "refs_after rs (concat (map (\<lambda>i. [NewStringUTF i (f i), SetObjectArrayElement i (ArgString i),
     DeleteLocalRef (ArgString i)]) is) @ calls) = refs_after rs calls"
  using assms by (induction "is") auto

subsection \<open>Properties\<close>

text \<open>
  The whole of \<open>PassCommand\<close>: one call of the method, the array it gets, and the references that are
  left.
\<close>

definition passes :: "string \<Rightarrow> bool \<Rightarrow> command \<Rightarrow> base \<Rightarrow> int \<Rightarrow> string list \<Rightarrow> bool" where
  "passes m threw c b argId ts \<longleftrightarrow>
     (\<exists>calls. pass_command m threw c b argId = Ok calls \<and>
        method_calls calls = [(m, argId, ts \<noteq> [])] \<and>
        array_elements calls = zip [0..<length ts] ts \<and>
        refs_after [] calls = Some [])"

lemma pass_command_texts:
  assumes "\<forall>i < get_args_count c. arg_c_string b i = Ok (ts ! i)" "length ts = get_args_count c"
  shows "passes m threw c b argId ts"
proof -
  let ?n = "get_args_count c"
  have a: "pass_args b [0..<?n] =
    Ok (concat (map (\<lambda>i. [NewStringUTF i (ts ! i), SetObjectArrayElement i (ArgString i), DeleteLocalRef (ArgString i)]) [0..<?n]))"
    using assms(1) by (intro pass_args_exact) simp
  have z: "map (\<lambda>i. (i, ts ! i)) [0..<?n] = zip [0..<length ts] ts"
    using assms(2) by (intro nth_equalityI) auto
  show ?thesis
  proof (cases "?n = 0")
    case True
    then show ?thesis using assms(2) by (cases threw) (auto simp: passes_def pass_command_def Let_def)
  next
    case False
    then show ?thesis using assms(2)
      by (cases threw)
        (auto simp: passes_def pass_command_def Let_def a array_elements_args method_calls_append
           method_calls_args refs_after_args z)
  qed
qed

lemma pass_command_fits:
  assumes "\<forall>i < get_args_count c. leaves_room (arg_buffer_size c i) (cmd_texts c ! i)"
  shows "passes m threw c (base_construct junk c) argId (cmd_texts c)"
  using assms by (intro pass_command_texts) (auto simp: cmd_texts_def get_args_count_def arg_c_string_exact)

lemma pass_command_Undef:
  assumes "i < get_args_count c" "arg_c_string b i = Undef"
  shows "pass_command m threw c b argId = Undef"
  using assms pass_args_Undef[of i "[0..<get_args_count c]" b] by (simp add: pass_command_def Let_def)

text \<open>
  C21. A command whose texts are free of zero bytes and leave room for a terminator in their buffers
  reaches Java exactly: one call of the method with the identifier, an array with those texts in
  order (or a null pointer when there are none), and every local reference deleted, also when the
  call has thrown.  A string that fills its buffer, which the constructor of the command cuts off
  without a warning, makes \<open>PassCommand\<close> read behind the buffer.
\<close>

theorem pass_command_spec:
  assumes "\<forall>t \<in> set (cmd_texts c). CHR 0x00 \<notin> set t"
  shows "((\<forall>i < get_args_count c. Suc (length (cmd_texts c ! i)) < arg_buffer_size c i) \<longrightarrow>
            passes m threw c (base_construct junk c) argId (cmd_texts c)) \<and>
         (\<forall>i < get_args_count c. \<forall>s. cmd_params c ! i = PView s \<and> arg_buffer_size c i \<le> Suc (length s) \<longrightarrow>
            pass_command m threw c (base_construct junk c) argId = Undef)"
proof (intro conjI allI impI)
  assume "\<forall>i < get_args_count c. Suc (length (cmd_texts c ! i)) < arg_buffer_size c i"
  moreover have "length (cmd_texts c) = get_args_count c" by (simp add: cmd_texts_def get_args_count_def)
  ultimately show "passes m threw c (base_construct junk c) argId (cmd_texts c)"
    using assms by (intro pass_command_fits) (auto simp: leaves_room_def)
next
  fix i s
  assume i: "i < get_args_count c" and s: "cmd_params c ! i = PView s \<and> arg_buffer_size c i \<le> Suc (length s)"
  have "s \<in> set (cmd_texts c)" using i s nth_mem[of i "cmd_texts c"] by (simp add: cmd_texts_def get_args_count_def)
  then have "CHR 0x00 \<notin> set s" using assms by blast
  then have "arg_c_string (base_construct junk c) i = Undef"
    using s by (auto simp: arg_c_string_view[OF i] dest: in_set_takeD)
  then show "pass_command m threw c (base_construct junk c) argId = Undef" using i by (rule pass_command_Undef[rotated])
qed

definition shown_request :: "string \<Rightarrow> command" where
  "shown_request name = ShowRequest ''D6'' 3 4 name"

theorem pass_command_spec_witness:
  "passes ''receiveUiCommand'' True (shown_request ''Galaxy S10'')
     (base_construct (\<lambda>_. CHR ''?'') (shown_request ''Galaxy S10'')) 28672 [''D6'', ''3'', ''4'', ''Galaxy S10''] \<and>
   pass_command ''receiveUiCommand'' False (shown_request ''My Samsung Galaxy S10 5G'')
     (base_construct (\<lambda>_. CHR ''?'') (shown_request ''My Samsung Galaxy S10 5G'')) 28672 = Undef"
proof -
  have n: "int_to_string 3 = ''3''" "int_to_string 4 = ''4''" by code_simp+
  have t: "cmd_texts (shown_request s) = [''D6'', ''3'', ''4'', s]" for s
    by (simp add: shown_request_def cmd_texts_def n)
  have i: "i < 4 \<longleftrightarrow> i = 0 \<or> i = 1 \<or> i = 2 \<or> i = (3 :: nat)" for i by arith
  have a: "get_args_count (shown_request s) = 4" "arg_buffer_size (shown_request s) 0 = 32"
    "0 < i \<Longrightarrow> arg_buffer_size (shown_request s) i = 24" "cmd_params (shown_request s) ! 3 = PView s" for s i
    by (simp_all add: shown_request_def get_args_count_def arg_buffer_size_def)
  show ?thesis
    using pass_command_spec[of "shown_request ''Galaxy S10''" "''receiveUiCommand''" True "\<lambda>_. CHR ''?''" 28672]
      pass_command_spec[of "shown_request ''My Samsung Galaxy S10 5G''" "''receiveUiCommand''" False "\<lambda>_. CHR ''?''" 28672]
    by (simp add: t a i all_conj_distrib)
qed

end
