(* ===== verification/Wire.thy ===== *)
theory Wire
  imports Java_Call Xml_Game
begin

text \<open>
  From a message of the game to the call into Java: the serializer, the choice of the command, its
  buffers and \<open>PassCommand\<close> in a row.
\<close>

subsection \<open>Messages\<close>

text \<open>The overloads of \<open>ISerializer::Serialize\<close>.\<close>

fun serialize :: "(attrs \<Rightarrow> attrs) \<Rightarrow> message \<Rightarrow> string outcome" where
  "serialize ord (MHello h) = serialize_hello ord h"
| "serialize ord (MOffer v) = serialize_offer ord v"
| "serialize ord (MRequest q) = serialize_request ord q"
| "serialize ord (MResponse r) = serialize_response ord r"

text \<open>Addresses are free of special characters, and the dice can be counted in 64 bits.\<close>

fun message_ok :: "message \<Rightarrow> bool" where
  "message_ok (MHello h) \<longleftrightarrow> plain_mac (hl_mac h)"
| "message_ok (MOffer v) \<longleftrightarrow> plain_mac (of_mac v) \<and> unat (of_round v) < 2 ^ 31"
| "message_ok (MRequest q) \<longleftrightarrow> cast_size (rq_cast q) < 2 ^ 64"
| "message_ok (MResponse r) \<longleftrightarrow> cast_size (rs_cast r) < 2 ^ 64"

text \<open>A request travels without the values of its dice.\<close>

fun received :: "message \<Rightarrow> message" where
  "received (MRequest q) = MRequest (q\<lparr>rq_cast := cast_update (map (\<lambda>_. 0)) (rq_cast q)\<rparr>)"
| "received m = m"

lemma serialize_total: "message_ok m \<Longrightarrow> \<exists>s. serialize ord m = Ok s"
  by (cases m)
     (simp_all add: serialize_hello_element serialize_offer_element serialize_request_element serialize_response_element)

lemma serialize_element:
  assumes "message_ok m" "serialize ord m = Ok s"
  shows "\<exists>e. element_ok e \<and> s = print_element ord e"
proof -
  have w: "doc_to_string ord (doc_of e) = print_element ord e" for e by (simp add: doc_to_string_def)
  show ?thesis
  proof (cases m)
    case (MRequest q)
    let ?e = "Element ''Request'' [] (cast_attrs (rq_cast q) ''successFrom'' (map_option unat (rq_threshold q))) []"
    have "element_ok ?e" using cast_attrs_ok[of "''successFrom''"] by (simp add: word_names)
    moreover have "s = print_element ord ?e"
      using assms(2) unfolding MRequest by (simp add: serialize_request_element w del: print_element.simps)
    ultimately show ?thesis by blast
  next
    case (MResponse r)
    let ?e = "Element ''Response'' [] (cast_attrs (rs_cast r) ''successCount'' (map_option unat (rs_successCount r)))
        (map val_element (cast_vals (rs_cast r)))"
    have "element_ok ?e" using cast_attrs_ok[of "''successCount''"] by (simp add: word_names val_element_ok)
    moreover have "s = print_element ord ?e"
      using assms(2) unfolding MResponse by (simp add: serialize_response_element w del: print_element.simps)
    ultimately show ?thesis by blast
  next
    case (MHello h)
    let ?e = "Element ''Hello'' [] [] [mac_element (hl_mac h)]"
    have "NUL \<notin> set (hl_mac h)" using assms(1) MHello by (auto simp: plain_mac_def)
    then have "element_ok ?e" by (simp add: word_names mac_element_ok)
    moreover have "s = print_element ord ?e"
      using assms(2) unfolding MHello by (simp add: serialize_hello_element w del: print_element.simps)
    ultimately show ?thesis by blast
  next
    case (MOffer v)
    let ?e = "Element ''Offer'' [] [(''round'', to_string (unat (of_round v)))] [mac_element (of_mac v)]"
    have "NUL \<notin> set (of_mac v)" using assms(1) MOffer by (auto simp: plain_mac_def)
    then have "element_ok ?e" by (simp add: word_names mac_element_ok digits_attr_ok)
    moreover have "s = print_element ord ?e"
      using assms(2) unfolding MOffer by (simp add: serialize_offer_element w del: print_element.simps)
    ultimately show ?thesis by blast
  qed
qed

lemma deserialize_serialize:
  assumes "attr_order ord" "message_ok m" "serialize ord m = Ok s"
  shows "deserialize s = Ok (received m)"
proof (cases m)
  case (MRequest q)
  then show ?thesis using assms request_parses[of ord q s] by simp
next
  case (MResponse r)
  then show ?thesis using assms response_parses[of ord r s] by simp
next
  case (MHello h)
  moreover have "NUL \<notin> set (hl_mac h)" using assms(2) MHello by (auto simp: plain_mac_def)
  ultimately show ?thesis using assms hello_parses[of ord h s] by (simp add: carried_plain_mac)
next
  case (MOffer v)
  moreover have "NUL \<notin> set (of_mac v)" using assms(2) MOffer by (auto simp: plain_mac_def)
  ultimately show ?thesis using assms offer_parses[of ord v s] by (simp add: carried_plain_mac)
qed

subsection \<open>The command that carries a message\<close>

text \<open>The choice in \<open>RemotePeerManager::Send\<close>; a message that is too long is not sent.\<close>

definition send_command :: "string \<Rightarrow> string \<Rightarrow> command option" where
  "send_command message mac =
     (if length message > Cmd_Buffers.MAX_BUFFER_SIZE ExtraLongTraits then None
      else if length message \<le> Cmd_Buffers.MAX_BUFFER_SIZE LongTraits then Some (SendMessage message mac)
      else Some (SendLongMessage message mac))"

lemma send_sizes:
  "Cmd_Buffers.MAX_BUFFER_SIZE LongTraits = 255" "Cmd_Buffers.MAX_BUFFER_SIZE ExtraLongTraits = 1023"
  by (simp_all add: Cmd_Buffers.MAX_BUFFER_SIZE_def)

text \<open>It is the one \<open>play_send\<close> makes.\<close>

lemma play_send_command:
  "play_send e sid mac message k x =
     (case send_command message mac of
        None \<Rightarrow> play_sent sid mac k
                  (fire_and_forget e (ShowToast ''Cannot send too long message, try fewer dices'' 7) x)
      | Some c \<Rightarrow>
          (case await_command e c (F_PlaySend sid mac message RETRY_COUNT k) x of
             (True, x') \<Rightarrow> x'
           | (False, x') \<Rightarrow> play_send_loop e sid mac message (RETRY_COUNT - 1) k x'))"
proof -
  have r: "RETRY_COUNT = Suc (RETRY_COUNT - 1)" by simp
  show ?thesis
    unfolding play_send_def send_command_def send_sizes
    by (subst r, subst play_send_loop.simps(2)) simp
qed

lemma send_command_params:
  "send_command message mac = Some c \<Longrightarrow>
   cmd_params c = [PView message, PView mac] \<and> length message \<le> 1023 \<and>
   arg_buffer_size c 0 = (if length message \<le> 255 then 256 else 1024) \<and> arg_buffer_size c (Suc 0) = 32"
  unfolding send_command_def send_sizes by (auto simp: arg_buffer_size_def split: if_splits)

subsection \<open>Properties\<close>

lemma wire_exact:
  assumes c: "send_command s mac = Some c"
    and s: "NUL \<notin> set s" "length s \<noteq> 255" "length s \<noteq> 1023"
    and mac: "NUL \<notin> set mac" "length mac \<le> 30"
  shows "passes meth threw c (base_construct junk c) argId [s, mac]"
proof -
  note p = send_command_params[OF c]
  have "leaves_room (arg_buffer_size c i) (cmd_texts c ! i)" if "i < get_args_count c" for i
    using that p s mac by (cases i) (auto simp: get_args_count_def cmd_texts_def leaves_room_def)
  moreover have "cmd_texts c = [s, mac]" using p by (simp add: cmd_texts_def)
  ultimately show ?thesis using pass_command_fits[of c meth threw junk argId] by simp
qed

lemma wire_overrun:
  assumes c: "send_command s mac = Some c" and s: "NUL \<notin> set s" "length s = 255 \<or> length s = 1023"
  shows "pass_command meth threw c (base_construct junk c) argId = Undef"
proof (rule pass_command_Undef)
  note p = send_command_params[OF c]
  then show z: "0 < get_args_count c" by (simp add: get_args_count_def)
  have "NUL \<notin> set (take (arg_buffer_size c 0 - 1) s)" using s(1) by (meson in_set_takeD)
  then show "arg_c_string (base_construct junk c) 0 = Undef"
    using p s(2) by (subst arg_c_string_view[OF z]) auto
qed

text \<open>
  C17. A message of the game reaches the Java side of the sender with its address, and reading what
  arrives gives the message, for every order of the attributes, except when its text has exactly 255
  or 1023 bytes: it then fills the buffer of the command that \<open>Send\<close> chooses, and the bridge reads
  behind the buffer.
\<close>

theorem wire_transfer:
  assumes "attr_order ord" "message_ok m" "serialize ord m = Ok s"
    and "send_command s mac = Some c" "NUL \<notin> set mac" "length mac \<le> 30"
  shows "if length s = 255 \<or> length s = 1023
         then pass_command meth threw c (base_construct junk c) argId = Undef
         else passes meth threw c (base_construct junk c) argId [s, mac] \<and> deserialize s = Ok (received m)"
proof -
  obtain e where "element_ok e" "s = print_element ord e" using serialize_element assms(2,3) by blast
  then have "NUL \<notin> set s" using print_no_NUL assms(1) by blast
  then show ?thesis
    using wire_exact wire_overrun deserialize_serialize assms by simp
qed

lemma ok_length: "(case r of Ok s \<Rightarrow> length s = n | _ \<Rightarrow> False) \<Longrightarrow> \<exists>s. r = Ok s \<and> length s = n"
  by (cases r) auto

definition twenty_siders :: response where
  "twenty_siders = \<lparr>rs_cast = D20 (replicate 9 20 @ replicate 8 1), rs_successCount = None\<rparr>"

theorem wire_transfer_witness:
  "(\<exists>s c. serialize id (MOffer \<lparr>of_mac = ''5C:B9:01'', of_round = 7\<rparr>) = Ok s \<and>
     passes ''receiveBtCommand'' False c (base_construct (\<lambda>_. CHR ''?'') c) 27648 [s, ''5C:B9:02''] \<and>
     deserialize s = Ok (MOffer \<lparr>of_mac = ''5C:B9:01'', of_round = 7\<rparr>)) \<and>
   (\<exists>s c. serialize id (MResponse twenty_siders) = Ok s \<and> send_command s ''5C:B9:02'' = Some c \<and>
     pass_command ''receiveBtCommand'' False c (base_construct (\<lambda>_. CHR ''?'') c) 27648 = Undef)"
proof -
  let ?o = "MOffer \<lparr>of_mac = ''5C:B9:01'', of_round = 7\<rparr>"
  have ord: "attr_order id" by (simp add: attr_order_def)
  have mac: "NUL \<notin> set ''5C:B9:02''" "length ''5C:B9:02'' \<le> 30" by simp_all
  have "plain_mac ''5C:B9:01''" by code_simp
  then have o: "message_ok ?o" by simp
  have "case serialize id ?o of Ok s \<Rightarrow> length s = 44 | _ \<Rightarrow> False" by code_simp
  then obtain s where s: "serialize id ?o = Ok s" "length s = 44" using ok_length by blast
  have c: "send_command s ''5C:B9:02'' = Some (SendMessage s ''5C:B9:02'')"
    using s(2) by (simp add: send_command_def send_sizes)
  have 1: "passes ''receiveBtCommand'' False (SendMessage s ''5C:B9:02'')
      (base_construct (\<lambda>_. CHR ''?'') (SendMessage s ''5C:B9:02'')) 27648 [s, ''5C:B9:02''] \<and>
    deserialize s = Ok (received ?o)"
    using wire_transfer[OF ord o s(1) c mac] s(2) by simp
  have r: "message_ok (MResponse twenty_siders)" by (simp add: twenty_siders_def)
  have "case serialize id (MResponse twenty_siders) of Ok t \<Rightarrow> length t = 255 | _ \<Rightarrow> False" by code_simp
  then obtain t where t: "serialize id (MResponse twenty_siders) = Ok t" "length t = 255" using ok_length by blast
  have d: "send_command t ''5C:B9:02'' = Some (SendMessage t ''5C:B9:02'')"
    using t(2) by (simp add: send_command_def send_sizes)
  have 2: "pass_command ''receiveBtCommand'' False (SendMessage t ''5C:B9:02'')
      (base_construct (\<lambda>_. CHR ''?'') (SendMessage t ''5C:B9:02'')) 27648 = Undef"
    using wire_transfer[OF ord r t(1) d mac] t(2) by simp
  have r': "received ?o = ?o" by simp
  show ?thesis
    by (intro conjI exI[of _ s] exI[of _ "SendMessage s ''5C:B9:02''"] exI[of _ t] exI[of _ "SendMessage t ''5C:B9:02''"])
      (rule s(1) 1[unfolded r', THEN conjunct1] 1[unfolded r', THEN conjunct2] t(1) d 2)+
qed

end
