(* ===== verification/Bridge.thy ===== *)
theory Bridge
  imports Java_Call Controller
begin

text \<open>
  The bridge between Java and the controller (dispatch/src/android/jniexec.cpp and javainvoker.cpp,
  dispatch/src/common/mainexec.cpp).  Java's calls become tasks of the JNI worker or of the main
  worker; the coroutines that handle them hop from one to the other.  Both workers are
  \<open>async::Worker\<close>, and all tasks here are submitted without a delay, so each is a queue (theory Worker
  shows that its tasks of this kind run in the order of submission); Java's threads, the JNI worker and
  the main worker interleave.
\<close>

subsection \<open>Strings and error codes\<close>

text \<open>
  \<open>GetString\<close>: \<open>chars\<close> is what \<open>GetStringUTFChars\<close> points to, \<open>len\<close> what \<open>GetStringUTFLength\<close> says.
  \<open>SendEvent\<close> collects the arguments; a null array has none.
\<close>

definition get_string :: "('j \<Rightarrow> string) \<Rightarrow> ('j \<Rightarrow> nat) \<Rightarrow> 'j \<Rightarrow> string" where
  "get_string chars len jstr = take (len jstr) (chars jstr)"

definition event_arguments :: "('j \<Rightarrow> string) \<Rightarrow> ('j \<Rightarrow> nat) \<Rightarrow> 'j list option \<Rightarrow> string list" where
  "event_arguments chars len args =
     (case args of None \<Rightarrow> [] | Some js \<Rightarrow> map (get_string chars len) js)"

abbreviation JNI_OK :: int where "JNI_OK \<equiv> 0"

definition error_to_string :: "int \<Rightarrow> string" where
  "error_to_string e =
     (if e = - 1 then ''Generic error''
      else if e = - 2 then ''Thread detached from the VM''
      else if e = - 3 then ''JNI version error''
      else if e = - 4 then ''Out of memory''
      else if e = - 5 then ''VM already created''
      else if e = - 6 then ''InvalidArgument''
      else ''Unknown error'')"

subsection \<open>State\<close>

text \<open>
  A \<open>JavaInvoker\<close> is identified by a serial number; \<open>ji_method\<close> is the name of its method.
\<close>

record java_invoker =
  ji_id :: nat
  ji_method :: string

text \<open>
  The tasks of the JNI worker: the continuations of \<open>OnLoad\<close>, \<open>OnUnload\<close> and \<open>BridgeReady\<close>, and the
  lambda of \<open>Invoke\<close>, which holds the invoker by a \<open>shared_ptr\<close>.
\<close>

datatype jni_task = J_Load | J_Unload | J_Ready | J_Pass java_invoker command int

text \<open>
  The tasks of the main worker: the continuations of \<open>BridgeReady\<close>, with the two external invokers,
  of \<open>SendEvent\<close> and of \<open>SendResponse\<close>.
\<close>

datatype main_task = M_Start java_invoker java_invoker | M_Event int "string list" | M_Response int rcode

text \<open>
  \<open>br_ui\<close>, \<open>br_bt\<close>, \<open>br_jvm\<close> and \<open>br_jenv\<close> are the members of \<open>s_ctx\<close>; the last two only say whether the
  pointer is set.  \<open>br_running\<close> is the task the JNI worker runs.  \<open>br_mgr\<close> are the invokers the
  command manager of the controller keeps, each an \<open>ExternalInvoker\<close> with a \<open>weak_ptr\<close>.
\<close>

record bridge =
  br_jvm :: bool
  br_jenv :: bool
  br_ui :: "java_invoker option"
  br_bt :: "java_invoker option"
  br_next :: nat
  br_jni :: "jni_task list"
  br_running :: "jni_task option"
  br_main :: "main_task list"
  br_mgr :: "(java_invoker \<times> java_invoker) option"

definition bridge_init :: bridge where
  "bridge_init = \<lparr>br_jvm = False, br_jenv = False, br_ui = None, br_bt = None, br_next = 0, br_jni = [],
                  br_running = None, br_main = [], br_mgr = None\<rparr>"

text \<open>What \<open>AttachCurrentThread\<close> returns, and whether \<open>GetStaticMethodID\<close> finds a method.\<close>

record jni_api =
  ja_attach :: int
  ja_has_method :: "string \<Rightarrow> bool"

subsection \<open>Tasks\<close>

definition jni_exec :: "jni_task \<Rightarrow> bridge \<Rightarrow> bridge" where
  "jni_exec t b = b\<lparr>br_jni := br_jni b @ [t]\<rparr>"

definition core_exec :: "main_task \<Rightarrow> bridge \<Rightarrow> bridge" where
  "core_exec t b = b\<lparr>br_main := br_main b @ [t]\<rparr>"

text \<open>The constructor of \<open>JavaInvoker\<close>; without the method \<open>Log::Fatal\<close> aborts, which is \<open>None\<close>.\<close>

definition make_invoker :: "jni_api \<Rightarrow> string \<Rightarrow> bridge \<Rightarrow> (java_invoker \<times> bridge) option" where
  "make_invoker api m b =
     (if ja_has_method api m
      then Some (\<lparr>ji_id = br_next b, ji_method = m\<rparr>, b\<lparr>br_next := Suc (br_next b)\<rparr>) else None)"

definition bridge_ready :: "jni_api \<Rightarrow> bridge \<Rightarrow> bridge option" where
  "bridge_ready api b =
     (if \<not> br_jenv b then None
      else
        (case make_invoker api ''receiveUiCommand'' b of
           None \<Rightarrow> None
         | Some (u, b1) \<Rightarrow>
             (case make_invoker api ''receiveBtCommand'' (b1\<lparr>br_ui := Some u\<rparr>) of
                None \<Rightarrow> None
              | Some (v, b2) \<Rightarrow> Some (core_exec (M_Start u v) (b2\<lparr>br_bt := Some v\<rparr>)))))"

text \<open>\<open>PassCommand\<close> only calls into Java, theory \<open>Java_Call\<close>.\<close>

fun run_jni :: "jni_api \<Rightarrow> jni_task \<Rightarrow> bridge \<Rightarrow> bridge option" where
  "run_jni api J_Load b =
     (if ja_attach api \<noteq> JNI_OK then None else Some (b\<lparr>br_jvm := True, br_jenv := True\<rparr>))"
| "run_jni api J_Unload b =
     Some (b\<lparr>br_ui := None, br_bt := None, br_jvm := False, br_jenv := False\<rparr>)"
| "run_jni api J_Ready b = bridge_ready api b"
| "run_jni api (J_Pass _ _ _) b = Some b"

text \<open>\<open>Controller::Start\<close> keeps the first invokers it is given.\<close>

fun run_main :: "main_task \<Rightarrow> bridge \<Rightarrow> bridge" where
  "run_main (M_Start u v) b = b\<lparr>br_mgr := (case br_mgr b of None \<Rightarrow> Some (u, v) | m \<Rightarrow> m)\<rparr>"
| "run_main _ b = b"

fun main_input :: "main_task \<Rightarrow> input" where
  "main_input (M_Start _ _) = In_Start"
| "main_input (M_Event i args) = In_Event i args"
| "main_input (M_Response i r) = In_Response i r"

text \<open>
  \<open>ExternalInvoker::Invoke\<close>: the \<open>weak_ptr\<close> can be locked as long as \<open>s_ctx\<close> or a task holds the
  invoker.
\<close>

definition jni_tasks :: "bridge \<Rightarrow> jni_task list" where
  "jni_tasks b = (case br_running b of None \<Rightarrow> [] | Some t \<Rightarrow> [t]) @ br_jni b"

fun holds :: "java_invoker \<Rightarrow> jni_task \<Rightarrow> bool" where
  "holds u (J_Pass w _ _) = (u = w)"
| "holds u _ = False"

definition alive :: "bridge \<Rightarrow> java_invoker \<Rightarrow> bool" where
  "alive b u \<longleftrightarrow> br_ui b = Some u \<or> br_bt b = Some u \<or> (\<exists>t \<in> set (jni_tasks b). holds u t)"

definition invoke :: "java_invoker \<Rightarrow> command \<Rightarrow> int \<Rightarrow> bridge \<Rightarrow> bool \<times> bridge" where
  "invoke u c argId b = (if \<not> alive b u then (False, b) else (True, jni_exec (J_Pass u c argId) b))"

subsection \<open>Steps\<close>

text \<open>
  The entry points Java calls, the two workers, and the commands the controller issues while the main
  worker runs; \<open>Sent k c i ok\<close> says which invoker was asked and what it answered.
\<close>

datatype invoker_kind = Ui | Bt

datatype br_label =
    Load | Unload | Ready | SendEvent int "string list" | SendResponse int rcode
  | TakeJni jni_task | DoneJni jni_task | Deliver main_task
  | Sent invoker_kind command int bool

definition kept :: "invoker_kind \<Rightarrow> java_invoker \<times> java_invoker \<Rightarrow> java_invoker" where
  "kept k m = (case k of Ui \<Rightarrow> fst m | Bt \<Rightarrow> snd m)"

inductive br_step :: "jni_api \<Rightarrow> bridge \<Rightarrow> br_label \<Rightarrow> bridge \<Rightarrow> bool" for api where
  load: "br_step api b Load (jni_exec J_Load b)"
| unload: "br_step api b Unload (jni_exec J_Unload b)"
| ready: "br_step api b Ready (jni_exec J_Ready b)"
| send_event: "br_step api b (SendEvent i args) (core_exec (M_Event i args) b)"
| send_response: "br_step api b (SendResponse i r) (core_exec (M_Response i r) b)"
| take_jni: "br_running b = None \<Longrightarrow> br_jni b = t # ts \<Longrightarrow>
    br_step api b (TakeJni t) (b\<lparr>br_jni := ts, br_running := Some t\<rparr>)"
| done_jni: "br_running b = Some t \<Longrightarrow> run_jni api t b = Some b' \<Longrightarrow>
    br_step api b (DoneJni t) (b'\<lparr>br_running := None\<rparr>)"
| deliver: "br_main b = t # ts \<Longrightarrow> br_step api b (Deliver t) (run_main t (b\<lparr>br_main := ts\<rparr>))"
| sent: "br_mgr b = Some m \<Longrightarrow> invoke (kept k m) c i b = (ok, b') \<Longrightarrow> br_step api b (Sent k c i ok) b'"

inductive_cases br_step_SentE: "br_step api b (Sent k c i ok) b'"

inductive runs :: "('s \<Rightarrow> 'l \<Rightarrow> 's \<Rightarrow> bool) \<Rightarrow> 's \<Rightarrow> 'l list \<Rightarrow> 's \<Rightarrow> bool" for tr where
  runs_nil: "runs tr s [] s"
| runs_snoc: "runs tr s ls s' \<Longrightarrow> tr s' l s'' \<Longrightarrow> runs tr s (ls @ [l]) s''"

text \<open>The steps as a function of the label.\<close>

fun br_exec :: "jni_api \<Rightarrow> bridge \<Rightarrow> br_label \<Rightarrow> bridge option" where
  "br_exec api b Load = Some (jni_exec J_Load b)"
| "br_exec api b Unload = Some (jni_exec J_Unload b)"
| "br_exec api b Ready = Some (jni_exec J_Ready b)"
| "br_exec api b (SendEvent i args) = Some (core_exec (M_Event i args) b)"
| "br_exec api b (SendResponse i r) = Some (core_exec (M_Response i r) b)"
| "br_exec api b (TakeJni t) =
     (case (br_running b, br_jni b) of
        (None, u # ts) \<Rightarrow> if u = t then Some (b\<lparr>br_jni := ts, br_running := Some t\<rparr>) else None
      | _ \<Rightarrow> None)"
| "br_exec api b (DoneJni t) =
     (if br_running b = Some t then map_option (\<lambda>b'. b'\<lparr>br_running := None\<rparr>) (run_jni api t b) else None)"
| "br_exec api b (Deliver t) =
     (case br_main b of
        u # ts \<Rightarrow> if u = t then Some (run_main t (b\<lparr>br_main := ts\<rparr>)) else None
      | [] \<Rightarrow> None)"
| "br_exec api b (Sent k c i ok) =
     (case br_mgr b of
        None \<Rightarrow> None
      | Some m \<Rightarrow> (let (r, b') = invoke (kept k m) c i b in if r = ok then Some b' else None))"

lemma br_step_exec: "br_step api b l b' \<longleftrightarrow> br_exec api b l = Some b'"
proof
  show "br_step api b l b' \<Longrightarrow> br_exec api b l = Some b'"
    by (induction rule: br_step.induct) auto
  show "br_exec api b l = Some b' \<Longrightarrow> br_step api b l b'"
    by (cases l) (auto intro: br_step.intros split: option.splits list.splits if_splits prod.splits)
qed

fun exec_all :: "jni_api \<Rightarrow> bridge \<Rightarrow> br_label list \<Rightarrow> bridge option" where
  "exec_all api b [] = Some b"
| "exec_all api b (l # ls) = (case br_exec api b l of None \<Rightarrow> None | Some b' \<Rightarrow> exec_all api b' ls)"

lemma runs_append: "runs tr s' ls s'' \<Longrightarrow> runs tr s ks s' \<Longrightarrow> runs tr s (ks @ ls) s''"
proof (induction rule: runs.induct)
  case (runs_snoc s ls s' l s'')
  then show ?case using runs.runs_snoc[of tr _ "ks @ ls" s' l s''] by simp
qed simp

lemma runs_one: "tr s l s' \<Longrightarrow> runs tr s [l] s'"
  using runs_snoc[OF runs_nil, of tr s l s'] by simp

lemma exec_all_runs: "exec_all api b ls = Some b' \<Longrightarrow> runs (br_step api) b ls b'"
proof (induction ls arbitrary: b)
  case (Cons l ls)
  then obtain b1 where "br_exec api b l = Some b1" "exec_all api b1 ls = Some b'"
    by (auto split: option.splits)
  have "br_step api b l b1" using \<open>br_exec api b l = Some b1\<close> by (simp only: br_step_exec)
  moreover have "runs (br_step api) b1 ls b'" using \<open>exec_all api b1 ls = Some b'\<close> by (rule Cons.IH)
  ultimately show ?case using runs_append[OF _ runs_one] by fastforce
qed (simp add: runs_nil)

lemma runs_invariant:
  assumes "runs tr s ls s'" "I s" "\<And>s l s'. tr s l s' \<Longrightarrow> I s \<Longrightarrow> I s'"
  shows "I s' \<and> runs (\<lambda>s l s'. I s \<and> tr s l s') s ls s'"
  using assms(1,2)
proof (induction rule: runs.induct)
  case (runs_snoc s ls s' l s'')
  then show ?case using assms(3) runs.runs_snoc[of "\<lambda>s l s'. I s \<and> tr s l s'"] by blast
qed (simp add: runs_nil)

subsection \<open>First in, first out\<close>

text \<open>
  What the users of an executor rely on: what is posted goes to the end of what is pending, and what
  is served comes from its front.
\<close>

locale fifo =
  fixes tr :: "'s \<Rightarrow> 'l \<Rightarrow> 's \<Rightarrow> bool"
    and pend :: "'s \<Rightarrow> 'a list"
    and posted :: "'l \<Rightarrow> 'a list"
    and served :: "'l \<Rightarrow> 'a list"
  assumes queue: "tr s l s' \<Longrightarrow> pend s @ posted l = served l @ pend s'"
begin

lemma run_order: "runs tr s ls s' \<Longrightarrow> pend s @ concat (map posted ls) = concat (map served ls) @ pend s'"
proof (induction rule: runs.induct)
  case (runs_snoc s ls s' l s'')
  then show ?case using queue[of s' l s''] by (metis append.assoc concat.simps concat_append map_append list.map append_Nil2)
qed simp

lemma run_drained:
  "runs tr s ls s' \<Longrightarrow> pend s = [] \<Longrightarrow> pend s' = [] \<Longrightarrow> concat (map posted ls) = concat (map served ls)"
  using run_order[of s ls s'] by simp

lemma served_posted:
  "runs tr s ls s' \<Longrightarrow> pend s = [] \<Longrightarrow> set (concat (map served ls)) \<subseteq> set (concat (map posted ls))"
  using run_order[of s ls s'] by (metis append_Nil set_append sup_ge1)

end

text \<open>The tasks of one due time in a worker.\<close>

fun put_job :: "nat \<Rightarrow> 'a wk_label \<Rightarrow> 'a job list" where
  "put_job s l = puts_at s [l]"

fun take_job :: "nat \<Rightarrow> 'a wk_label \<Rightarrow> 'a job list" where
  "take_job s l = takes_at s [l]"

interpretation due: fifo "\<lambda>w l w'. wk_inv w \<and> wk_step w l w'" "queued_at s" "put_job s" "take_job s" for s
  using wk_step_queued by unfold_locales auto

text \<open>Java's events and responses on their way to the controller.\<close>

fun is_start :: "main_task \<Rightarrow> bool" where
  "is_start (M_Start _ _) = True"
| "is_start _ = False"

definition pending_calls :: "bridge \<Rightarrow> main_task list" where
  "pending_calls b = filter (\<lambda>t. \<not> is_start t) (br_main b)"

fun posted_calls :: "br_label \<Rightarrow> main_task list" where
  "posted_calls (SendEvent i args) = [M_Event i args]"
| "posted_calls (SendResponse i r) = [M_Response i r]"
| "posted_calls _ = []"

fun served_calls :: "br_label \<Rightarrow> main_task list" where
  "served_calls (Deliver t) = (if is_start t then [] else [t])"
| "served_calls _ = []"

lemma run_main_main [simp]: "br_main (run_main t b) = br_main b"
  by (cases t) auto

lemma bridge_ready_cases:
  assumes "bridge_ready api b = Some b'"
  obtains u v where "u = \<lparr>ji_id = br_next b, ji_method = ''receiveUiCommand''\<rparr>"
    "v = \<lparr>ji_id = Suc (br_next b), ji_method = ''receiveBtCommand''\<rparr>"
    "b' = b\<lparr>br_ui := Some u, br_bt := Some v, br_next := br_next b + 2, br_main := br_main b @ [M_Start u v]\<rparr>"
  using assms
  by (auto simp: bridge_ready_def make_invoker_def core_exec_def split: if_splits)

lemma run_jni_calls: "run_jni api t b = Some b' \<Longrightarrow> pending_calls b' = pending_calls b"
  by (cases t) (auto simp: pending_calls_def split: if_splits elim!: bridge_ready_cases)

lemma invoke_simps:
  "invoke u c i b = (ok, b') \<Longrightarrow> ok = alive b u \<and> b' = (if ok then jni_exec (J_Pass u c i) b else b)"
  by (auto simp: invoke_def split: if_splits)

interpretation calls: fifo "br_step api" pending_calls posted_calls served_calls for api
proof
  show "br_step api b l b' \<Longrightarrow> pending_calls b @ posted_calls l = served_calls l @ pending_calls b'" for b l b'
  proof (induction rule: br_step.induct)
    case (done_jni b t b')
    then show ?case using run_jni_calls[of api t b b'] by (simp add: pending_calls_def)
  next
    case (sent b m k c i ok b')
    then show ?case by (auto dest!: invoke_simps simp: jni_exec_def pending_calls_def)
  qed (auto simp: pending_calls_def jni_exec_def core_exec_def)
qed

text \<open>Commands on their way to Java, with the method they go to.\<close>

definition well_named :: "java_invoker \<times> java_invoker \<Rightarrow> bool" where
  "well_named m \<longleftrightarrow> ji_method (fst m) = ''receiveUiCommand'' \<and> ji_method (snd m) = ''receiveBtCommand''"

text \<open>The pairs of invokers the controller has or will be offered.\<close>

fun offered :: "main_task \<Rightarrow> (java_invoker \<times> java_invoker) list" where
  "offered (M_Start u v) = [(u, v)]"
| "offered _ = []"

definition invoker_pairs :: "bridge \<Rightarrow> (java_invoker \<times> java_invoker) set" where
  "invoker_pairs b = set_option (br_mgr b) \<union> set (concat (map offered (br_main b)))"

definition pairs_ok :: "bridge \<Rightarrow> bool" where
  "pairs_ok b \<longleftrightarrow>
     (\<forall>m \<in> invoker_pairs b. well_named m \<and> ji_id (fst m) < br_next b \<and> ji_id (snd m) < br_next b)"

lemma invoker_pairs_simps [simp]:
  "invoker_pairs (jni_exec t b) = invoker_pairs b"
  "invoker_pairs (core_exec s b) = invoker_pairs b \<union> set (offered s)"
  by (auto simp: invoker_pairs_def jni_exec_def core_exec_def)

lemma pairs_ok_mono:
  "invoker_pairs b' \<subseteq> invoker_pairs b \<Longrightarrow> br_next b \<le> br_next b' \<Longrightarrow> pairs_ok b \<Longrightarrow> pairs_ok b'"
  unfolding pairs_ok_def by fastforce

lemma pairs_ok_exec:
  "pairs_ok (jni_exec t b) = pairs_ok b"
  "offered s = [] \<Longrightarrow> pairs_ok (core_exec s b) = pairs_ok b"
  by (simp_all add: pairs_ok_def) (simp_all add: jni_exec_def core_exec_def)

lemma run_main_next [simp]: "br_next (run_main t b) = br_next b"
  by (cases t) auto

lemma run_jni_pairs:
  assumes "run_jni api t b = Some b'" "pairs_ok b"
  shows "pairs_ok (b'\<lparr>br_running := None\<rparr>)"
proof (cases t)
  case J_Ready
  with assms(1) have "bridge_ready api b = Some b'" by simp
  then show ?thesis
  proof (cases rule: bridge_ready_cases)
    case (1 u v)
    have "invoker_pairs (b'\<lparr>br_running := None\<rparr>) = insert (u, v) (invoker_pairs b)"
      by (auto simp: 1 invoker_pairs_def)
    then show ?thesis using assms(2) 1 unfolding pairs_ok_def well_named_def by fastforce
  qed
qed (use assms in \<open>auto intro!: pairs_ok_mono[of _ b] simp: invoker_pairs_def split: if_splits\<close>)

lemma pairs_ok_step:
  assumes "br_step api b l b'" "pairs_ok b"
  shows "pairs_ok b'"
  using assms
proof (induction rule: br_step.induct)
  case (deliver b t ts)
  then have "invoker_pairs (run_main t (b\<lparr>br_main := ts\<rparr>)) \<subseteq> invoker_pairs b"
    by (cases t) (auto simp: invoker_pairs_def split: option.splits)
  then show ?case using pairs_ok_mono[OF _ _ deliver.prems] by simp
next
  case (done_jni b t b')
  then show ?case using run_jni_pairs by blast
next
  case (sent b m k c i ok b')
  then have "b' = (if ok then jni_exec (J_Pass (kept k m) c i) b else b)" using invoke_simps by blast
  then show ?case using sent.prems by (simp add: pairs_ok_exec)
next
  case (take_jni b t ts)
  then show ?case by (simp add: pairs_ok_def invoker_pairs_def)
qed (simp_all add: pairs_ok_exec)

lemma pairs_ok_init: "pairs_ok bridge_init"
  by (simp add: pairs_ok_def invoker_pairs_def bridge_init_def)

fun method_of :: "invoker_kind \<Rightarrow> string" where
  "method_of Ui = ''receiveUiCommand''"
| "method_of Bt = ''receiveBtCommand''"

lemma pairs_ok_kept:
  assumes "pairs_ok b" "br_mgr b = Some m"
  shows "ji_method (kept k m) = method_of k" "ji_id (kept k m) < br_next b"
  using assms by (auto simp: pairs_ok_def invoker_pairs_def well_named_def kept_def split: invoker_kind.splits)

fun pass_of :: "jni_task \<Rightarrow> (string \<times> command \<times> int) list" where
  "pass_of (J_Pass u c i) = [(ji_method u, c, i)]"
| "pass_of _ = []"

definition pending_passes :: "bridge \<Rightarrow> (string \<times> command \<times> int) list" where
  "pending_passes b = concat (map pass_of (jni_tasks b))"

fun posted_passes :: "br_label \<Rightarrow> (string \<times> command \<times> int) list" where
  "posted_passes (Sent k c i True) = [(method_of k, c, i)]"
| "posted_passes _ = []"

fun served_passes :: "br_label \<Rightarrow> (string \<times> command \<times> int) list" where
  "served_passes (DoneJni t) = pass_of t"
| "served_passes _ = []"

lemma run_jni_queue: "run_jni api t b = Some b' \<Longrightarrow> br_jni b' = br_jni b \<and> br_running b' = br_running b"
  by (cases t) (auto split: if_splits elim!: bridge_ready_cases)

lemma run_main_queue [simp]: "br_jni (run_main t b) = br_jni b" "br_running (run_main t b) = br_running b"
  by (cases t; simp)+

lemma jni_tasks_simps [simp]:
  "jni_tasks (jni_exec t b) = jni_tasks b @ [t]" "jni_tasks (core_exec s b) = jni_tasks b"
  "jni_tasks (run_main s b) = jni_tasks b" "jni_tasks (b\<lparr>br_main := ts\<rparr>) = jni_tasks b"
  by (auto simp: jni_tasks_def jni_exec_def core_exec_def split: option.split)

interpretation passes: fifo "\<lambda>b l b'. pairs_ok b \<and> br_step api b l b'" pending_passes posted_passes served_passes for api
proof
  have "br_step api b l b' \<Longrightarrow> pairs_ok b \<Longrightarrow>
    pending_passes b @ posted_passes l = served_passes l @ pending_passes b'" for b l b'
  proof (induction rule: br_step.induct)
    case (done_jni b t b')
    then show ?case using run_jni_queue[of api t b b'] by (auto simp: pending_passes_def jni_tasks_def)
  next
    case (sent b m k c i ok b')
    then show ?case using pairs_ok_kept[of b m k]
      by (cases ok) (auto dest!: invoke_simps simp: pending_passes_def)
  qed (auto simp: pending_passes_def, auto simp: jni_tasks_def)
  then show "pairs_ok b \<and> br_step api b l b' \<Longrightarrow>
    pending_passes b @ posted_passes l = served_passes l @ pending_passes b'" for b l b' by blast
qed

subsection \<open>The invokers stay usable until they are replaced\<close>

text \<open>An invoker that nothing holds any more stays dead, and whoever asks for it is refused.\<close>

definition dead_channel :: "invoker_kind \<Rightarrow> java_invoker \<times> java_invoker \<Rightarrow> bridge \<Rightarrow> bool" where
  "dead_channel k m b \<longleftrightarrow> br_mgr b = Some m \<and> ji_id (kept k m) < br_next b \<and> \<not> alive b (kept k m)"

lemma alive_jni_exec:
  "alive (jni_exec t b) u \<longleftrightarrow> alive b u \<or> holds u t"
  "alive (core_exec s b) u = alive b u"
  by (auto simp: alive_def) (auto simp: jni_exec_def core_exec_def)

lemma run_jni_alive:
  assumes "run_jni api t b = Some b'" "ji_id u < br_next b" "alive (b'\<lparr>br_running := None\<rparr>) u" "br_running b = Some t"
  shows "alive b u"
proof (cases t)
  case J_Ready
  with assms(1) have "bridge_ready api b = Some b'" by simp
  then show ?thesis
    by (cases rule: bridge_ready_cases) (use assms(2-4) in \<open>auto simp: alive_def jni_tasks_def\<close>)
qed (use assms in \<open>auto simp: alive_def jni_tasks_def split: if_splits\<close>)

lemma run_jni_keeps: "run_jni api t b = Some b' \<Longrightarrow> br_mgr b' = br_mgr b \<and> br_next b \<le> br_next b'"
  by (cases t) (auto split: if_splits elim!: bridge_ready_cases)

lemma dead_channel_step:
  assumes "br_step api b l b'" "dead_channel k m b"
  shows "dead_channel k m b' \<and> l \<noteq> Sent k c i True"
  using assms
proof (induction rule: br_step.induct)
  case (done_jni b t b')
  then show ?case
    using run_jni_alive[of api t b b' "kept k m"] run_jni_keeps[of api t b b']
    by (auto simp: dead_channel_def)
next
  case (sent b n k' c' i' ok b')
  then have "b' = (if ok then jni_exec (J_Pass (kept k' n) c' i') b else b)" "ok = alive b (kept k' n)" "n = m"
    using invoke_simps by (auto simp: dead_channel_def)
  then show ?case using sent.prems
    by (auto simp: dead_channel_def alive_jni_exec) (simp_all add: jni_exec_def)
next
  case (deliver b t ts)
  then show ?case by (cases t) (auto simp: dead_channel_def alive_def jni_tasks_def)
next
  case (take_jni b t ts)
  then show ?case by (auto simp: dead_channel_def alive_def jni_tasks_def)
qed (auto simp: dead_channel_def alive_jni_exec, auto simp: jni_exec_def core_exec_def)

lemma dead_channel_runs:
  assumes "runs (br_step api) b ls b'" "dead_channel k m b"
  shows "dead_channel k m b' \<and> Sent k c i True \<notin> set ls"
  using assms
proof (induction rule: runs.induct)
  case (runs_snoc b ls b' l b'')
  then show ?case using dead_channel_step[of api b' l b'' k m c i] by auto
qed simp

lemma runs_pairs_ok:
  "runs (br_step api) bridge_init ls b \<Longrightarrow>
   pairs_ok b \<and> runs (\<lambda>b l b'. pairs_ok b \<and> br_step api b l b') bridge_init ls b"
  by (rule runs_invariant[where I = pairs_ok]) (auto intro: pairs_ok_init pairs_ok_step)

text \<open>
  One \<open>bridgeReady\<close> and no unload: \<open>r\<close> counts the calls.  Before its task has run nobody has an invoker;
  afterwards all that was handed out is what \<open>s_ctx\<close> holds.
\<close>

definition ready_tasks :: "bridge \<Rightarrow> nat" where
  "ready_tasks b = length (filter (\<lambda>t. t = J_Ready) (jni_tasks b))"

definition one_ready :: "nat \<Rightarrow> bridge \<Rightarrow> bool" where
  "one_ready r b \<longleftrightarrow>
     J_Unload \<notin> set (jni_tasks b) \<and>
     (if br_next b = 0 then ready_tasks b \<le> r \<and> invoker_pairs b = {}
      else Suc (ready_tasks b) \<le> r \<and>
        (\<exists>u v. br_ui b = Some u \<and> br_bt b = Some v \<and> invoker_pairs b \<subseteq> {(u, v)}))"

lemma ready_tasks_simps [simp]:
  "ready_tasks (jni_exec t b) = ready_tasks b + (if t = J_Ready then 1 else 0)"
  "ready_tasks (core_exec s b) = ready_tasks b"
  "ready_tasks (run_main s b) = ready_tasks b"
  by (auto simp: ready_tasks_def)

lemma one_ready_alive:
  assumes "one_ready r b" "br_mgr b = Some m"
  shows "alive b (kept k m)"
proof -
  have "m \<in> invoker_pairs b" using assms(2) by (simp add: invoker_pairs_def)
  then have "br_ui b = Some (fst m) \<and> br_bt b = Some (snd m)"
    using assms(1) by (auto simp: one_ready_def split: if_splits)
  then show ?thesis by (cases k) (auto simp: alive_def kept_def)
qed

lemma one_ready_exec:
  assumes "one_ready r b"
  shows "t \<noteq> J_Unload \<Longrightarrow> t \<noteq> J_Ready \<Longrightarrow> one_ready r (jni_exec t b)"
    and "one_ready (Suc r) (jni_exec J_Ready b)"
    and "offered s = [] \<Longrightarrow> one_ready r (core_exec s b)"
  using assms by (auto simp: one_ready_def) (auto simp: jni_exec_def core_exec_def)

lemma invoker_pairs_running [simp]:
  "invoker_pairs (b\<lparr>br_running := x\<rparr>) = invoker_pairs b" "invoker_pairs (b\<lparr>br_jni := ts\<rparr>) = invoker_pairs b"
  by (simp_all add: invoker_pairs_def)

lemma one_ready_done:
  assumes "br_running b = Some t" "run_jni api t b = Some b'" "one_ready r b" "r \<le> 1"
  shows "one_ready r (b'\<lparr>br_running := None\<rparr>)"
proof (cases t)
  case J_Ready
  then have r: "ready_tasks b = Suc (length (filter (\<lambda>t. t = J_Ready) (br_jni b)))"
    using assms(1) by (simp add: ready_tasks_def jni_tasks_def)
  then have "Suc (length (filter (\<lambda>t. t = J_Ready) (br_jni b))) \<le> r" "br_next b = 0" "invoker_pairs b = {}"
    using assms(3,4) by (auto simp: one_ready_def split: if_splits)
  then have z: "br_next b = 0" "r = 1" "filter (\<lambda>t. t = J_Ready) (br_jni b) = []" "invoker_pairs b = {}"
    using assms(4) by (cases "filter (\<lambda>t. t = J_Ready) (br_jni b)"; simp)+
  have u: "J_Unload \<notin> set (br_jni b)" using assms(1,3) by (simp add: one_ready_def jni_tasks_def)
  from J_Ready assms(2) have "bridge_ready api b = Some b'" by simp
  then show ?thesis
  proof (cases rule: bridge_ready_cases)
    case (1 u v)
    have "invoker_pairs (b'\<lparr>br_running := None\<rparr>) = {(u, v)}"
      using z(4) by (auto simp: 1 invoker_pairs_def)
    then show ?thesis using z u by (simp add: one_ready_def ready_tasks_def jni_tasks_def 1)
  qed
next
  case J_Unload
  then show ?thesis using assms by (simp add: one_ready_def jni_tasks_def)
qed (use assms in \<open>auto simp: one_ready_def ready_tasks_def jni_tasks_def invoker_pairs_def split: if_splits\<close>)

lemma one_ready_step:
  assumes "br_step api b l b'" "one_ready r b" "r + (if l = Ready then 1 else 0) \<le> 1" "l \<noteq> Unload"
  shows "one_ready (r + (if l = Ready then 1 else 0)) b' \<and> (\<forall>k c i. l \<noteq> Sent k c i False)"
  using assms
proof (induction rule: br_step.induct)
  case (deliver b t ts)
  have "invoker_pairs (run_main t (b\<lparr>br_main := ts\<rparr>)) \<subseteq> invoker_pairs b"
    using deliver.hyps by (cases t) (auto simp: invoker_pairs_def split: option.splits)
  moreover have "br_ui (run_main t (b\<lparr>br_main := ts\<rparr>)) = br_ui b" "br_bt (run_main t (b\<lparr>br_main := ts\<rparr>)) = br_bt b"
    by (cases t; simp)+
  moreover have "ready_tasks (b\<lparr>br_main := ts\<rparr>) = ready_tasks b" by (simp add: ready_tasks_def)
  ultimately show ?case using deliver.prems(1) by (auto simp: one_ready_def split: if_splits)
next
  case (done_jni b t b')
  then show ?case using one_ready_done[of b t api b' r] by simp
next
  case (sent b m k c i ok b')
  then have "b' = (if ok then jni_exec (J_Pass (kept k m) c i) b else b)" "ok = alive b (kept k m)"
    using invoke_simps by blast+
  then show ?case using one_ready_alive[of r b m k] one_ready_exec(1)[of r b] sent by auto
next
  case (take_jni b t ts)
  then show ?case
    by (auto simp: one_ready_def ready_tasks_def jni_tasks_def split: if_splits)
qed (auto intro: one_ready_exec)

lemma one_ready_runs:
  assumes "runs (br_step api) b0 ls b" "b0 = bridge_init" "length (filter (\<lambda>l. l = Ready) ls) \<le> 1" "Unload \<notin> set ls"
  shows "one_ready (length (filter (\<lambda>l. l = Ready) ls)) b \<and> (\<forall>k c i. Sent k c i False \<notin> set ls)"
  using assms
proof (induction rule: runs.induct)
  case (runs_nil b)
  then show ?case
    by (simp add: one_ready_def bridge_init_def jni_tasks_def ready_tasks_def invoker_pairs_def)
next
  case (runs_snoc b ls b' l b'')
  then show ?case using one_ready_step[of api b' l b'' "length (filter (\<lambda>l. l = Ready) ls)"]
    by (auto split: if_splits)
qed

subsection \<open>Properties\<close>

text \<open>
  In every interleaving of Java's threads and the two workers, the events and responses Java
  sends reach the controller in the order of the calls, each once, and the commands the bridge has
  accepted are passed to Java in the order in which they were issued, each once and to the method of
  the side it belongs to.
\<close>

theorem bridge_in_order:
  assumes "runs (br_step api) bridge_init ls b"
  shows "concat (map posted_calls ls) = concat (map served_calls ls) @ pending_calls b \<and>
         concat (map posted_passes ls) = concat (map served_passes ls) @ pending_passes b"
proof -
  have "pending_calls bridge_init = []" "pending_passes bridge_init = []"
    by (simp_all add: bridge_init_def pending_calls_def pending_passes_def jni_tasks_def)
  then show ?thesis
    using calls.run_order[OF assms] passes.run_order[OF conjunct2[OF runs_pairs_ok[OF assms]]] by simp
qed

definition working_api :: jni_api where
  "working_api = \<lparr>ja_attach = JNI_OK, ja_has_method = (\<lambda>_. True)\<rparr>"

text \<open>The library is loaded and the bridge made ready, up to the continuation on the main worker.\<close>

definition start_labels :: "br_label list" where
  "start_labels = [Load, TakeJni J_Load, DoneJni J_Load, Ready, TakeJni J_Ready, DoneJni J_Ready]"

abbreviation ui_invoker :: "nat \<Rightarrow> java_invoker" where
  "ui_invoker n \<equiv> \<lparr>ji_id = n, ji_method = ''receiveUiCommand''\<rparr>"

abbreviation bt_invoker :: "nat \<Rightarrow> java_invoker" where
  "bt_invoker n \<equiv> \<lparr>ji_id = n, ji_method = ''receiveBtCommand''\<rparr>"

definition sample_labels :: "br_label list" where
  "sample_labels = start_labels @
     [Deliver (M_Start (ui_invoker 0) (bt_invoker 1)), SendEvent 100 [], SendResponse 27648 0,
      Sent Ui ResetGame 29184 True, Deliver (M_Event 100 []), Sent Bt StopListening 26112 True,
      TakeJni (J_Pass (ui_invoker 0) ResetGame 29184), DoneJni (J_Pass (ui_invoker 0) ResetGame 29184)]"

lemmas run_defs = working_api_def start_labels_def bridge_init_def jni_exec_def core_exec_def bridge_ready_def
  make_invoker_def invoke_def alive_def jni_tasks_def kept_def

theorem bridge_in_order_witness:
  "\<exists>b. exec_all working_api bridge_init sample_labels = Some b \<and>
     concat (map posted_calls sample_labels) = [M_Event 100 []] @ pending_calls b \<and>
     concat (map posted_passes sample_labels) = [(''receiveUiCommand'', ResetGame, 29184)] @ pending_passes b"
proof -
  obtain b where b: "exec_all working_api bridge_init sample_labels = Some b"
    by (simp add: sample_labels_def run_defs)
  from bridge_in_order[OF exec_all_runs[OF b]] b show ?thesis
    by (intro exI[of _ b]) (simp add: sample_labels_def start_labels_def)
qed

text \<open>
  C23. As long as Java has called \<open>bridgeReady\<close> once and the library is not unloaded, the bridge accepts
  every command the controller issues.  When \<open>bridgeReady\<close> is called again, the new invokers replace
  the ones of the controller, which keeps those it was started with: once the commands accepted
  before have been passed, every command of that side fails, whatever happens later.
\<close>

theorem second_ready_disconnects:
  assumes "runs (br_step api) bridge_init ls b" "br_mgr b = Some m"
  shows "(length (filter (\<lambda>l. l = Ready) ls) \<le> 1 \<and> Unload \<notin> set ls \<longrightarrow> Sent k c i False \<notin> set ls) \<and>
         (br_step api b (DoneJni J_Ready) b1 \<and> (\<forall>t \<in> set (br_jni b). \<not> holds (kept k m) t) \<and>
            runs (br_step api) b1 ls' b' \<longrightarrow> Sent k c i True \<notin> set ls')"
proof (intro conjI impI)
  assume "length (filter (\<lambda>l. l = Ready) ls) \<le> 1 \<and> Unload \<notin> set ls"
  then show "Sent k c i False \<notin> set ls" using one_ready_runs[OF assms(1) refl] by blast
next
  assume r: "br_step api b (DoneJni J_Ready) b1 \<and> (\<forall>t \<in> set (br_jni b). \<not> holds (kept k m) t) \<and>
    runs (br_step api) b1 ls' b'"
  have "pairs_ok b" using runs_pairs_ok[OF assms(1)] by blast
  note old = pairs_ok_kept(2)[OF this assms(2), of k]
  obtain b0 where b0: "bridge_ready api b = Some b0" "b1 = b0\<lparr>br_running := None\<rparr>"
    using r by (auto simp: br_step_exec split: if_splits)
  have new: "ui_invoker (br_next b) \<noteq> kept k m" "bt_invoker (Suc (br_next b)) \<noteq> kept k m"
    using old by (cases "kept k m"; auto)+
  from b0 have "dead_channel k m b1"
    using old r assms(2) new
    by (cases rule: bridge_ready_cases) (auto simp: dead_channel_def alive_def jni_tasks_def)
  then show "Sent k c i True \<notin> set ls'" using dead_channel_runs r by blast
qed

definition twice_labels :: "br_label list" where
  "twice_labels = start_labels @
     [Deliver (M_Start (ui_invoker 0) (bt_invoker 1)), Sent Ui ResetGame 29184 True,
      TakeJni (J_Pass (ui_invoker 0) ResetGame 29184), DoneJni (J_Pass (ui_invoker 0) ResetGame 29184),
      Ready, TakeJni J_Ready]"

definition later_labels :: "br_label list" where
  "later_labels = [Deliver (M_Start (ui_invoker 2) (bt_invoker 3)), Sent Ui ResetGame 29184 False]"

theorem second_ready_disconnects_witness:
  "\<exists>b b1 b'. exec_all working_api bridge_init twice_labels = Some b \<and>
     br_exec working_api b (DoneJni J_Ready) = Some b1 \<and> exec_all working_api b1 later_labels = Some b' \<and>
     (\<forall>ls' b'. runs (br_step working_api) b1 ls' b' \<longrightarrow> Sent Ui ResetGame 29184 True \<notin> set ls')"
proof -
  obtain b where b: "exec_all working_api bridge_init twice_labels = Some b"
    and m: "br_mgr b = Some (ui_invoker 0, bt_invoker 1)" "br_jni b = []" "br_running b = Some J_Ready" "br_jenv b"
      "br_next b = 2" "br_main b = []"
    by (simp add: twice_labels_def run_defs)
  obtain b1 where b1: "br_exec working_api b (DoneJni J_Ready) = Some b1"
    and m1: "br_mgr b1 = br_mgr b" "br_jni b1 = []" "br_running b1 = None" "br_ui b1 = Some (ui_invoker 2)"
      "br_bt b1 = Some (bt_invoker 3)" "br_main b1 = [M_Start (ui_invoker 2) (bt_invoker 3)]"
    using m by (simp add: run_defs)
  obtain b' where b': "exec_all working_api b1 later_labels = Some b'"
    using m m1 by (simp add: later_labels_def invoke_def alive_def jni_tasks_def kept_def)
  have "Sent Ui ResetGame 29184 True \<notin> set ls'" if "runs (br_step working_api) b1 ls' b2" for ls' b2
    using second_ready_disconnects[OF exec_all_runs[OF b] m(1), of Ui ResetGame 29184 b1 ls' b2] b1 m(2) that
    by (simp add: br_step_exec)
  with b b1 b' show ?thesis by blast
qed

fun from_java :: "br_label \<Rightarrow> bool" where
  "from_java (TakeJni _) = False"
| "from_java (DoneJni _) = False"
| "from_java (Deliver _) = False"
| "from_java (Sent _ _ _ _) = False"
| "from_java _ = True"

text \<open>The inputs of the controller.\<close>

fun delivered :: "br_label \<Rightarrow> input list" where
  "delivered (Deliver t) = [main_input t]"
| "delivered _ = []"

definition overtaking_labels :: "int \<Rightarrow> string list \<Rightarrow> br_label list" where
  "overtaking_labels i args =
     [Load, TakeJni J_Load, DoneJni J_Load, Ready, SendEvent i args, Deliver (M_Event i args),
      TakeJni J_Ready, DoneJni J_Ready, Deliver (M_Start (ui_invoker 0) (bt_invoker 1))]"

text \<open>
  C38. \<open>sendEvent\<close> may overtake \<open>bridgeReady\<close>, which has to pass through the JNI worker first: even when
  Java calls \<open>bridgeReady\<close> before, there is a run in which the controller gets the event before
  \<open>Start\<close>; it has no state then, and goes on as if the event had never been sent.
\<close>

theorem early_event_lost:
  assumes "ja_attach api = JNI_OK" "ja_has_method api = (\<lambda>_. True)"
  shows "\<exists>ls b. runs (br_step api) bridge_init ls b \<and>
           filter from_java ls = [Load, Ready, SendEvent i args] \<and>
           concat (map delivered ls) = [In_Event i args, In_Start] \<and>
           (\<forall>e rest. run e (concat (map delivered ls) @ rest) controller_init = run e (In_Start # rest) controller_init)"
proof -
  obtain b where "exec_all api bridge_init (overtaking_labels i args) = Some b"
    by (simp add: overtaking_labels_def run_defs assms)
  note r = exec_all_runs[OF this]
  have "on_event e i args controller_init = Some controller_init" for e
    by (simp add: on_event_def controller_init_def split: option.split)
  then have "run e ([In_Event i args, In_Start] @ rest) controller_init = run e (In_Start # rest) controller_init" for e rest
    by simp
  then show ?thesis using r
    by (intro exI[of _ "overtaking_labels i args"] exI[of _ b]) (simp add: overtaking_labels_def)
qed

theorem early_event_lost_witness:
  "\<exists>ls b. runs (br_step working_api) bridge_init ls b \<and>
     filter from_java ls = [Load, Ready, SendEvent 100 []] \<and>
     concat (map delivered ls) = [In_Event 100 [], In_Start]"
  using early_event_lost[of working_api 100 "[]"] by (auto simp: working_api_def)

end
