(* ===== verification/System.thy ===== *)
theory System
  imports Bridge Runs
begin

text \<open>
  The whole core: Java's calls, the JNI worker and the main worker (theory Bridge) around the
  controller and its state objects (theories Controller and Runs).  The main worker runs the controller
  one task at a time; meanwhile Java's threads and the JNI worker go on.  What the controller issues
  while a task runs are the calls of \<open>Invoke\<close> the bridge sees.
\<close>

subsection \<open>The main worker\<close>

text \<open>\<open>Manager::IssueUiCommand\<close> and \<open>Manager::IssueBtCommand\<close>: the invoker a command goes to.\<close>

definition invoker_of :: "command \<Rightarrow> invoker_kind" where
  "invoker_of c = (if ui_command c then Ui else Bt)"

abbreviation mgr_of :: "controller \<Rightarrow> frame manager" where
  "mgr_of ct \<equiv> cx_mgr (ct_ctx ct)"

text \<open>The commands accepted between two states of the controller.\<close>

definition issued :: "controller \<Rightarrow> controller \<Rightarrow> (int \<times> command) list" where
  "issued ct ct' = drop (length (mg_sent (mgr_of ct))) (mg_sent (mgr_of ct'))"

fun answer_of :: "br_label \<Rightarrow> bool list" where
  "answer_of (Sent _ _ _ ok) = [ok]"
| "answer_of _ = []"

fun accepted :: "br_label \<Rightarrow> (invoker_kind \<times> command \<times> int) list" where
  "accepted (Sent k c i True) = [(k, c, i)]"
| "accepted _ = []"

text \<open>
  \<open>carried e ct ct' ls\<close>: the calls of \<open>Invoke\<close> among \<open>ls\<close> are those of the controller on its way from
  \<open>ct\<close> to \<open>ct'\<close>, with the answers it got.
\<close>

definition carried :: "env \<Rightarrow> controller \<Rightarrow> controller \<Rightarrow> br_label list \<Rightarrow> bool" where
  "carried e ct ct' ls \<longleftrightarrow>
     concat (map answer_of ls) = map (e_accept e) [mg_calls (mgr_of ct)..<mg_calls (mgr_of ct')] \<and>
     concat (map accepted ls) = map (\<lambda>(i, c). (invoker_of c, c, i)) (issued ct ct')"

text \<open>What happens beside the main worker, and what may happen while it runs one task.\<close>

fun aside :: "br_label \<Rightarrow> bool" where
  "aside (Deliver _) = False"
| "aside (Sent _ _ _ _) = False"
| "aside _ = True"

fun during :: "br_label \<Rightarrow> bool" where
  "during (Deliver _) = False"
| "during _ = True"

text \<open>The inputs that do not come through the bridge.\<close>

fun own :: "input \<Rightarrow> bool" where
  "own In_Timer = True"
| "own (In_Elapse _) = True"
| "own _ = False"

subsection \<open>Steps\<close>

datatype sys_label = Aside br_label | Served main_task "br_label list" | Own input "br_label list"

inductive sys_step :: "jni_api \<Rightarrow> env \<Rightarrow> bridge \<times> controller \<Rightarrow> sys_label \<Rightarrow> bridge \<times> controller \<Rightarrow> bool"
  for api e where
  sys_aside: "br_step api b l b' \<Longrightarrow> aside l \<Longrightarrow> sys_step api e (b, ct) (Aside l) (b', ct)"
| sys_served: "br_step api b (Deliver t) b1 \<Longrightarrow> step e (main_input t) ct = Some ct' \<Longrightarrow>
    runs (br_step api) b1 ls b' \<Longrightarrow> list_all during ls \<Longrightarrow> carried e ct ct' ls \<Longrightarrow>
    sys_step api e (b, ct) (Served t ls) (b', ct')"
| sys_own: "own i \<Longrightarrow> step e i ct = Some ct' \<Longrightarrow>
    runs (br_step api) b ls b' \<Longrightarrow> list_all during ls \<Longrightarrow> carried e ct ct' ls \<Longrightarrow>
    sys_step api e (b, ct) (Own i ls) (b', ct')"

text \<open>The steps as a function of the label.\<close>

fun sys_exec :: "jni_api \<Rightarrow> env \<Rightarrow> bridge \<times> controller \<Rightarrow> sys_label \<Rightarrow> (bridge \<times> controller) option" where
  "sys_exec api e (b, ct) (Aside l) = (if aside l then map_option (\<lambda>b'. (b', ct)) (br_exec api b l) else None)"
| "sys_exec api e (b, ct) (Served t ls) =
     (case br_exec api b (Deliver t) of
        None \<Rightarrow> None
      | Some b1 \<Rightarrow>
          (case (step e (main_input t) ct, exec_all api b1 ls) of
             (Some ct', Some b') \<Rightarrow> if list_all during ls \<and> carried e ct ct' ls then Some (b', ct') else None
           | _ \<Rightarrow> None))"
| "sys_exec api e (b, ct) (Own i ls) =
     (case (step e i ct, exec_all api b ls) of
        (Some ct', Some b') \<Rightarrow> if own i \<and> list_all during ls \<and> carried e ct ct' ls then Some (b', ct') else None
      | _ \<Rightarrow> None)"

lemma sys_exec_step:
  assumes "sys_exec api e (b, ct) l = Some s'"
  shows "sys_step api e (b, ct) l s'"
proof (cases l)
  case (Aside k)
  then obtain b' where "aside k" "br_exec api b k = Some b'" "s' = (b', ct)"
    using assms by (auto split: if_splits)
  then show ?thesis unfolding Aside by (simp add: sys_aside br_step_exec)
next
  case (Served t ls)
  then obtain b1 ct' b' where "br_step api b (Deliver t) b1" "step e (main_input t) ct = Some ct'"
    "exec_all api b1 ls = Some b'" "list_all during ls" "carried e ct ct' ls" "s' = (b', ct')"
    using assms unfolding br_step_exec by (auto split: option.splits if_splits)
  then show ?thesis unfolding Served by (simp add: sys_served[OF _ _ exec_all_runs])
next
  case (Own i ls)
  then obtain ct' b' where "own i" "step e i ct = Some ct'" "exec_all api b ls = Some b'"
    "list_all during ls" "carried e ct ct' ls" "s' = (b', ct')"
    using assms by (auto split: option.splits if_splits)
  then show ?thesis unfolding Own by (simp add: sys_own[OF _ _ exec_all_runs])
qed

fun sys_run :: "jni_api \<Rightarrow> env \<Rightarrow> bridge \<times> controller \<Rightarrow> sys_label list \<Rightarrow> (bridge \<times> controller) option" where
  "sys_run api e s [] = Some s"
| "sys_run api e s (l # ls) = (case sys_exec api e s l of None \<Rightarrow> None | Some s' \<Rightarrow> sys_run api e s' ls)"

lemma sys_run_runs: "sys_run api e s ls = Some s' \<Longrightarrow> runs (sys_step api e) s ls s'"
proof (induction ls arbitrary: s)
  case (Cons l ls)
  obtain s1 where "sys_exec api e s l = Some s1" "sys_run api e s1 ls = Some s'"
    using Cons.prems by (auto split: option.splits)
  have "sys_step api e s l s1"
    using sys_exec_step[of api e "fst s" "snd s" l s1] \<open>sys_exec api e s l = Some s1\<close> by simp
  from runs_append[OF Cons.IH[OF \<open>sys_run api e s1 ls = Some s'\<close>] runs_one[where tr = "sys_step api e", OF this]]
  show ?case by simp
qed (simp add: runs_nil)

subsection \<open>The two halves of a run\<close>

text \<open>What the bridge does in a step, and what the controller is given.\<close>

fun bridge_labels :: "sys_label \<Rightarrow> br_label list" where
  "bridge_labels (Aside l) = [l]"
| "bridge_labels (Served t ls) = Deliver t # ls"
| "bridge_labels (Own i ls) = ls"

fun inputs_of :: "sys_label \<Rightarrow> input list" where
  "inputs_of (Aside l) = []"
| "inputs_of (Served t ls) = [main_input t]"
| "inputs_of (Own i ls) = [i]"

definition bridge_part :: "sys_label list \<Rightarrow> br_label list" where
  "bridge_part ls = concat (map bridge_labels ls)"

definition controller_part :: "sys_label list \<Rightarrow> input list" where
  "controller_part ls = concat (map inputs_of ls)"

lemma parts_snoc [simp]:
  "bridge_part [] = []" "bridge_part (ls @ [l]) = bridge_part ls @ bridge_labels l"
  "controller_part [] = []" "controller_part (ls @ [l]) = controller_part ls @ inputs_of l"
  by (simp_all add: bridge_part_def controller_part_def)

lemma sys_step_bridge: "sys_step api e s l s' \<Longrightarrow> runs (br_step api) (fst s) (bridge_labels l) (fst s')"
proof (induction rule: sys_step.induct)
  case (sys_served b t b1 ct ct' ls b')
  then show ?case using runs_append[OF sys_served(3) runs_one[where tr = "br_step api", OF sys_served(1)]] by simp
qed (auto intro: runs_one)

lemma sys_step_controller: "sys_step api e s l s' \<Longrightarrow> run e (inputs_of l) (snd s) = Some (snd s')"
  by (induction rule: sys_step.induct) auto

lemma sys_bridge: "runs (sys_step api e) s ls s' \<Longrightarrow> runs (br_step api) (fst s) (bridge_part ls) (fst s')"
proof (induction rule: runs.induct)
  case (runs_snoc s ls s' l s'')
  then show ?case using runs_append[OF sys_step_bridge] by simp
qed (simp add: runs_nil)

lemma sys_controller: "runs (sys_step api e) s ls s' \<Longrightarrow> run e (controller_part ls) (snd s) = Some (snd s')"
proof (induction rule: runs.induct)
  case (runs_snoc s ls s' l s'')
  then show ?case using sys_step_controller[of api e s' l s''] by (simp add: run_append)
qed simp


text \<open>Where the two halves meet: the inputs of the controller and its commands.\<close>

fun external :: "input \<Rightarrow> bool" where
  "external (In_Event _ _) = True"
| "external (In_Response _ _) = True"
| "external _ = False"

lemma served_during: "list_all during ls \<Longrightarrow> concat (map served_calls ls) = []"
proof (induction ls)
  case (Cons l ls)
  then show ?case by (cases l) auto
qed simp

lemma sys_inputs:
  assumes "sys_step api e s l s'"
  shows "filter external (inputs_of l) = map main_input (concat (map served_calls (bridge_labels l)))"
  using assms
proof (induction rule: sys_step.induct)
  case (sys_aside b l b' ct)
  then show ?case by (cases l) auto
next
  case (sys_served b t b1 ct ct' ls b')
  then show ?case by (cases t) (simp_all add: served_during)
next
  case (sys_own i ct ct' b ls b')
  then show ?case by (cases i) (simp_all add: served_during)
qed

text \<open>A command on its way to Java: the method it is passed to, the command and its identifier.\<close>

definition as_pass :: "int \<times> command \<Rightarrow> string \<times> command \<times> int" where
  "as_pass = (\<lambda>(i, c). (method_of (invoker_of c), c, i))"

lemma posted_accepted:
  "concat (map posted_passes ls) = map (\<lambda>(k, c, i). (method_of k, c, i)) (concat (map accepted ls))"
proof (induction ls)
  case (Cons l ls)
  have "posted_passes l = map (\<lambda>(k, c, i). (method_of k, c, i)) (accepted l)"
    by (cases l rule: accepted.cases) auto
  with Cons show ?case by simp
qed simp

lemma carried_posted: "carried e ct ct' ls \<Longrightarrow> concat (map posted_passes ls) = map as_pass (issued ct ct')"
  unfolding posted_accepted by (simp add: carried_def as_pass_def case_prod_unfold)

lemma sent_issued:
  assumes "ctl_inv ct" "step e i ct = Some ct'"
  shows "mg_sent (mgr_of ct') = mg_sent (mgr_of ct) @ issued ct ct'"
  using step_ok[OF assms] by (auto simp: issues_def issued_def)

lemma sys_commands:
  assumes "sys_step api e s l s'" "ctl_inv (snd s)"
  shows "map as_pass (mg_sent (mgr_of (snd s'))) =
         map as_pass (mg_sent (mgr_of (snd s))) @ concat (map posted_passes (bridge_labels l))"
  using assms
proof (induction rule: sys_step.induct)
  case (sys_aside b l b' ct)
  then show ?case by (cases l) auto
next
  case (sys_served b t b1 ct ct' ls b')
  then show ?case using sent_issued[OF _ sys_served(2)] by (simp add: carried_posted)
next
  case (sys_own i ct ct' b ls b')
  then show ?case using sent_issued[OF _ sys_own(2)] by (simp add: carried_posted)
qed

lemma sys_inv: "runs (sys_step api e) s ls s' \<Longrightarrow> ctl_inv (snd s) \<Longrightarrow> ctl_inv (snd s')"
  using sys_controller run_inv by blast

lemma sys_meet:
  assumes "runs (sys_step api e) s0 ls s" "s0 = (bridge_init, controller_init)"
  shows "map as_pass (mg_sent (mgr_of (snd s))) = concat (map posted_passes (bridge_part ls)) \<and>
         filter external (controller_part ls) = map main_input (concat (map served_calls (bridge_part ls)))"
  using assms
proof (induction rule: runs.induct)
  case (runs_nil s)
  then show ?case by (simp add: controller_init_def ctx_init_def manager_init_def)
next
  case (runs_snoc s ls s' l s'')
  have "ctl_inv (snd s')" using sys_inv[OF runs_snoc(1)] runs_snoc(4) ctl_inv_init by simp
  then show ?case using runs_snoc sys_commands sys_inputs[OF runs_snoc(2)] by simp
qed

subsection \<open>What is issued can be passed on\<close>

lemma one_ready_tasks:
  assumes "one_ready r b" "r \<le> 1" "br_mgr b = Some m" "t \<in> set (jni_tasks b)"
  shows "t \<noteq> J_Unload \<and> t \<noteq> J_Ready"
proof -
  have "m \<in> invoker_pairs b" using assms(3) by (simp add: invoker_pairs_def)
  then have "ready_tasks b = 0" using assms(1,2) by (auto simp: one_ready_def split: if_splits)
  then show ?thesis using assms(1,4) by (auto simp: ready_tasks_def one_ready_def filter_empty_conv)
qed

text \<open>With living invokers every command is accepted.\<close>

lemma send_all:
  assumes "one_ready r b" "r \<le> 1" "br_mgr b = Some m"
  shows "\<exists>b'. runs (br_step api) b (map (\<lambda>(i, c). Sent (invoker_of c) c i True) cs) b' \<and>
           one_ready r b' \<and> br_mgr b' = Some m \<and> br_main b' = br_main b"
proof (induction cs rule: rev_induct)
  case Nil
  show ?case using assms by (auto intro: runs_nil)
next
  case (snoc p cs)
  obtain i c where p: "p = (i, c)" by fastforce
  obtain b1 where b1: "runs (br_step api) b (map (\<lambda>(i, c). Sent (invoker_of c) c i True) cs) b1"
    "one_ready r b1" "br_mgr b1 = Some m" "br_main b1 = br_main b"
    using snoc by blast
  let ?b2 = "jni_exec (J_Pass (kept (invoker_of c) m) c i) b1"
  have "br_step api b1 (Sent (invoker_of c) c i True) ?b2"
    by (rule br_step.sent[OF b1(3)]) (simp add: invoke_def one_ready_alive[OF b1(2,3)])
  moreover have "one_ready r ?b2" "br_mgr ?b2 = Some m" "br_main ?b2 = br_main b"
    using b1 one_ready_exec(1)[OF b1(2)] by (simp_all add: jni_exec_def)
  ultimately show ?case using runs_snoc[OF b1(1)] by (auto simp: p)
qed

text \<open>The JNI worker can run what is in its queue.\<close>

lemma finish_task:
  assumes "br_running b = Some t" "t \<noteq> J_Unload \<and> t \<noteq> J_Ready" "ja_attach api = JNI_OK"
  shows "\<exists>b'. br_step api b (DoneJni t) b' \<and> br_running b' = None \<and> br_jni b' = br_jni b \<and> br_main b' = br_main b"
proof -
  have "\<exists>b'. run_jni api t b = Some b' \<and> br_jni b' = br_jni b \<and> br_main b' = br_main b"
    using assms(2,3) by (cases t) auto
  then show ?thesis using done_jni[OF assms(1)] by fastforce
qed

lemma drain_idle:
  assumes "br_running b = None" "\<forall>t \<in> set (br_jni b). t \<noteq> J_Unload \<and> t \<noteq> J_Ready" "ja_attach api = JNI_OK"
  shows "\<exists>ls b'. runs (br_step api) b ls b' \<and> list_all aside ls \<and> jni_tasks b' = [] \<and> br_main b' = br_main b"
  using assms
proof (induction "br_jni b" arbitrary: b)
  case Nil
  then show ?case by (intro exI[of _ "[]"] exI[of _ b]) (simp add: runs_nil jni_tasks_def)
next
  case (Cons t ts)
  let ?b1 = "b\<lparr>br_jni := ts, br_running := Some t\<rparr>"
  have s1: "br_step api b (TakeJni t) ?b1" using Cons.prems(1) Cons.hyps(2) by (simp add: take_jni)
  have "t \<noteq> J_Unload \<and> t \<noteq> J_Ready" using Cons.prems(2) Cons.hyps(2) by (metis list.set_intros(1))
  then obtain b2 where b2: "br_step api ?b1 (DoneJni t) b2" "br_running b2 = None" "br_jni b2 = ts" "br_main b2 = br_main b"
    using finish_task[of ?b1 t] Cons.prems(3) by auto
  obtain ls b' where r: "runs (br_step api) b2 ls b'" "list_all aside ls" "jni_tasks b' = []" "br_main b' = br_main b"
    using Cons.hyps(1)[of b2] b2 Cons.prems(2,3) Cons.hyps(2) by (metis list.set_intros(2))
  have "runs (br_step api) b ([TakeJni t, DoneJni t] @ ls) b'"
    using runs_append[OF r(1) runs_snoc[OF runs_one[where tr = "br_step api", OF s1] b2(1)]] by simp
  then show ?case using r by fastforce
qed

lemma drain:
  assumes "\<forall>t \<in> set (jni_tasks b). t \<noteq> J_Unload \<and> t \<noteq> J_Ready" "ja_attach api = JNI_OK"
  shows "\<exists>ls b'. runs (br_step api) b ls b' \<and> list_all aside ls \<and> jni_tasks b' = [] \<and> br_main b' = br_main b"
proof (cases "br_running b")
  case None
  then show ?thesis using drain_idle[of b] assms by (simp add: jni_tasks_def)
next
  case (Some t)
  then obtain b1 where b1: "br_step api b (DoneJni t) b1" "br_running b1 = None" "br_jni b1 = br_jni b" "br_main b1 = br_main b"
    using finish_task[of b t api] assms by (auto simp: jni_tasks_def)
  then obtain ls b' where "runs (br_step api) b1 ls b'" "list_all aside ls" "jni_tasks b' = []" "br_main b' = br_main b"
    using drain_idle[of b1 api] Some assms by (auto simp: jni_tasks_def)
  then show ?thesis using runs_append[OF _ runs_one[where tr = "br_step api", OF b1(1)]] by fastforce
qed

lemma aside_runs:
  "runs (br_step api) b ls b' \<Longrightarrow> list_all aside ls \<Longrightarrow> runs (sys_step api e) (b, ct) (map Aside ls) (b', ct)"
proof (induction rule: runs.induct)
  case (runs_snoc b ls b' l b'')
  then show ?case using runs.runs_snoc[of "sys_step api e" "(b, ct)" "map Aside ls" "(b', ct)"]
    by (simp add: sys_aside)
qed (simp add: runs.runs_nil)

lemma aside_posted: "list_all aside ls \<Longrightarrow> concat (map posted_passes ls) = []"
proof (induction ls)
  case (Cons l ls)
  then show ?case by (cases l) auto
qed simp

lemma sends_carried:
  assumes "ctl_inv ct" "step e i ct = Some ct'" "e_accept e = (\<lambda>_. True)"
  shows "carried e ct ct' (map (\<lambda>(i, c). Sent (invoker_of c) c i True) (issued ct ct'))"
proof -
  have "length (issued ct ct') = mg_calls (mgr_of ct') - mg_calls (mgr_of ct)"
    using step_ok[OF assms(1,2)] assms(3) by (auto simp: issues_def issued_def)
  moreover have "concat (map answer_of (map (\<lambda>(i, c). Sent (invoker_of c) c i True) cs)) = replicate (length cs) True"
    "concat (map accepted (map (\<lambda>(i, c). Sent (invoker_of c) c i True) cs)) = map (\<lambda>(i, c). (invoker_of c, c, i)) cs"
    for cs :: "(int \<times> command) list"
    by (induction cs) auto
  ultimately show ?thesis by (simp add: carried_def assms(3) map_replicate_const del: map_map)
qed

subsection \<open>Properties\<close>

text \<open>What Java sends.\<close>

fun java_input :: "br_label \<Rightarrow> input list" where
  "java_input (SendEvent i args) = [In_Event i args]"
| "java_input (SendResponse i r) = [In_Response i r]"
| "java_input _ = []"

lemma java_input_posted: "concat (map java_input ls) = map main_input (concat (map posted_calls ls))"
proof (induction ls)
  case (Cons l ls)
  have "java_input l = map main_input (posted_calls l)" by (cases l) auto
  with Cons show ?case by simp
qed simp

text \<open>
  C3. However Java's threads and the two workers interleave, the system does what the controller
  alone would do with the events and responses in the order in which Java sent them, some of which
  are still under way: its controller is in a state of such a run, and the commands of that run are
  those Java has got, each once, in the order of issue, by the method of its invoker, followed by those
  still under way.
\<close>

theorem system_refines_controller:
  assumes "runs (sys_step api e) (bridge_init, controller_init) ls (b, ct)"
  shows "\<exists>is. run e is controller_init = Some ct \<and>
           concat (map java_input (bridge_part ls)) = filter external is @ map main_input (pending_calls b) \<and>
           map as_pass (mg_sent (mgr_of ct)) = concat (map served_passes (bridge_part ls)) @ pending_passes b"
proof (intro exI conjI)
  have r: "runs (br_step api) bridge_init (bridge_part ls) b" using sys_bridge[OF assms] by simp
  show "run e (controller_part ls) controller_init = Some ct" using sys_controller[OF assms] by simp
  show "concat (map java_input (bridge_part ls)) = filter external (controller_part ls) @ map main_input (pending_calls b)"
    "map as_pass (mg_sent (mgr_of ct)) = concat (map served_passes (bridge_part ls)) @ pending_passes b"
    using sys_meet[OF assms refl] bridge_in_order[OF r] by (simp_all add: java_input_posted)
qed


text \<open>
  Bluetooth is switched on, a game is requested, and a device connects while discovery and listening
  are being started.
\<close>

definition system_labels :: "sys_label list" where
  "system_labels = map Aside start_labels @
     [Served (M_Start (ui_invoker 0) (bt_invoker 1)) [], Own In_Timer [Sent Bt EnableBluetooth 26880 True],
      Aside (TakeJni (J_Pass (bt_invoker 1) EnableBluetooth 26880)),
      Aside (DoneJni (J_Pass (bt_invoker 1) EnableBluetooth 26880)), Aside (SendResponse 26880 0),
      Served (M_Response 26880 0) [], Aside (SendEvent 13 []), Served (M_Event 13 []) [],
      Own In_Timer [Sent Bt (StartDiscovery APP_UUID APP_NAME True) 25856 True, SendEvent 10 [''a'', ''A''],
        Sent Bt (StartListening APP_UUID APP_NAME DISCOVERABILITY_DURATION) 25600 True]]"

definition system_end :: "bridge \<times> controller" where
  "system_end = the (sys_run working_api scene_env (bridge_init, controller_init) system_labels)"

definition discovery_pass :: "string \<times> command \<times> int" where
  "discovery_pass = (''receiveBtCommand'', StartDiscovery APP_UUID APP_NAME True, 25856)"

definition listening_pass :: "string \<times> command \<times> int" where
  "listening_pass = (''receiveBtCommand'', StartListening APP_UUID APP_NAME DISCOVERABILITY_DURATION, 25600)"

lemma system_scene:
  "sys_run working_api scene_env (bridge_init, controller_init) system_labels = Some system_end"
  "br_main (fst system_end) = [M_Event 10 [''a'', ''A'']]"
  "pending_passes (fst system_end) = [discovery_pass, listening_pass]"
  "br_mgr (fst system_end) \<noteq> None"
proof -
  have "(case sys_run working_api scene_env (bridge_init, controller_init) system_labels of
     None \<Rightarrow> False | Some s \<Rightarrow> br_main (fst s) = [M_Event 10 [''a'', ''A'']] \<and>
       pending_passes (fst s) = [discovery_pass, listening_pass] \<and> br_mgr (fst s) \<noteq> None)"
    by code_simp
  then show "sys_run working_api scene_env (bridge_init, controller_init) system_labels = Some system_end"
    "br_main (fst system_end) = [M_Event 10 [''a'', ''A'']]"
    "pending_passes (fst system_end) = [discovery_pass, listening_pass]" "br_mgr (fst system_end) \<noteq> None"
    unfolding system_end_def by (auto split: option.splits)
qed

theorem system_refines_controller_witness:
  "\<exists>is. run scene_env is controller_init = Some (snd system_end) \<and>
     filter external is = [In_Response 26880 0, In_Event 13 []] \<and>
     map as_pass (mg_sent (mgr_of (snd system_end))) =
       [(''receiveBtCommand'', EnableBluetooth, 26880), discovery_pass, listening_pass]"
proof -
  have "sys_run working_api scene_env (bridge_init, controller_init) system_labels =
      Some (fst system_end, snd system_end)"
    using system_scene(1) by simp
  from system_refines_controller[OF sys_run_runs[OF this]] show ?thesis
    by (simp add: bridge_part_def system_labels_def start_labels_def system_scene(2,3) pending_calls_def
        eq_commute[of "filter external _"])
qed

text \<open>
  C22. In normal operation nothing gets stuck or lost: \<open>bridgeReady\<close> was called once, the library is
  not unloaded, and the controller is started or about to be.  Whatever the main worker has to run
  next, unless the controller aborts on it, the worker can run it with every command accepted, and
  the JNI worker can then pass to Java all that was under way and exactly the commands the controller
  issued, in this order.
\<close>

theorem system_progress:
  assumes "runs (sys_step api e) (bridge_init, controller_init) ls (b, ct)"
    and normal: "length (filter (\<lambda>l. l = Ready) (bridge_part ls)) \<le> 1" "Unload \<notin> set (bridge_part ls)"
      "ja_attach api = JNI_OK" "e_accept e = (\<lambda>_. True)"
    and task: "br_main b = t # ts" "is_start t \<or> br_mgr b \<noteq> None" "step e (main_input t) ct = Some ct'"
  shows "\<exists>ks js b'. runs (sys_step api e) (b, ct) (Served t ks # map Aside js) (b', ct') \<and>
           br_main b' = ts \<and> jni_tasks b' = [] \<and>
           concat (map served_passes js) = pending_passes b @ map as_pass (issued ct ct')"
proof -
  let ?r = "length (filter (\<lambda>l. l = Ready) (bridge_part ls))"
    and ?ks = "map (\<lambda>(i, c). Sent (invoker_of c) c i True) (issued ct ct')" and ?b1 = "run_main t (b\<lparr>br_main := ts\<rparr>)"
  have br: "runs (br_step api) bridge_init (bridge_part ls) b" using sys_bridge[OF assms(1)] by simp
  have inv: "ctl_inv ct" using sys_inv[OF assms(1)] ctl_inv_init by simp
  have d: "br_step api b (Deliver t) ?b1" using deliver[OF task(1)] .
  have one: "one_ready ?r ?b1"
    using one_ready_step[OF d, of ?r] one_ready_runs[OF br refl normal(1,2)] normal(1) by simp
  obtain m where "br_mgr ?b1 = Some m" using task(2) by (cases t; cases "br_mgr b") auto
  then obtain b2 where b2: "runs (br_step api) ?b1 ?ks b2" "one_ready ?r b2" "br_mgr b2 = Some m" "br_main b2 = ts"
    using send_all[OF one normal(1), of m api "issued ct ct'"] by auto
  have carried: "carried e ct ct' ?ks" by (rule sends_carried[OF inv task(3) normal(4)])
  have "sys_step api e (b, ct) (Served t ?ks) (b2, ct')"
    by (rule sys_served[OF d task(3) b2(1) _ carried]) (auto simp: list_all_iff)
  note first = runs_one[where tr = "sys_step api e", OF this]
  obtain js b' where b': "runs (br_step api) b2 js b'" "list_all aside js" "jni_tasks b' = []" "br_main b' = ts"
    using drain[of b2 api] one_ready_tasks[OF b2(2) normal(1) b2(3)] normal(3) b2(4) by auto
  have "runs (br_step api) b ([Deliver t] @ ?ks @ js) b'"
    using runs_append[OF runs_append[OF b'(1) b2(1)] runs_one[where tr = "br_step api", OF d]] by simp
  then have all: "runs (br_step api) bridge_init (bridge_part ls @ [Deliver t] @ ?ks @ js) b'"
    using br by (rule runs_append)
  have old: "concat (map served_passes ?ks) = []" by (induction "issued ct ct'") auto
  have "concat (map served_passes js) = pending_passes b @ map as_pass (issued ct ct')"
    using conjunct2[OF bridge_in_order[OF all]] conjunct2[OF bridge_in_order[OF br]] b'(3)
      carried_posted[OF carried] aside_posted[OF b'(2)] old
    by (simp add: pending_passes_def del: map_map)
  moreover have "runs (sys_step api e) (b, ct) (Served t ?ks # map Aside js) (b', ct')"
    using runs_append[OF aside_runs[OF b'(1,2)] first] by simp
  ultimately show ?thesis using b'(3,4) by blast
qed


theorem system_progress_witness:
  "\<exists>ct' ks js b'.
     runs (sys_step working_api scene_env) system_end
       (Served (M_Event 10 [''a'', ''A'']) ks # map Aside js) (b', ct') \<and> jni_tasks b' = [] \<and>
     concat (map served_passes js) = [discovery_pass, listening_pass,
       (''receiveBtCommand'', SendMessage ''a'' ''a'', 27648)]"
proof -
  have c: "sys_run working_api scene_env (bridge_init, controller_init) system_labels =
      Some (fst system_end, snd system_end)"
    using system_scene(1) by simp
  have "case sys_run working_api scene_env (bridge_init, controller_init) system_labels of
      None \<Rightarrow> False
    | Some s \<Rightarrow> (case step scene_env (In_Event 10 [''a'', ''A'']) (snd s) of
          None \<Rightarrow> False
        | Some ct' \<Rightarrow> map as_pass (issued (snd s) ct') = [(''receiveBtCommand'', SendMessage ''a'' ''a'', 27648)])"
    by code_simp
  then obtain ct' where ct': "step scene_env (In_Event 10 [''a'', ''A'']) (snd system_end) = Some ct'"
    "map as_pass (issued (snd system_end) ct') = [(''receiveBtCommand'', SendMessage ''a'' ''a'', 27648)]"
    unfolding system_scene(1) option.case by (cases "step scene_env (In_Event 10 [''a'', ''A'']) (snd system_end)") simp_all
  have normal: "length (filter (\<lambda>l. l = Ready) (bridge_part system_labels)) \<le> 1"
    "Unload \<notin> set (bridge_part system_labels)" "ja_attach working_api = JNI_OK" "e_accept scene_env = (\<lambda>_. True)"
    by (simp_all add: bridge_part_def system_labels_def start_labels_def working_api_def scene_env_def uniform_env_def)
  show ?thesis
    using system_progress[OF sys_run_runs[OF c] normal system_scene(2)] system_scene(3,4) ct' by fastforce
qed

end
