(* ===== verification/Logging.thy ===== *)
theory Logging
  imports Cmd_Buffers
begin

text \<open>
  \<open>Log\<close> (utils/log.cpp and include/utils/log.hpp): the lines that are logged and where they go, and the
  lines of \<open>CommandAdapter\<close> (ctrl/commandadapter.cpp).
\<close>

subsection \<open>Handlers (log.cpp)\<close>

datatype level = Debug | Info | Warning | Error | Fatal

datatype stream = Stdout | Stderr

text \<open>
  What a call of \<open>Log\<close> does: it calls a handler with the tag and the text, or prints a line with a
  letter for the level; the time stamp in front of it, of the type \<open>'t\<close>, comes from the system.
  \<open>Abort\<close> is \<open>std::abort\<close>.
\<close>

datatype ('h, 't) log_effect =
    CallHandler 'h string string
  | Print stream 't char string string
  | Abort

text \<open>The static members, null when nothing is installed.\<close>

record 'h log_handlers =
  lh_debug :: "'h option"
  lh_info :: "'h option"
  lh_warning :: "'h option"
  lh_error :: "'h option"
  lh_fatal :: "'h option"

definition no_handlers :: "'h log_handlers" where
  "no_handlers = \<lparr>lh_debug = None, lh_info = None, lh_warning = None, lh_error = None, lh_fatal = None\<rparr>"

definition std_log :: "stream \<Rightarrow> 't \<Rightarrow> char \<Rightarrow> string \<Rightarrow> string \<Rightarrow> ('h, 't) log_effect list" where
  "std_log file now what tag txt = [Print file now what tag txt]"

definition handled_or ::
  "'h option \<Rightarrow> string \<Rightarrow> string \<Rightarrow> ('h, 't) log_effect list \<Rightarrow> ('h, 't) log_effect list" where
  "handled_or handler tag txt otherwise =
     (case handler of Some h \<Rightarrow> [CallHandler h tag txt] | None \<Rightarrow> otherwise)"

fun log_text :: "'h log_handlers \<Rightarrow> 't \<Rightarrow> level \<Rightarrow> string \<Rightarrow> string \<Rightarrow> ('h, 't) log_effect list" where
  "log_text hs now Debug tag txt = handled_or (lh_debug hs) tag txt (std_log Stdout now (CHR ''D'') tag txt)"
| "log_text hs now Info tag txt = handled_or (lh_info hs) tag txt (std_log Stdout now (CHR ''I'') tag txt)"
| "log_text hs now Warning tag txt = handled_or (lh_warning hs) tag txt (std_log Stderr now (CHR ''W'') tag txt)"
| "log_text hs now Error tag txt = handled_or (lh_error hs) tag txt (std_log Stderr now (CHR ''E'') tag txt)"
| "log_text hs now Fatal tag txt =
     handled_or (lh_fatal hs) tag txt (std_log Stderr now (CHR ''F'') tag txt) @ [Abort]"

subsection \<open>Lines (log.hpp)\<close>

definition MAX_LINE_LENGTH :: nat where
  "MAX_LINE_LENGTH = 511"

text \<open>
  \<open>FormatArgs\<close>: \<open>garbage\<close> are the bytes of the array before it is written.  \<open>Format\<close> gets all of them but
  the last; the byte behind what it wrote becomes zero.
\<close>

definition format_args :: "string \<Rightarrow> string \<Rightarrow> (span \<Rightarrow> span) list \<Rightarrow> string" where
  "format_args garbage fmt args =
     (let rest = fmt_format \<lparr>sp_mem = take MAX_LINE_LENGTH garbage, sp_pos = 0\<rparr> fmt args
      in (sp_mem rest @ drop MAX_LINE_LENGTH garbage)[sp_pos rest := CHR 0x00])"

text \<open>The overloads with arguments hand the array on as a C string.\<close>

definition c_string :: "string \<Rightarrow> string outcome" where
  "c_string p = (if CHR 0x00 \<in> set p then Ok (takeWhile (\<lambda>c. c \<noteq> CHR 0x00) p) else Undef)"

definition log_format ::
  "'h log_handlers \<Rightarrow> 't \<Rightarrow> level \<Rightarrow> string \<Rightarrow> string \<Rightarrow> string \<Rightarrow> (span \<Rightarrow> span) list \<Rightarrow> ('h, 't) log_effect list outcome" where
  "log_format hs now l garbage tag fmt args =
     obind (c_string (format_args garbage fmt args)) (\<lambda>txt. Ok (log_text hs now l tag txt))"

subsection \<open>Commands and responses (commandadapter.cpp)\<close>

text \<open>\<open>LogCommand\<close> streams the views of all arguments; \<open>LogResponse\<close> has the name of the command.\<close>

fun arg_views :: "bool \<Rightarrow> command \<Rightarrow> base \<Rightarrow> nat list \<Rightarrow> string list outcome" where
  "arg_views csigned c b [] = Ok []"
| "arg_views csigned c b (i # is) =
     obind (get_arg_at csigned c b i) (\<lambda>a. obind (arg_views csigned c b is) (\<lambda>as. Ok (a # as)))"

definition bracketed :: "string list \<Rightarrow> string" where
  "bracketed args = concat (map (\<lambda>a. '' ['' @ a @ '']'') args)"

definition log_command ::
  "'h log_handlers \<Rightarrow> 't \<Rightarrow> string \<Rightarrow> bool \<Rightarrow> command \<Rightarrow> base \<Rightarrow> ('h, 't) log_effect list outcome" where
  "log_command hs now garbage csigned c b =
     obind (arg_views csigned c b [0..<get_args_count c]) (\<lambda>args.
       log_format hs now Info garbage ''Command'' ''>>>>> {}{}''
         [write_view (cmd_name c), write_view (bracketed args)])"

definition log_response ::
  "'h log_handlers \<Rightarrow> 't \<Rightarrow> string \<Rightarrow> string \<Rightarrow> rcode \<Rightarrow> ('h, 't) log_effect list outcome" where
  "log_response hs now garbage cmdName response =
     log_format hs now Info garbage ''Command'' ''<<<<< {}Response [{}]''
       [write_view cmdName, write_view (rcode_to_string response)]"

subsection \<open>Properties\<close>

fun effect_text :: "('h, 't) log_effect \<Rightarrow> string option" where
  "effect_text (CallHandler _ _ txt) = Some txt"
| "effect_text (Print _ _ _ _ txt) = Some txt"
| "effect_text Abort = None"

lemma log_text_effects:
  "List.map_filter effect_text (log_text hs now l tag txt) = [txt] \<and>
   (Abort \<in> set (log_text hs now l tag txt) \<longleftrightarrow> l = Fatal)"
  by (cases l) (auto simp: handled_or_def std_log_def map_filter_simps split: option.split)

text \<open>What \<open>Format\<close> left in the array, before the terminator is set.\<close>

lemma format_args_array:
  assumes "length garbage = Suc MAX_LINE_LENGTH" "list_all2 text_writer ws ts"
  defines "d \<equiv> \<lparr>sp_mem = take MAX_LINE_LENGTH garbage, sp_pos = 0\<rparr>"
  shows "length (format_args garbage fmt ws) = Suc MAX_LINE_LENGTH \<and>
    (length (render fmt ts) \<le> MAX_LINE_LENGTH \<longrightarrow>
       take (Suc (length (render fmt ts))) (format_args garbage fmt ws) = render fmt ts @ [CHR 0x00]) \<and>
    (MAX_LINE_LENGTH < length (render fmt ts) \<longrightarrow> format_args garbage fmt ws ! MAX_LINE_LENGTH = CHR 0x00)"
proof -
  let ?e = "fmt_format d fmt ws"
  have ok: "sp_ok d" by (simp add: d_def sp_ok_def)
  have c: "copied (render fmt ts) d ?e" using assms(2) ok by (rule fmt_format_copied)
  have size: "sp_size d = MAX_LINE_LENGTH" using assms(1) by (simp add: d_def sp_size_def)
  have len: "length (sp_mem ?e) = MAX_LINE_LENGTH" "sp_pos ?e \<le> MAX_LINE_LENGTH"
    using c copied_ok[OF c] assms(1) by (auto simp: copied_def sp_grows_def d_def sp_ok_def)
  have f: "format_args garbage fmt ws = (sp_mem ?e @ drop MAX_LINE_LENGTH garbage)[sp_pos ?e := CHR 0x00]"
    by (simp add: format_args_def d_def Let_def)
  have full: "length (sp_mem ?e @ drop MAX_LINE_LENGTH garbage) = Suc MAX_LINE_LENGTH"
    using len assms(1) by simp
  have "take (Suc (length (render fmt ts))) (format_args garbage fmt ws) = render fmt ts @ [CHR 0x00]"
    if fits: "length (render fmt ts) \<le> MAX_LINE_LENGTH"
  proof -
    have m: "sp_mem ?e = render fmt ts @ drop (length (render fmt ts)) (take MAX_LINE_LENGTH garbage) \<and>
      sp_pos ?e = length (render fmt ts)"
      using copied_mem[OF c ok] fits size by (simp add: d_def)
    then have "take (length (render fmt ts)) (sp_mem ?e @ drop MAX_LINE_LENGTH garbage) = render fmt ts"
      by simp
    moreover have "length (render fmt ts) < length (sp_mem ?e @ drop MAX_LINE_LENGTH garbage)"
      using fits full by simp
    ultimately show ?thesis using m by (simp add: f take_Suc_conv_app_nth)
  qed
  moreover have "format_args garbage fmt ws ! MAX_LINE_LENGTH = CHR 0x00"
    if "MAX_LINE_LENGTH < length (render fmt ts)"
  proof -
    have "sp_empty ?e" using c that size by (auto simp: copied_def split: if_splits)
    then have "sp_pos ?e = MAX_LINE_LENGTH" using len by (simp add: sp_size_def)
    then show ?thesis using full by (simp add: f)
  qed
  ultimately show ?thesis using full by (simp add: f)
qed

lemma c_string_prefix: "take (Suc (length t)) p = t @ [CHR 0x00] \<Longrightarrow> CHR 0x00 \<notin> set t \<Longrightarrow> c_string p = Ok t"
proof -
  assume p: "take (Suc (length t)) p = t @ [CHR 0x00]" and t: "CHR 0x00 \<notin> set t"
  have "p = (t @ [CHR 0x00]) @ drop (Suc (length t)) p" using p by (metis append_take_drop_id)
  then have "p = t @ CHR 0x00 # drop (Suc (length t)) p" by simp
  then show "c_string p = Ok t" using set_takeWhile_stop[OF t] unfolding c_string_def
    by (metis in_set_conv_decomp)
qed

lemma c_string_bounded:
  assumes "n < length p" "p ! n = CHR 0x00"
  shows "\<exists>t. c_string p = Ok t \<and> length t \<le> n"
proof -
  have "length (takeWhile (\<lambda>c. c \<noteq> CHR 0x00) p) \<le> n"
    using assms nth_length_takeWhile[of "\<lambda>c. c \<noteq> CHR 0x00" p]
    by (metis (mono_tags, lifting) not_le_imp_less set_takeWhileD takeWhile_nth nth_mem)
  moreover have "CHR 0x00 \<in> set p" using assms nth_mem by metis
  ultimately show ?thesis by (simp add: c_string_def)
qed

lemma arg_views_ok:
  assumes "\<forall>i \<in> set is. get_arg_at csigned c b i = Ok (f i)"
  shows "arg_views csigned c b is = Ok (map f is)"
  using assms by (induction "is") auto

lemma log_line_aux:
  assumes "length garbage = Suc MAX_LINE_LENGTH" "list_all2 text_writer ws ts"
  shows "\<exists>txt effects. log_format hs now l garbage tag fmt ws = Ok effects \<and>
           List.map_filter effect_text effects = [txt] \<and> length txt \<le> MAX_LINE_LENGTH \<and>
           (length (render fmt ts) \<le> MAX_LINE_LENGTH \<and> CHR 0x00 \<notin> set (render fmt ts) \<longrightarrow> txt = render fmt ts) \<and>
           (Abort \<in> set effects \<longleftrightarrow> l = Fatal)"
proof -
  let ?p = "format_args garbage fmt ws" and ?t = "render fmt ts"
  note a = format_args_array[OF assms, of fmt]
  have "\<exists>txt. c_string ?p = Ok txt \<and> length txt \<le> MAX_LINE_LENGTH \<and>
    (length ?t \<le> MAX_LINE_LENGTH \<and> CHR 0x00 \<notin> set ?t \<longrightarrow> txt = ?t)"
  proof (cases "length ?t \<le> MAX_LINE_LENGTH")
    case True
    then have "take (Suc (length ?t)) ?p = ?t @ [CHR 0x00]" using a by blast
    moreover from this have "?p ! length ?t = CHR 0x00"
      by (metis lessI nth_append_length nth_take)
    ultimately show ?thesis
      using True a c_string_prefix[of ?t ?p] c_string_bounded[of "length ?t" ?p] by fastforce
  next
    case False
    then show ?thesis using a c_string_bounded[of MAX_LINE_LENGTH ?p] by auto
  qed
  then show ?thesis using log_text_effects[of hs now l tag] by (fastforce simp: log_format_def)
qed

text \<open>The line of a command shows what \<open>GetArgAt\<close> returns.\<close>

lemma log_command_line:
  assumes "length garbage = Suc MAX_LINE_LENGTH"
    and "\<forall>i < get_args_count c. get_arg_at csigned c b i = Ok (f i)"
  defines "t \<equiv> ''>>>>> '' @ cmd_name c @ bracketed (map f [0..<get_args_count c])"
  shows "\<exists>txt effects. log_command hs now garbage csigned c b = Ok effects \<and>
           List.map_filter effect_text effects = [txt] \<and> length txt \<le> MAX_LINE_LENGTH \<and>
           (length t \<le> MAX_LINE_LENGTH \<and> CHR 0x00 \<notin> set t \<longrightarrow> txt = t)"
proof -
  let ?bs = "bracketed (map f [0..<get_args_count c])"
  have v: "arg_views csigned c b [0..<get_args_count c] = Ok (map f [0..<get_args_count c])"
    using assms(2) by (intro arg_views_ok) simp
  have w: "list_all2 text_writer [write_view (cmd_name c), write_view ?bs] [cmd_name c, ?bs]"
    using view.as_text_writer[of "cmd_name c"] view.as_text_writer[of ?bs] by simp
  have r: "render ''>>>>> {}{}'' [cmd_name c, ?bs] = t" by (simp add: t_def)
  show ?thesis
    using log_line_aux[OF assms(1) w, of hs now Info "''Command''" "''>>>>> {}{}''"]
    unfolding r by (auto simp: log_command_def v)
qed

text \<open>
  C29. A formatted line always ends inside the array of \<open>FormatArgs\<close>, whatever its arguments are: it
  goes to one place, the handler of the level or a standard stream, with at most 511 characters, and
  it is exactly the rendered text when that is no longer and has no zero byte.  Only \<open>Fatal\<close> aborts,
  after the line is out.
\<close>

theorem log_line_spec:
  assumes "length garbage = Suc MAX_LINE_LENGTH" "list_all2 text_writer ws ts"
  shows "\<exists>txt effects. log_format hs now l garbage tag fmt ws = Ok effects \<and>
           List.map_filter effect_text effects = [txt] \<and> length txt \<le> MAX_LINE_LENGTH \<and>
           (length (render fmt ts) \<le> MAX_LINE_LENGTH \<and> CHR 0x00 \<notin> set (render fmt ts) \<longrightarrow> txt = render fmt ts) \<and>
           (Abort \<in> set effects \<longleftrightarrow> l = Fatal)"
  using assms by (rule log_line_aux)

theorem log_line_spec_witness:
  "\<exists>txt effects. log_format no_handlers (0 :: nat) Error (replicate 512 CHR ''x'') ''Event''
       ''{}: no state'' [write_view ''OnEvent''] = Ok (effects :: (nat, nat) log_effect list) \<and>
     List.map_filter effect_text effects = [txt] \<and> txt = ''OnEvent: no state''"
proof -
  have w: "list_all2 text_writer [write_view ''OnEvent''] [''OnEvent'']"
    using view.as_text_writer[of "''OnEvent''"] by simp
  have r: "render ''{}: no state'' [''OnEvent''] = ''OnEvent: no state''" by code_simp
  have g: "length (replicate 512 (CHR ''x'')) = Suc MAX_LINE_LENGTH" by (simp add: MAX_LINE_LENGTH_def)
  show ?thesis
    using log_line_spec[OF g w, of "no_handlers :: nat log_handlers" "0 :: nat" Error "''Event''" "''{}: no state''"]
    unfolding r by (auto simp: MAX_LINE_LENGTH_def)
qed

end
