(* ===== verification/Echo.thy ===== *)
theory Echo
  imports Cmd_Manager
begin

text \<open>
  \<open>EchoController\<close> (ctrl/echocontroller.cpp), the controller of a build for trying out the bridge: it
  sends every event back as a command and insists that the command succeeds.  It runs on the command
  manager of theory \<open>Cmd_Manager\<close> with commands of its own.  \<open>None\<close> is an abort, by \<open>ASSERT\<close> or by the use
  of a null pointer.
\<close>

subsection \<open>The controller\<close>

record test_command =
  tc_id :: int
  tc_args :: "string list"

definition tc_name :: "test_command \<Rightarrow> string" where
  "tc_name c = ''TestCommand''"

definition tc_args_count :: "test_command \<Rightarrow> nat" where
  "tc_args_count c = length (tc_args c)"

definition tc_arg_at :: "test_command \<Rightarrow> nat \<Rightarrow> string outcome" where
  "tc_arg_at c index = (if index < length (tc_args c) then Ok (tc_args c ! index) else Undef)"

text \<open>
  \<open>m_cmdManager\<close>, null before \<open>Start\<close>.  The only coroutine is \<open>SendCommmandAndVerifyResponse\<close>, which has
  nothing left to do but to look at the response.
\<close>

type_synonym echo_manager = "(unit, test_command) id_manager"

record echo =
  ec_mgr :: "echo_manager option"

definition echo_init :: echo where
  "echo_init = \<lparr>ec_mgr = None\<rparr>"

text \<open>
  \<open>Start\<close> destroys the manager there was, which resumes the coroutines that wait with \<open>INTEROP_FAILURE\<close>.
\<close>

definition echo_start :: "echo \<Rightarrow> echo option" where
  "echo_start ec =
     (case ec_mgr ec of
        None \<Rightarrow> Some (ec\<lparr>ec_mgr := Some manager_init\<rparr>)
      | Some m \<Rightarrow>
          if \<exists>d \<in> snd ` set (mg_pending m). cd_callback d \<noteq> None then None
          else Some (ec\<lparr>ec_mgr := Some manager_init\<rparr>))"

text \<open>\<open>eventId << 8\<close> in 32 bits.\<close>

definition event_command_id :: "int \<Rightarrow> int" where
  "event_command_id eventId = sint (push_bit 8 (word_of_int eventId :: 32 word))"

text \<open>The two halves of \<open>SendCommmandAndVerifyResponse\<close>.\<close>

definition verify_response :: "rcode \<Rightarrow> 'a \<Rightarrow> 'a option" where
  "verify_response response x = (if response = R_OK then Some x else None)"

definition send_and_verify ::
  "(nat \<Rightarrow> bool) \<Rightarrow> test_command \<Rightarrow> echo_manager \<Rightarrow> echo_manager option" where
  "send_and_verify accept c m =
     (let (i, m1) = issue accept (tc_id c) c m in
      if await_ready i then verify_response (await_resume i m1) m1
      else await_suspend i () m1)"

definition echo_on_event :: "(nat \<Rightarrow> bool) \<Rightarrow> int \<Rightarrow> string list \<Rightarrow> echo \<Rightarrow> echo option" where
  "echo_on_event accept eventId args ec =
     (case ec_mgr ec of
        None \<Rightarrow> None
      | Some m \<Rightarrow>
          map_option (\<lambda>m'. ec\<lparr>ec_mgr := Some m'\<rparr>)
            (send_and_verify accept \<lparr>tc_id = event_command_id eventId, tc_args = args\<rparr> m))"

definition echo_on_response :: "int \<Rightarrow> rcode \<Rightarrow> echo \<Rightarrow> echo option" where
  "echo_on_response cmdId response ec =
     (case ec_mgr ec of
        None \<Rightarrow> None
      | Some m \<Rightarrow>
          (case submit_store cmdId response m of
             None \<Rightarrow> Some ec
           | Some (callback, m1) \<Rightarrow>
               Option.bind
                 (case callback of None \<Rightarrow> Some m1 | Some _ \<Rightarrow> verify_response (await_resume cmdId m1) m1)
                 (\<lambda>m2. Some (ec\<lparr>ec_mgr := Some (submit_erase cmdId m2)\<rparr>))))"

subsection \<open>Facts\<close>

lemma event_command_id_aligned: "256 dvd event_command_id i"
proof -
  let ?w = "word_of_int i :: 32 word"
  have "take_bit 8 (sint (push_bit 8 ?w)) = take_bit 8 (uint (push_bit 8 ?w))"
    by transfer (simp add: take_bit_signed_take_bit)
  also have "\<dots> = take_bit 8 (push_bit 8 (uint ?w))"
    by (simp add: unsigned_push_bit_eq)
  also have "\<dots> = 0" by (simp add: take_bit_push_bit)
  finally show ?thesis by (simp add: event_command_id_def take_bit_eq_0_iff)
qed

lemma issue_sent:
  assumes "\<not> {base..<base + 256} \<subseteq> used_ids (mg_pending m)" "acc (mg_calls m)"
  obtains i m1 where "issue acc base c m = (i, m1)" "base \<le> i" "i < base + 256" "i \<notin> used_ids (mg_pending m)"
    "mg_pending m1 = mg_pending m @ [(i, cmd_data_init)]" "mg_sent m1 = mg_sent m @ [(i, c)]"
proof -
  let ?i = "next_free_id (mg_pending m) base"
  have w: "base \<le> ?i" "?i < base + 256" "?i \<notin> used_ids (mg_pending m)"
    using assms(1) ids.alloc_ge[of base "mg_pending m"] ids.alloc_full[of base 256 "mg_pending m"]
      ids.alloc_free[of "mg_pending m" base] by simp_all
  have "al_assign ?i cmd_data_init (mg_pending m) = mg_pending m @ [(?i, cmd_data_init)]"
    using w(3) by (rule al_assign_fresh)
  then show thesis using w assms(2) by (intro that) (auto simp: issue_def COMMAND_ID_def Let_def)
qed

text \<open>Storing a response in the last entry, and erasing it.\<close>

lemma map_of_last: "i \<notin> used_ids ps \<Longrightarrow> map_of (ps @ [(i, d)]) i = Some d"
  by (induction ps) auto

lemma suspend_last:
  assumes "mg_pending m = ps @ [(i, cmd_data_init)]" "i \<notin> used_ids ps"
  shows "await_suspend i h m = Some (m\<lparr>mg_pending := ps @ [(i, cmd_data_init\<lparr>cd_callback := Some h\<rparr>)]\<rparr>)"
  using assms by (simp add: await_suspend_def al_assign_snoc map_of_last del: map_of_append)

lemma submit_last:
  assumes "mg_pending m = ps @ [(i, d)]" "i \<notin> used_ids ps"
  shows "submit_store i r m = Some (cd_callback d, m\<lparr>mg_pending := ps @ [(i, d\<lparr>cd_response := r\<rparr>)]\<rparr>)"
  using assms by (simp add: submit_store_def al_assign_snoc map_of_last del: map_of_append)

text \<open>
  C40. An event comes back as one command for the UI, under a free identifier of the window the event's
  number has, with the arguments of the event; a response other than \<open>OK\<close> aborts the program, and
  \<open>OK\<close> leaves the controller as it was before, so that the next events find the same identifiers free.
\<close>

theorem echo_event_roundtrip:
  assumes m: "ec_mgr ec = Some m" and acc: "acc (mg_calls m)"
    and free: "\<not> {event_command_id n..<event_command_id n + 256} \<subseteq> used_ids (mg_pending m)"
    and id: "event_command_id n \<noteq> 0"
  shows "\<exists>i ec' m' ec'' m''. echo_on_event acc n args ec = Some ec' \<and> ec_mgr ec' = Some m' \<and>
           event_command_id n \<le> i \<and> i < event_command_id n + 256 \<and> i \<notin> used_ids (mg_pending m) \<and>
           mg_sent m' = mg_sent m @ [(i, \<lparr>tc_id = event_command_id n, tc_args = args\<rparr>)] \<and>
           echo_on_response i R_OK ec' = Some ec'' \<and> ec_mgr ec'' = Some m'' \<and> mg_pending m'' = mg_pending m \<and>
           (\<forall>r. r \<noteq> R_OK \<longrightarrow> echo_on_response i r ec' = None)"
proof -
  let ?c = "\<lparr>tc_id = event_command_id n, tc_args = args\<rparr>" and ?d = "cmd_data_init\<lparr>cd_callback := Some ()\<rparr>"
  obtain i m1 where
    iss: "issue acc (event_command_id n) ?c m = (i, m1)"
    and i: "event_command_id n \<le> i" "i < event_command_id n + 256" "i \<notin> used_ids (mg_pending m)"
    and p: "mg_pending m1 = mg_pending m @ [(i, cmd_data_init)]" and snt: "mg_sent m1 = mg_sent m @ [(i, ?c)]"
    by (rule issue_sent[of "event_command_id n" m acc ?c, OF free acc])
  obtain k where k: "event_command_id n = 256 * k" using event_command_id_aligned[of n] by (rule dvdE)
  have "k \<noteq> 0" using id k by auto
  then have valid: "\<not> await_ready i" using i k by (auto simp: await_ready_def INVALID_CMD_ID_def)
  let ?m2 = "m1\<lparr>mg_pending := mg_pending m @ [(i, ?d)]\<rparr>"
  have ev: "echo_on_event acc n args ec = Some (ec\<lparr>ec_mgr := Some ?m2\<rparr>)"
    using valid by (simp add: echo_on_event_def m send_and_verify_def iss suspend_last[OF p i(3)])
  have s: "submit_store i r ?m2 = Some (Some (), ?m2\<lparr>mg_pending := mg_pending m @ [(i, ?d\<lparr>cd_response := r\<rparr>)]\<rparr>)" for r
    using submit_last[of ?m2 "mg_pending m" i ?d r] i(3) by (simp add: cmd_data_init_def)
  have res: "await_resume i (m1\<lparr>mg_pending := mg_pending m @ [(i, ?d\<lparr>cd_response := r\<rparr>)]\<rparr>) = r" for r
    using i(3) by (simp add: await_resume_def map_of_last del: map_of_append)
  have "al_erase i (mg_pending m @ [(i, d)]) = mg_pending m" for d
    using al_erase_notin[OF i(3)] by (simp add: al_erase_def)
  then have "echo_on_response i r (ec\<lparr>ec_mgr := Some ?m2\<rparr>) =
      (if r = R_OK then Some (ec\<lparr>ec_mgr := Some (?m2\<lparr>mg_pending := mg_pending m\<rparr>)\<rparr>) else None)" for r
    by (simp add: echo_on_response_def s verify_response_def res submit_erase_def)
  then show ?thesis using ev i snt
    by (intro exI[of _ i] exI[of _ "ec\<lparr>ec_mgr := Some ?m2\<rparr>"] exI[of _ ?m2]
          exI[of _ "ec\<lparr>ec_mgr := Some (?m2\<lparr>mg_pending := mg_pending m\<rparr>)\<rparr>"] exI[of _ "?m2\<lparr>mg_pending := mg_pending m\<rparr>"]) simp
qed

theorem echo_event_roundtrip_witness:
  "\<exists>i ec' m'. echo_on_event (\<lambda>_. True) 100 [''on''] (the (echo_start echo_init)) = Some ec' \<and>
     ec_mgr ec' = Some m' \<and> mg_sent m' = [(i, \<lparr>tc_id = 25600, tc_args = [''on'']\<rparr>)] \<and>
     echo_on_response i R_USER_DECLINED ec' = None"
proof -
  have id: "event_command_id 100 = 25600" by (simp add: event_command_id_def)
  have start: "ec_mgr (the (echo_start echo_init)) = Some manager_init"
    by (simp add: echo_start_def echo_init_def)
  show ?thesis
    using echo_event_roundtrip[OF start, of "\<lambda>_. True" 100 "[''on'']"]
    by (auto simp: id manager_init_def)
qed

end
