(* ===== verification/Pool_Builder.thy ===== *)
theory Pool_Builder
  imports Prelude
begin

text \<open>
  The computation of the block sizes of a pool from the types it shall hold (utils/poolbuilder.hpp), and
  its agreement with the library's functions on lists.
\<close>

subsection \<open>Block sizes (utils/poolbuilder.hpp)\<close>

text \<open>The template metafunctions on \<open>std::integer_sequence<size_t, ...>\<close>.\<close>

fun seq_contains :: "nat list \<Rightarrow> nat \<Rightarrow> bool" where
  "seq_contains [] v = False"
| "seq_contains (s # ss) v = (if s = v then True else seq_contains ss v)"

fun eliminate_duplicates :: "nat list \<Rightarrow> nat list" where
  "eliminate_duplicates [] = []"
| "eliminate_duplicates (s # ss) =
     (if seq_contains ss s then eliminate_duplicates ss else [s] @ eliminate_duplicates ss)"

fun insert_ordered :: "nat list \<Rightarrow> nat \<Rightarrow> nat list" where
  "insert_ordered [] v = [v]"
| "insert_ordered (s # ss) v = (if v \<le> s then v # s # ss else [s] @ insert_ordered ss v)"

text \<open>\<open>InsertionSort\<close> has no specialisation for the empty sequence, which does not compile: \<open>None\<close>.\<close>

fun insertion_sort :: "nat list \<Rightarrow> nat list option" where
  "insertion_sort [] = None"
| "insertion_sort [s] = Some [s]"
| "insertion_sort (s # ss) =
     (case insertion_sort ss of None \<Rightarrow> None | Some ord \<Rightarrow> Some (insert_ordered ord s))"

definition pool_builder :: "nat list \<Rightarrow> nat list option" where
  "pool_builder raw = insertion_sort (eliminate_duplicates raw)"

lemma seq_contains_iff [simp]: "seq_contains ss v \<longleftrightarrow> v \<in> set ss"
  by (induction ss) auto

lemma eliminate_duplicates_eq: "eliminate_duplicates ss = remdups ss"
  by (induction ss) auto

lemma insert_ordered_eq: "sorted ss \<Longrightarrow> insert_ordered ss v = insort v ss"
  by (induction ss) auto

lemma insertion_sort_eq: "ss \<noteq> [] \<Longrightarrow> insertion_sort ss = Some (sort ss)"
  by (induction ss rule: insertion_sort.induct) (auto simp: insert_ordered_eq sorted_insort)

lemma pool_builder_eq: "raw \<noteq> [] \<Longrightarrow> pool_builder raw = Some (sort (remdups raw))"
  by (simp add: pool_builder_def eliminate_duplicates_eq insertion_sort_eq)

end
