(* ===== verification/Mempool.thy ===== *)
theory Mempool
  imports Pool_Builder
begin

text \<open>
  The memory pools of utils/mempool.hpp, which hold the command objects (sign/commandpool.hpp): the
  operations on the blocks of a level and on the chain of levels, and what each of them does to the
  blocks, whichever pointers die on other threads meanwhile.
\<close>

subsection \<open>Pools (utils/mempool.hpp)\<close>

text \<open>
  A block: \<open>bk_id\<close> stands for its address, \<open>bk_taken\<close> is its flag and \<open>bk_live\<close> says whether its
  buffer holds an object.
\<close>

record block =
  bk_id :: nat
  bk_taken :: bool
  bk_live :: bool

text \<open>
  \<open>Pool<S, Ss...>\<close> derives from \<open>Pool<Ss...>\<close>: a pool is the list of the levels of this chain, and
  \<open>pl_next\<close> is the identity the next block gets that the list of a level allocates.
\<close>

record level =
  lv_size :: nat
  lv_blocks :: "block list"

record pool =
  pl_levels :: "level list"
  pl_next :: nat

definition fresh_block :: "nat \<Rightarrow> block" where
  "fresh_block i = \<lparr>bk_id = i, bk_taken = False, bk_live = False\<rparr>"

text \<open>\<open>Deallocate\<close>: the object is destroyed, then the flag is cleared.\<close>

definition deallocate :: "block \<Rightarrow> block" where
  "deallocate b = b\<lparr>bk_live := False, bk_taken := False\<rparr>"

text \<open>
  A \<open>PoolPtr\<close> may die on any thread while the pool's own thread is inside an operation.  \<open>env k\<close> is the
  set of blocks whose pointers died before the operation looked at its \<open>k\<close>-th block; only a block
  that holds an object has a pointer.
\<close>

type_synonym deaths = "nat \<Rightarrow> nat set"

definition release_block :: "nat set \<Rightarrow> block \<Rightarrow> block" where
  "release_block R b = (if bk_id b \<in> R \<and> bk_live b then deallocate b else b)"

definition release :: "nat set \<Rightarrow> block list \<Rightarrow> block list" where
  "release R bs = map (release_block R) bs"

lemma release_length [simp]: "length (release R bs) = length bs"
  by (simp add: release_def)

lemma release_append [simp]: "release R (bs @ cs) = release R bs @ release R cs"
  by (simp add: release_def)

lemma release_Nil [simp]: "release R [] = []"
  by (simp add: release_def)

text \<open>The loop of \<open>Allocate\<close>: the first block whose flag was clear.\<close>

function find_free :: "deaths \<Rightarrow> nat \<Rightarrow> block list \<Rightarrow> block list \<times> nat option" where
  "find_free env k bs =
     (let bs1 = release (env k) bs in
      if k < length bs1 then
        (if \<not> bk_taken (bs1 ! k) then (bs1, Some k) else find_free env (Suc k) bs1)
      else (bs1, None))"
  by pat_completeness auto
termination by (relation "measure (\<lambda>(env, k, bs). length bs - k)") auto

declare find_free.simps [simp del]

text \<open>
  \<open>Allocate\<close>: the block found moves to the end of the list, or a new one is put there.  \<open>throws\<close>
  says that the object's constructor throws, which gives the block back.
\<close>

definition allocate :: "deaths \<Rightarrow> bool \<Rightarrow> block list \<Rightarrow> nat \<Rightarrow> nat option \<times> block list \<times> nat" where
  "allocate env throws bs next =
     (let (bs1, pos) = find_free env 0 bs;
          (others, b, next1) =
            (case pos of
               Some i \<Rightarrow> (take i bs1 @ drop (Suc i) bs1, bs1 ! i, next)
             | None \<Rightarrow> (bs1, fresh_block next, Suc next));
          b1 = b\<lparr>bk_taken := True\<rparr>
      in if throws then (None, others @ [b1\<lparr>bk_taken := False\<rparr>], next1)
         else (Some (bk_id b1), others @ [b1\<lparr>bk_live := True\<rparr>], next1))"

text \<open>\<open>std::list::remove_if\<close> with a predicate that has a state.\<close>

function remove_if ::
  "('s \<Rightarrow> block \<Rightarrow> bool \<times> 's) \<Rightarrow> deaths \<Rightarrow> 's \<Rightarrow> nat \<Rightarrow> block list \<Rightarrow> block list \<Rightarrow> block list" where
  "remove_if p env s k kept [] = kept"
| "remove_if p env s k kept (b # bs) =
     (let b1 = release_block (env k) b;
          (gone, s1) = p s b1;
          kept1 = release (env k) kept;
          bs1 = release (env k) bs
      in remove_if p env s1 (Suc k) (if gone then kept1 else kept1 @ [b1]) bs1)"
  by pat_completeness auto
termination by (relation "measure (\<lambda>(p, env, s, k, kept, bs). length bs)") auto

definition shrink_to_fit_level :: "deaths \<Rightarrow> block list \<Rightarrow> block list" where
  "shrink_to_fit_level env bs = remove_if (\<lambda>_ b. (\<not> bk_taken b, ())) env () 0 [] bs"

definition to_int32 :: "nat \<Rightarrow> int" where
  "to_int32 n = sint (of_nat n :: 32 word)"

text \<open>The blocks that \<open>n\<close> times \<open>emplace_front\<close> puts before the list.\<close>

fun emplace_front :: "nat \<Rightarrow> block list \<Rightarrow> nat \<Rightarrow> block list \<times> nat" where
  "emplace_front 0 bs next = (bs, next)"
| "emplace_front (Suc n) bs next = emplace_front n (fresh_block next # bs) (Suc next)"

definition remove_extra :: "int \<Rightarrow> block \<Rightarrow> bool \<times> int" where
  "remove_extra extra b =
     (let should_remove = extra < 0 \<and> \<not> bk_taken b
      in (should_remove, extra + (if should_remove then 1 else 0)))"

definition resize_level :: "deaths \<Rightarrow> nat \<Rightarrow> block list \<Rightarrow> nat \<Rightarrow> block list \<times> nat" where
  "resize_level env new_block_count bs next =
     (let extra = to_int32 new_block_count - to_int32 (length bs);
          (bs1, next1) = emplace_front (nat extra) bs next
      in if extra < 0 then (remove_if remove_extra env extra 0 [] bs1, next1) else (bs1, next1))"

subsection \<open>The chain of levels\<close>

text \<open>
  \<open>SuitablePool\<close>: the first level whose blocks are large enough.  At the end of the chain stands
  \<open>Pool<>\<close>, whose \<open>Allocate\<close> does not compile: \<open>None\<close>.
\<close>

fun suitable_pool :: "nat \<Rightarrow> level list \<Rightarrow> nat option" where
  "suitable_pool sz [] = None"
| "suitable_pool sz (l # ls) =
     (if sz \<le> lv_size l then Some 0 else map_option Suc (suitable_pool sz ls))"

fun pool_construct :: "nat \<Rightarrow> nat list \<Rightarrow> pool" where
  "pool_construct block_count [] = \<lparr>pl_levels = [], pl_next = 0\<rparr>"
| "pool_construct block_count (s # ss) =
     (let b = pool_construct block_count ss
      in \<lparr>pl_levels = \<lparr>lv_size = s, lv_blocks = map fresh_block [pl_next b..<pl_next b + block_count]\<rparr> # pl_levels b,
          pl_next = pl_next b + block_count\<rparr>)"

text \<open>\<open>MakeUnique\<close> and \<open>MakeShared\<close> for an object of \<open>sz\<close> bytes; the block is the one of the pointer.\<close>

definition make_object :: "deaths \<Rightarrow> bool \<Rightarrow> nat \<Rightarrow> pool \<Rightarrow> (nat option \<times> pool) option" where
  "make_object env throws sz p =
     (case suitable_pool sz (pl_levels p) of
        None \<Rightarrow> None
      | Some i \<Rightarrow>
          (let l = pl_levels p ! i;
               (r, bs, next) = allocate env throws (lv_blocks l) (pl_next p)
           in Some (r, \<lparr>pl_levels = (pl_levels p)[i := l\<lparr>lv_blocks := bs\<rparr>], pl_next = next\<rparr>)))"

text \<open>The death of a pointer between two operations of the pool's thread.\<close>

definition drop_object :: "nat \<Rightarrow> pool \<Rightarrow> pool" where
  "drop_object i p =
     p\<lparr>pl_levels := map (\<lambda>l. l\<lparr>lv_blocks := release {i} (lv_blocks l)\<rparr>) (pl_levels p)\<rparr>"

definition shrink_to_fit :: "deaths \<Rightarrow> pool \<Rightarrow> pool" where
  "shrink_to_fit env p =
     p\<lparr>pl_levels := map (\<lambda>l. l\<lparr>lv_blocks := shrink_to_fit_level env (lv_blocks l)\<rparr>) (pl_levels p)\<rparr>"

text \<open>\<open>Resize\<close> resizes the base first.\<close>

fun resize_levels :: "deaths \<Rightarrow> nat \<Rightarrow> level list \<Rightarrow> nat \<Rightarrow> level list \<times> nat" where
  "resize_levels env n [] next = ([], next)"
| "resize_levels env n (l # ls) next =
     (let (ls1, next1) = resize_levels env n ls next;
          (bs, next2) = resize_level env n (lv_blocks l) next1
      in (l\<lparr>lv_blocks := bs\<rparr> # ls1, next2))"

definition resize :: "deaths \<Rightarrow> nat \<Rightarrow> pool \<Rightarrow> pool" where
  "resize env n p =
     (let (ls, next) = resize_levels env n (pl_levels p) (pl_next p)
      in \<lparr>pl_levels = ls, pl_next = next\<rparr>)"

definition get_block_count :: "pool \<Rightarrow> nat" where
  "get_block_count p = sum_list (map (\<lambda>l. length (lv_blocks l)) (pl_levels p))"

definition get_size :: "pool \<Rightarrow> nat" where
  "get_size p = sum_list (map (\<lambda>l. length (lv_blocks l) * lv_size l) (pl_levels p))"

subsection \<open>Blocks\<close>

definition ids :: "block list \<Rightarrow> nat set" where
  "ids bs = bk_id ` set bs"

definition live_ids :: "block list \<Rightarrow> nat set" where
  "live_ids bs = bk_id ` {b \<in> set bs. bk_live b}"

definition blocks_inv :: "nat \<Rightarrow> block list \<Rightarrow> bool" where
  "blocks_inv next bs \<longleftrightarrow>
     distinct (map bk_id bs) \<and> (\<forall>b \<in> set bs. bk_id b < next \<and> (bk_live b \<longleftrightarrow> bk_taken b))"

lemma ids_simps [simp]: "ids [] = {}" "ids (b # bs) = insert (bk_id b) (ids bs)" "ids (bs @ cs) = ids bs \<union> ids cs"
  by (auto simp: ids_def)

lemma live_ids_simps [simp]:
  "live_ids [] = {}" "live_ids (b # bs) = (if bk_live b then {bk_id b} else {}) \<union> live_ids bs"
  "live_ids (bs @ cs) = live_ids bs \<union> live_ids cs"
  by (auto simp: live_ids_def)

lemma live_ids_sub: "live_ids bs \<subseteq> ids bs"
  by (auto simp: live_ids_def ids_def)

lemma blocks_inv_append:
  "blocks_inv next (bs @ cs) \<longleftrightarrow> blocks_inv next bs \<and> blocks_inv next cs \<and> ids bs \<inter> ids cs = {}"
  by (auto simp: blocks_inv_def ids_def)

lemma blocks_inv_Cons:
  "blocks_inv next (b # bs) \<longleftrightarrow>
     bk_id b < next \<and> (bk_live b \<longleftrightarrow> bk_taken b) \<and> bk_id b \<notin> ids bs \<and> blocks_inv next bs"
  by (auto simp: blocks_inv_def ids_def)

lemma blocks_inv_Nil [simp]: "blocks_inv next []"
  by (simp add: blocks_inv_def)

lemma blocks_inv_mono: "blocks_inv next bs \<Longrightarrow> next \<le> next1 \<Longrightarrow> blocks_inv next1 bs"
  by (auto simp: blocks_inv_def)

lemma ids_less: "blocks_inv next bs \<Longrightarrow> i \<in> ids bs \<Longrightarrow> i < next"
  by (auto simp: blocks_inv_def ids_def)

lemma release_block_simps [simp]:
  "bk_id (release_block R b) = bk_id b"
  "bk_live (release_block R b) \<longleftrightarrow> bk_live b \<and> bk_id b \<notin> R"
  "release_block R (release_block S b) = release_block (R \<union> S) b"
  by (auto simp: release_block_def deallocate_def)

lemma release_block_taken: "bk_taken (release_block R b) \<Longrightarrow> bk_taken b"
  by (auto simp: release_block_def deallocate_def split: if_splits)

lemma release_release [simp]: "release R (release S bs) = release (R \<union> S) bs"
  by (simp add: release_def)

lemma release_Cons [simp]: "release R (b # bs) = release_block R b # release R bs"
  by (simp add: release_def)

lemma release_ids [simp]: "ids (release R bs) = ids bs"
  by (induction bs) auto

lemma release_live_ids [simp]: "live_ids (release R bs) = live_ids bs - R"
  by (induction bs) auto

lemma release_inv: "blocks_inv next bs \<Longrightarrow> blocks_inv next (release R bs)"
  by (induction bs) (auto simp: blocks_inv_Cons release_block_def deallocate_def)

text \<open>
  What every operation on the blocks of a level does: it keeps the invariant, ends the life of no
  object but those whose pointers died meanwhile, starts the lives \<open>N\<close>, and any block it adds
  is a new one.
\<close>

definition transfer :: "nat set \<Rightarrow> nat \<Rightarrow> block list \<Rightarrow> nat \<Rightarrow> block list \<Rightarrow> nat set \<Rightarrow> bool" where
  "transfer E next bs next1 bs1 N \<longleftrightarrow>
     next \<le> next1 \<and> blocks_inv next1 bs1 \<and> ids bs1 \<subseteq> ids bs \<union> {next..<next1} \<and>
     (\<exists>R \<subseteq> E. live_ids bs1 = (live_ids bs - R) \<union> N \<and> N \<inter> (live_ids bs - R) = {})"

abbreviation deaths_of :: "deaths \<Rightarrow> nat set" where
  "deaths_of env \<equiv> \<Union> (range env)"

lemma find_free_release:
  "find_free env k bs = (bs1, pos) \<Longrightarrow>
   \<exists>R \<subseteq> deaths_of env. bs1 = release R bs \<and> (\<forall>i. pos = Some i \<longrightarrow> i < length bs \<and> \<not> bk_taken (bs1 ! i))"
proof (induction env k bs rule: find_free.induct)
  case (1 env k bs)
  let ?bs = "release (env k) bs"
  show ?case
  proof (cases "k < length bs \<and> bk_taken (?bs ! k)")
    case True
    then have "find_free env (Suc k) ?bs = (bs1, pos)"
      using "1.prems" by (subst (asm) find_free.simps) simp
    then obtain R where R: "R \<subseteq> deaths_of env" "bs1 = release R ?bs"
      "\<forall>i. pos = Some i \<longrightarrow> i < length bs \<and> \<not> bk_taken (bs1 ! i)"
      using "1.IH"[of ?bs] True by auto
    then show ?thesis by (intro exI[of _ "R \<union> env k"]) auto
  next
    case False
    then show ?thesis using "1.prems"
      by (subst (asm) find_free.simps) (auto simp: Let_def split: if_splits intro!: exI[of _ "env k"])
  qed
qed

lemma allocate_transfer:
  assumes a: "allocate env throws bs next = (r, bs1, next1)" and inv: "blocks_inv next bs"
  shows "transfer (deaths_of env) next bs next1 bs1 (set_option r) \<and> set_option r \<subseteq> ids bs1"
proof -
  obtain fs pos where f: "find_free env 0 bs = (fs, pos)" by fastforce
  obtain R where R: "R \<subseteq> deaths_of env" "fs = release R bs"
    "\<And>i. pos = Some i \<Longrightarrow> i < length bs \<and> \<not> bk_taken (fs ! i)"
    using find_free_release[OF f] by blast
  have fi: "blocks_inv next fs" "ids fs = ids bs" "live_ids fs = live_ids bs - R" "length fs = length bs"
    using inv by (simp_all add: R(2) release_inv)
  let ?d = "case pos of Some i \<Rightarrow> (take i fs @ drop (Suc i) fs, fs ! i) | None \<Rightarrow> (fs, fresh_block next)"
  obtain os b where "?d = (os, b)" by (cases ?d)
  then have d: "(os, b) = ?d" by (rule sym)
  let ?n = "case pos of Some i \<Rightarrow> next | None \<Rightarrow> Suc next"
  have r: "next1 = ?n" "bs1 = os @ [if throws then b\<lparr>bk_taken := False\<rparr> else b\<lparr>bk_taken := True, bk_live := True\<rparr>]"
    "r = (if throws then None else Some (bk_id b))"
    using a d by (cases pos; cases throws; simp add: allocate_def f Let_def)+
  have o: "blocks_inv ?n os \<and> bk_id b \<notin> ids os \<and> bk_id b < ?n \<and> \<not> bk_live b \<and>
           insert (bk_id b) (ids os) \<subseteq> ids bs \<union> {next..<?n} \<and> live_ids os = live_ids bs - R"
  proof (cases pos)
    case None
    have "next \<notin> ids bs" using inv ids_less by blast
    then show ?thesis using d fi blocks_inv_mono[OF fi(1), of "Suc next"]
      by (auto simp: None fresh_block_def)
  next
    case (Some i)
    have i: "i < length fs" "\<not> bk_taken (fs ! i)" using R(3)[OF Some] fi(4) by simp_all
    have s: "take i fs @ fs ! i # drop (Suc i) fs = fs" using id_take_nth_drop[OF i(1)] by simp
    have "\<not> bk_live (fs ! i)" using fi(1) i by (auto simp: blocks_inv_def)
    moreover have "blocks_inv next (take i fs @ fs ! i # drop (Suc i) fs)"
      "ids (take i fs @ fs ! i # drop (Suc i) fs) = ids bs"
      "live_ids (take i fs @ fs ! i # drop (Suc i) fs) = live_ids bs - R"
      using fi unfolding s by simp_all
    ultimately show ?thesis using d by (auto simp: Some blocks_inv_append blocks_inv_Cons)
  qed
  moreover have "bk_id b \<notin> live_ids bs - R" using o live_ids_sub[of os] by blast
  moreover have "next \<le> ?n" by (auto split: option.split)
  ultimately show ?thesis using R(1) unfolding transfer_def r
    by (cases throws) (simp_all add: blocks_inv_append blocks_inv_Cons, blast+)
qed

lemma remove_if_transfer:
  assumes "\<And>s b. fst (p s b) \<Longrightarrow> \<not> bk_taken b" "blocks_inv next (kept @ bs)"
  shows "transfer (deaths_of env) next (kept @ bs) next (remove_if p env s k kept bs) {}"
  using assms
proof (induction p env s k kept bs rule: remove_if.induct)
  case (1 p env s k kept)
  then show ?case by (auto simp: transfer_def)
next
  case (2 p env s k kept b bs)
  let ?b = "release_block (env k) b" and ?kept = "release (env k) kept" and ?bs = "release (env k) bs"
  obtain gone s1 where g: "p s ?b = (gone, s1)" by fastforce
  let ?kept1 = "if gone then ?kept else ?kept @ [?b]"
  have i: "blocks_inv next (?kept @ [?b] @ ?bs)"
    using release_inv[OF "2.prems"(2), of "env k"] by simp
  have dead: "gone \<Longrightarrow> \<not> bk_live ?b"
    using "2.prems"(1)[of s ?b] g i by (auto simp: blocks_inv_append blocks_inv_Cons)
  have i1: "blocks_inv next (?kept1 @ ?bs)" using i by (auto simp: blocks_inv_append blocks_inv_Cons)
  have e: "remove_if p env s k kept (b # bs) = remove_if p env s1 (Suc k) ?kept1 ?bs"
    by (simp add: Let_def g)
  have "transfer (deaths_of env) next (?kept1 @ ?bs) next (remove_if p env s k kept (b # bs)) {}"
    unfolding e by (rule "2.IH"[OF refl g[symmetric] refl refl refl "2.prems"(1) i1])
  then obtain R where R: "R \<subseteq> deaths_of env" "blocks_inv next (remove_if p env s k kept (b # bs))"
    "ids (remove_if p env s k kept (b # bs)) \<subseteq> ids (?kept1 @ ?bs)"
    "live_ids (remove_if p env s k kept (b # bs)) = live_ids (?kept1 @ ?bs) - R"
    by (auto simp: transfer_def)
  have l: "live_ids (?kept1 @ ?bs) = live_ids (kept @ b # bs) - env k" using dead by (cases gone) auto
  have "ids (?kept1 @ ?bs) \<subseteq> ids (kept @ b # bs)" by (cases gone) auto
  then show ?case
    using R l unfolding transfer_def by (auto intro!: exI[of _ "R \<union> env k"])
qed

lemma shrink_to_fit_level_transfer:
  "blocks_inv next bs \<Longrightarrow> transfer (deaths_of env) next bs next (shrink_to_fit_level env bs) {}"
  using remove_if_transfer[of "\<lambda>_ b. (\<not> bk_taken b, ())" "next" "[]" bs env] by (simp add: shrink_to_fit_level_def)

lemma emplace_front_spec:
  "emplace_front n bs next = (bs1, next1) \<Longrightarrow> blocks_inv next bs \<Longrightarrow>
   next1 = next + n \<and> length bs1 = length bs + n \<and> blocks_inv next1 bs1 \<and> live_ids bs1 = live_ids bs \<and>
   ids bs1 \<subseteq> ids bs \<union> {next..<next1}"
proof (induction n bs "next" rule: emplace_front.induct)
  case (2 n bs "next")
  have "next \<notin> ids bs" using "2.prems"(2) ids_less by blast
  then have "blocks_inv (Suc next) (fresh_block next # bs)"
    using blocks_inv_mono[OF "2.prems"(2), of "Suc next"] by (simp add: blocks_inv_Cons fresh_block_def)
  from "2.IH"[OF _ this] "2.prems"(1) show ?case by (auto simp: fresh_block_def)
qed simp

lemma resize_level_transfer:
  assumes "resize_level env n bs next = (bs1, next1)" "blocks_inv next bs"
  shows "transfer (deaths_of env) next bs next1 bs1 {}"
proof -
  let ?x = "to_int32 n - to_int32 (length bs)"
  obtain fs m where f: "emplace_front (nat ?x) bs next = (fs, m)" by fastforce
  note e = emplace_front_spec[OF f assms(2)]
  show ?thesis
  proof (cases "?x < 0")
    case True
    then have "fs = bs" "m = next" using f by simp_all
    moreover have "transfer (deaths_of env) next ([] @ bs) next (remove_if remove_extra env ?x 0 [] bs) {}"
      by (rule remove_if_transfer) (auto simp: remove_extra_def Let_def assms)
    ultimately show ?thesis using assms(1) True by (simp add: resize_level_def f)
  next
    case False
    then show ?thesis using assms(1) e by (auto simp: resize_level_def f Let_def transfer_def)
  qed
qed

text \<open>How many blocks \<open>Resize\<close> leaves in a level.\<close>

lemma release_taken: "length (filter bk_taken (release R bs)) \<le> length (filter bk_taken bs)"
  by (induction bs) (auto dest: release_block_taken)

lemma remove_extra_length:
  "extra \<le> 0 \<Longrightarrow> m = int (length kept + length bs) + extra \<Longrightarrow>
   m \<le> int (length (remove_if remove_extra env extra k kept bs)) \<and>
   int (length (remove_if remove_extra env extra k kept bs)) \<le>
     max m (int (length kept + length (filter bk_taken bs)))"
proof (induction remove_extra env extra k kept bs rule: remove_if.induct)
  case (2 env extra k kept b bs)
  let ?b = "release_block (env k) b"
  have t: "length (filter bk_taken (release (env k) bs)) \<le> length (filter bk_taken bs)"
    by (rule release_taken)
  show ?case
  proof (cases "extra < 0 \<and> \<not> bk_taken ?b")
    case True
    then have "remove_extra extra ?b = (True, extra + 1)" by (simp add: remove_extra_def)
    then show ?thesis
      using "2.hyps"[OF refl \<open>remove_extra extra ?b = _\<close>[symmetric] refl refl refl] "2.prems" True t
      by (auto simp: Let_def le_max_iff_disj)
  next
    case False
    then have r: "remove_extra extra ?b = (False, extra)" by (auto simp: remove_extra_def Let_def)
    have b: "extra < 0 \<Longrightarrow> bk_taken b" using False release_block_taken by blast
    have "length (filter bk_taken (release (env k) bs)) \<le> length bs"
      using t length_filter_le[of bk_taken bs] by (rule order_trans)
    have e: "remove_if remove_extra env extra k kept (b # bs) =
             remove_if remove_extra env extra (Suc k) (release (env k) kept @ [?b]) (release (env k) bs)"
      by (simp add: Let_def r)
    show ?thesis
      using "2.hyps"[OF refl r[symmetric] refl refl refl] "2.prems" t b \<open>_ \<le> length bs\<close> unfolding e
      by (cases "extra < 0") (simp_all add: le_max_iff_disj, linarith?)
  qed
qed simp

lemma to_int32_small: "n < 2 ^ 31 \<Longrightarrow> to_int32 n = int n"
  using int_word_sint[of "int n", where 'a = 32] by (simp add: to_int32_def)

lemma resize_level_length:
  assumes "resize_level env n bs next = (bs1, next1)" "n < 2 ^ 31" "length bs < 2 ^ 31"
  shows "n \<le> length bs1 \<and> length bs1 \<le> max n (length (filter bk_taken bs))"
proof -
  have x: "to_int32 n - to_int32 (length bs) = int n - int (length bs)"
    using assms by (simp add: to_int32_small)
  obtain fs m where f: "emplace_front (nat (int n - int (length bs))) bs next = (fs, m)" by fastforce
  have len: "emplace_front j cs i = (ds, i1) \<Longrightarrow> length ds = length cs + j" for j cs i ds i1
    by (induction j cs i rule: emplace_front.induct) auto
  show ?thesis
  proof (cases "n < length bs")
    case True
    then have "fs = bs" using f by simp
    then show ?thesis
      using assms(1) True remove_extra_length[of "int n - int (length bs)" "int n" "[]" bs env 0] f
      by (auto simp: resize_level_def x)
  next
    case False
    then show ?thesis using assms(1) len[OF f] f by (auto simp: resize_level_def x Let_def)
  qed
qed

subsection \<open>Pools\<close>

definition all_blocks :: "level list \<Rightarrow> block list" where
  "all_blocks ls = concat (map lv_blocks ls)"

definition pool_inv :: "pool \<Rightarrow> bool" where
  "pool_inv p \<longleftrightarrow> blocks_inv (pl_next p) (all_blocks (pl_levels p))"

text \<open>The blocks that hold an object.\<close>

definition pool_live :: "pool \<Rightarrow> nat set" where
  "pool_live p = live_ids (all_blocks (pl_levels p))"

definition pool_step :: "nat set \<Rightarrow> pool \<Rightarrow> pool \<Rightarrow> nat set \<Rightarrow> bool" where
  "pool_step E p q N \<longleftrightarrow>
     transfer E (pl_next p) (all_blocks (pl_levels p)) (pl_next q) (all_blocks (pl_levels q)) N"

lemma pool_stepD:
  "pool_step E p q N \<Longrightarrow>
   pool_inv q \<and> (\<exists>R \<subseteq> E. pool_live q = (pool_live p - R) \<union> N \<and> N \<inter> (pool_live p - R) = {})"
  by (simp add: pool_step_def transfer_def pool_inv_def pool_live_def)

lemma all_blocks_simps [simp]:
  "all_blocks [] = []" "all_blocks (l # ls) = lv_blocks l @ all_blocks ls"
  "all_blocks (ks @ ls) = all_blocks ks @ all_blocks ls"
  by (simp_all add: all_blocks_def)

text \<open>Operations on two parts of the blocks, the second part first.\<close>

lemma transfer_refl: "blocks_inv next bs \<Longrightarrow> transfer E next bs next bs {}"
  by (auto simp: transfer_def)

lemma transfer_append:
  assumes inv: "blocks_inv next (bs @ cs)"
    and c: "transfer E next cs m cs1 M" and b: "transfer E m bs next1 bs1 N"
  shows "transfer E next (bs @ cs) next1 (bs1 @ cs1) (N \<union> M)"
proof -
  obtain R where R: "R \<subseteq> E" "live_ids cs1 = (live_ids cs - R) \<union> M" "M \<inter> (live_ids cs - R) = {}"
    using c by (auto simp: transfer_def)
  obtain S where S: "S \<subseteq> E" "live_ids bs1 = (live_ids bs - S) \<union> N" "N \<inter> (live_ids bs - S) = {}"
    using b by (auto simp: transfer_def)
  have i: "next \<le> m" "m \<le> next1" "blocks_inv m cs1" "blocks_inv next1 bs1"
    "ids cs1 \<subseteq> ids cs \<union> {next..<m}" "ids bs1 \<subseteq> ids bs \<union> {m..<next1}"
    using b c by (auto simp: transfer_def)
  have d: "ids bs \<inter> ids cs = {}" "\<And>x. x \<in> ids bs \<union> ids cs \<Longrightarrow> x < next"
    using inv ids_less[OF inv] by (auto simp: blocks_inv_append)
  have "ids bs1 \<inter> ids cs1 = {}"
  proof (rule equals0I)
    fix x assume x: "x \<in> ids bs1 \<inter> ids cs1"
    then have "x < m" using i(3) ids_less by blast
    then have "x \<in> ids bs" using x i(6) by auto
    moreover have "x \<in> ids cs \<or> next \<le> x" using x i(5) by auto
    ultimately show False using d(1) d(2)[of x] by auto
  qed
  then have inv1: "blocks_inv next1 (bs1 @ cs1)"
    using i blocks_inv_mono by (auto simp: blocks_inv_append)
  let ?T = "(R \<inter> ids cs) \<union> (S \<inter> ids bs)"
  have l: "live_ids (bs @ cs) - ?T = (live_ids bs - S) \<union> (live_ids cs - R)"
    using d(1) live_ids_sub[of bs] live_ids_sub[of cs] by auto
  have n: "N \<inter> live_ids cs = {}"
  proof (rule equals0I)
    fix x assume x: "x \<in> N \<inter> live_ids cs"
    then have c: "x \<in> ids cs" "x \<in> ids bs1" using S(2) live_ids_sub by blast+
    then have "x < m" using d(2)[of x] i(1) by auto
    then show False using c i(6) d(1) by auto
  qed
  have m: "M \<inter> live_ids bs = {}"
  proof (rule equals0I)
    fix x assume x: "x \<in> M \<inter> live_ids bs"
    then have c: "x \<in> ids bs" "x \<in> ids cs1" using R(2) live_ids_sub by blast+
    then show False using i(5) d(1) d(2)[of x] by auto
  qed
  have "live_ids (bs1 @ cs1) = (live_ids (bs @ cs) - ?T) \<union> (N \<union> M)"
    unfolding l using R(2) S(2) by auto
  moreover have "(N \<union> M) \<inter> (live_ids (bs @ cs) - ?T) = {}"
    unfolding l using R(3) S(3) n m by auto
  ultimately show ?thesis
    unfolding transfer_def using inv1 i R(1) S(1) by (intro conjI exI[of _ ?T]) auto
qed

text \<open>One level of a pool changes.\<close>

lemma transfer_around:
  assumes "blocks_inv next (as @ bs @ cs)" "transfer E next bs next1 bs1 N"
  shows "transfer E next (as @ bs @ cs) next1 (as @ bs1 @ cs) N"
proof -
  have i: "blocks_inv next (bs @ cs)" using assms(1) by (simp add: blocks_inv_append)
  have c: "transfer E next (bs @ cs) next1 (bs1 @ cs) N"
    using transfer_append[OF i transfer_refl[of "next" cs E] assms(2)] i by (simp add: blocks_inv_append)
  have n: "next \<le> next1" using assms(2) by (simp add: transfer_def)
  have "blocks_inv next as" using assms(1) by (simp add: blocks_inv_append)
  note t = transfer_refl[OF blocks_inv_mono[OF this n], of E]
  from transfer_append[OF assms(1) c t] show ?thesis by simp
qed

lemma all_blocks_update:
  "i < length ls \<Longrightarrow> all_blocks (ls[i := l]) = all_blocks (take i ls) @ lv_blocks l @ all_blocks (drop (Suc i) ls)"
  by (simp add: upd_conv_take_nth_drop)

lemma all_blocks_split:
  "i < length ls \<Longrightarrow> all_blocks ls = all_blocks (take i ls) @ lv_blocks (ls ! i) @ all_blocks (drop (Suc i) ls)"
  by (subst (1) id_take_nth_drop[of i ls]) (simp_all only: all_blocks_simps)

lemma suitable_pool_fits:
  "suitable_pool sz ls = Some i \<Longrightarrow> i < length ls \<and> sz \<le> lv_size (ls ! i)"
  by (induction ls arbitrary: i) (auto split: if_splits)

lemma make_object_step:
  assumes m: "make_object env throws sz p = Some (r, q)" and inv: "pool_inv p"
  shows "pool_step (deaths_of env) p q (set_option r) \<and>
         (\<forall>i. r = Some i \<longrightarrow> (\<exists>l \<in> set (pl_levels q). sz \<le> lv_size l \<and> i \<in> ids (lv_blocks l)))"
proof -
  let ?ls = "pl_levels p"
  obtain i where i: "suitable_pool sz ?ls = Some i" using m by (auto simp: make_object_def split: option.splits)
  note f = suitable_pool_fits[OF i]
  obtain bs n where a: "allocate env throws (lv_blocks (?ls ! i)) (pl_next p) = (r, bs, n)"
    and q: "q = \<lparr>pl_levels = ?ls[i := (?ls ! i)\<lparr>lv_blocks := bs\<rparr>], pl_next = n\<rparr>"
    using m by (auto simp: make_object_def i Let_def split: prod.splits)
  have inv': "blocks_inv (pl_next p) (all_blocks (take i ?ls) @ lv_blocks (?ls ! i) @ all_blocks (drop (Suc i) ?ls))"
    using inv f by (simp add: pool_inv_def flip: all_blocks_split)
  then have "blocks_inv (pl_next p) (lv_blocks (?ls ! i))" by (simp add: blocks_inv_append)
  note t = allocate_transfer[OF a this]
  have "pool_step (deaths_of env) p q (set_option r)"
    unfolding pool_step_def q using transfer_around[OF inv' t[THEN conjunct1]] f
    by (simp add: all_blocks_update flip: all_blocks_split)
  moreover have "?ls[i := (?ls ! i)\<lparr>lv_blocks := bs\<rparr>] ! i \<in> set (pl_levels q)"
    unfolding q using f by (simp del: nth_list_update_eq)
  moreover have "set_option r \<subseteq> ids (lv_blocks (?ls[i := (?ls ! i)\<lparr>lv_blocks := bs\<rparr>] ! i))"
    "sz \<le> lv_size (?ls[i := (?ls ! i)\<lparr>lv_blocks := bs\<rparr>] ! i)"
    using t f by simp_all
  ultimately show ?thesis by (intro conjI allI impI bexI[of _ "?ls[i := (?ls ! i)\<lparr>lv_blocks := bs\<rparr>] ! i"]) simp_all
qed

lemma drop_object_live: "pool_live (drop_object i p) = pool_live p - {i}"
proof -
  have "live_ids (all_blocks (map (\<lambda>l. l\<lparr>lv_blocks := release {i} (lv_blocks l)\<rparr>) ls)) = live_ids (all_blocks ls) - {i}" for ls
    by (induction ls) auto
  then show ?thesis by (simp add: pool_live_def drop_object_def)
qed

lemma drop_object_inv: "pool_inv p \<Longrightarrow> pool_inv (drop_object i p)"
proof -
  have "all_blocks (map (\<lambda>l. l\<lparr>lv_blocks := release {i} (lv_blocks l)\<rparr>) ls) = release {i} (all_blocks ls)" for ls
    by (induction ls) auto
  then show "pool_inv p \<Longrightarrow> ?thesis" by (simp add: pool_inv_def drop_object_def release_inv)
qed

lemma shrink_levels_transfer:
  "blocks_inv next (all_blocks ls) \<Longrightarrow>
   transfer (deaths_of env) next (all_blocks ls) next
     (all_blocks (map (\<lambda>l. l\<lparr>lv_blocks := shrink_to_fit_level env (lv_blocks l)\<rparr>) ls)) {}"
proof (induction ls)
  case (Cons l ls)
  then have i: "blocks_inv next (lv_blocks l)" "blocks_inv next (all_blocks ls)"
    by (simp_all add: blocks_inv_append)
  have "transfer (deaths_of env) next (lv_blocks l @ all_blocks ls) next
          (shrink_to_fit_level env (lv_blocks l) @
           all_blocks (map (\<lambda>l. l\<lparr>lv_blocks := shrink_to_fit_level env (lv_blocks l)\<rparr>) ls)) ({} \<union> {})"
    using Cons.prems by (intro transfer_append[OF _ Cons.IH[OF i(2)] shrink_to_fit_level_transfer[OF i(1)]]) simp
  then show ?case by simp
qed (simp add: transfer_refl)

lemma resize_levels_transfer:
  "resize_levels env n ls next = (ls1, next1) \<Longrightarrow> blocks_inv next (all_blocks ls) \<Longrightarrow>
   transfer (deaths_of env) next (all_blocks ls) next1 (all_blocks ls1) {}"
proof (induction ls arbitrary: ls1 next1)
  case (Cons l ls)
  obtain ks m where k: "resize_levels env n ls next = (ks, m)" by fastforce
  obtain bs m1 where b: "resize_level env n (lv_blocks l) m = (bs, m1)" by fastforce
  have e: "ls1 = l\<lparr>lv_blocks := bs\<rparr> # ks" "next1 = m1" using Cons.prems(1) by (simp_all add: k b)
  have i: "blocks_inv next (lv_blocks l)" "blocks_inv next (all_blocks ls)"
    using Cons.prems(2) by (simp_all add: blocks_inv_append)
  have t: "transfer (deaths_of env) next (all_blocks ls) m (all_blocks ks) {}"
    using k i(2) by (rule Cons.IH)
  then have "blocks_inv m (lv_blocks l)" using blocks_inv_mono[OF i(1)] by (simp add: transfer_def)
  from transfer_append[OF _ t resize_level_transfer[OF b this]] Cons.prems(2)
  show ?case by (simp add: e)
qed (auto simp: transfer_refl)

lemma resize_levels_length:
  "resize_levels env n ls next = (ls1, next1) \<Longrightarrow> n < 2 ^ 31 \<Longrightarrow>
   \<forall>l \<in> set ls. length (lv_blocks l) < 2 ^ 31 \<Longrightarrow>
   list_all2 (\<lambda>l l1. lv_size l1 = lv_size l \<and> n \<le> length (lv_blocks l1) \<and>
                     length (lv_blocks l1) \<le> max n (length (filter bk_taken (lv_blocks l)))) ls ls1"
proof (induction ls arbitrary: ls1 next1)
  case (Cons l ls)
  obtain ks m where k: "resize_levels env n ls next = (ks, m)" by fastforce
  obtain bs m1 where b: "resize_level env n (lv_blocks l) m = (bs, m1)" by fastforce
  have "n \<le> length bs \<and> length bs \<le> max n (length (filter bk_taken (lv_blocks l)))"
    using Cons.prems by (intro resize_level_length[OF b]) auto
  moreover have "ls1 = l\<lparr>lv_blocks := bs\<rparr> # ks" using Cons.prems(1) by (simp add: k b)
  ultimately show ?case using Cons.IH[OF k] Cons.prems(2,3) by simp
qed simp

lemma pool_construct_sizes: "map lv_size (pl_levels (pool_construct n ss)) = ss"
  by (induction ss) (auto simp: Let_def)

lemma pool_construct_inv: "pool_inv (pool_construct n ss) \<and> pool_live (pool_construct n ss) = {}"
proof (induction ss)
  case (Cons s ss)
  let ?p = "pool_construct n ss"
  have f: "live_ids (map fresh_block is) = {}" "ids (map fresh_block is) = set is" for "is"
    by (induction "is") (auto simp: fresh_block_def)
  have "blocks_inv (pl_next ?p + n) (map fresh_block [pl_next ?p..<pl_next ?p + n])"
    by (auto simp: blocks_inv_def fresh_block_def comp_def)
  moreover have "ids (all_blocks (pl_levels ?p)) \<subseteq> {..<pl_next ?p}"
    using Cons.IH ids_less by (auto simp: pool_inv_def)
  ultimately show ?case using Cons.IH blocks_inv_mono[of "pl_next ?p" "all_blocks (pl_levels ?p)" "pl_next ?p + n"]
    by (auto simp: pool_inv_def pool_live_def Let_def blocks_inv_append f)
qed (simp add: pool_inv_def pool_live_def)

end
