(* ===== verification/Mempool_Spec.thy ===== *)
theory Mempool_Spec
  imports Mempool
begin

text \<open>
  What the memory pools promise: the contract \<open>object_pool\<close> between a pool and the owners of its pointers,
  its interpretation on the model of utils/mempool.hpp, and the properties of the pools.
\<close>

subsection \<open>The contract of a pool\<close>

text \<open>
  What the owner of the pointers relies on: an object that is made gets a block no other object
  lives in, and only the death of its pointer ends an object's life.
\<close>

locale object_pool =
  fixes invar :: "'p \<Rightarrow> bool"
    and live :: "'p \<Rightarrow> 'b set"
    and make :: "'a \<Rightarrow> 'p \<Rightarrow> ('b option \<times> 'p) option"
    and discard :: "'b \<Rightarrow> 'p \<Rightarrow> 'p"
    and tidy :: "'c \<Rightarrow> 'p \<Rightarrow> 'p"
  assumes make: "invar p \<Longrightarrow> make a p = Some (r, q) \<Longrightarrow>
                 invar q \<and> live q = live p \<union> set_option r \<and> set_option r \<inter> live p = {}"
    and discard: "invar p \<Longrightarrow> invar (discard b p) \<and> live (discard b p) = live p - {b}"
    and tidy: "invar p \<Longrightarrow> invar (tidy c p) \<and> live (tidy c p) = live p"
begin

text \<open>The list of the pointers somebody holds.\<close>

definition holds :: "'p \<Rightarrow> 'b list \<Rightarrow> bool" where
  "holds p hs \<longleftrightarrow> invar p \<and> distinct hs \<and> set hs = live p"

lemma holds_make: "holds p hs \<Longrightarrow> make a p = Some (Some b, q) \<Longrightarrow> holds q (b # hs)"
  using make[of p a "Some b" q] by (auto simp: holds_def)

lemma holds_failed: "holds p hs \<Longrightarrow> make a p = Some (None, q) \<Longrightarrow> holds q hs"
  using make[of p a None q] by (simp add: holds_def)

lemma holds_discard: "holds p hs \<Longrightarrow> holds (discard b p) (removeAll b hs)"
  using discard[of p b] by (auto simp: holds_def distinct_removeAll)

lemma holds_tidy: "holds p hs \<Longrightarrow> holds (tidy c p) hs"
  using tidy[of p c] by (simp add: holds_def)

end

abbreviation quiet :: deaths where
  "quiet \<equiv> \<lambda>_. {}"

lemma shrink_to_fit_step: "pool_inv p \<Longrightarrow> pool_step (deaths_of env) p (shrink_to_fit env p) {}"
  by (simp add: pool_step_def pool_inv_def shrink_to_fit_def shrink_levels_transfer)

lemma resize_step: "pool_inv p \<Longrightarrow> pool_step (deaths_of env) p (resize env n p) {}"
  using resize_levels_transfer[of env n "pl_levels p" "pl_next p"]
  by (auto simp: pool_step_def pool_inv_def resize_def split: prod.split)

lemma pool_step_quiet:
  "pool_step (deaths_of quiet) p q N \<Longrightarrow> pool_inv q \<and> pool_live q = pool_live p \<union> N \<and> N \<inter> pool_live p = {}"
  using pool_stepD[of "deaths_of quiet" p q N] by auto

interpretation cmd_pool: object_pool pool_inv pool_live "\<lambda>(throws, sz). make_object quiet throws sz"
  drop_object "case_option (shrink_to_fit quiet) (resize quiet)"
proof
  show "pool_inv q \<and> pool_live q = pool_live p \<union> set_option r \<and> set_option r \<inter> pool_live p = {}"
    if "pool_inv p" "(case a of (throws, sz) \<Rightarrow> make_object quiet throws sz) p = Some (r, q)" for p a r q
    using that make_object_step[of quiet "fst a" "snd a" p r q]
    by (intro pool_step_quiet) (simp add: split_beta)
  show "pool_inv (drop_object b p) \<and> pool_live (drop_object b p) = pool_live p - {b}"
    if "pool_inv p" for p b
    using that by (simp add: drop_object_inv drop_object_live)
  show "pool_inv (case_option (shrink_to_fit quiet) (resize quiet) c p) \<and>
        pool_live (case_option (shrink_to_fit quiet) (resize quiet) c p) = pool_live p"
    if "pool_inv p" for p c
    using pool_step_quiet[OF shrink_to_fit_step[OF that]] pool_step_quiet[OF resize_step[OF that]]
    by (cases c) simp_all
qed

text \<open>A sequence of operations, with the pointers that are alive.\<close>

datatype pool_op = MakeObject bool nat | PointerDies nat | ShrinkToFit | Resize nat

fun pool_exec :: "pool_op list \<Rightarrow> pool \<Rightarrow> nat list \<Rightarrow> (pool \<times> nat list) option" where
  "pool_exec [] p hs = Some (p, hs)"
| "pool_exec (MakeObject throws sz # ops) p hs =
     (case make_object quiet throws sz p of
        None \<Rightarrow> None
      | Some (None, q) \<Rightarrow> pool_exec ops q hs
      | Some (Some i, q) \<Rightarrow> pool_exec ops q (i # hs))"
| "pool_exec (PointerDies i # ops) p hs = pool_exec ops (drop_object i p) (removeAll i hs)"
| "pool_exec (ShrinkToFit # ops) p hs = pool_exec ops (shrink_to_fit quiet p) hs"
| "pool_exec (Resize n # ops) p hs = pool_exec ops (resize quiet n p) hs"

lemma pool_exec_holds:
  "pool_exec ops p hs = Some (q, hs1) \<Longrightarrow> cmd_pool.holds p hs \<Longrightarrow> cmd_pool.holds q hs1"
proof (induction ops p hs rule: pool_exec.induct)
  case (2 throws sz ops p hs)
  then show ?case
    using cmd_pool.holds_make[of p hs "(throws, sz)"] cmd_pool.holds_failed[of p hs "(throws, sz)"]
    by (auto split: option.splits)
next
  case (3 i ops p hs)
  then show ?case using cmd_pool.holds_discard[of p hs i] by simp
next
  case (4 ops p hs)
  then show ?case using cmd_pool.holds_tidy[of p hs None] by simp
next
  case (5 n ops p hs)
  then show ?case using cmd_pool.holds_tidy[of p hs "Some n"] by simp
qed simp

text \<open>The block sizes of a pool never change, so an object that has a level keeps having it.\<close>

abbreviation sizes :: "pool \<Rightarrow> nat list" where
  "sizes p \<equiv> map lv_size (pl_levels p)"

lemma make_object_sizes: "make_object env throws sz p = Some (r, q) \<Longrightarrow> sizes q = sizes p"
  by (auto simp: make_object_def Let_def map_update list_update_same_conv split: option.splits prod.splits
      dest!: suitable_pool_fits)

lemma resize_levels_sizes: "resize_levels env n ls i = (ls1, i1) \<Longrightarrow> map lv_size ls1 = map lv_size ls"
  by (induction ls arbitrary: ls1 i1) (auto simp: Let_def split: prod.splits)

lemma resize_sizes: "sizes (resize env n p) = sizes p"
  using resize_levels_sizes[of env n "pl_levels p" "pl_next p"] by (auto simp: resize_def split: prod.split)

lemma suitable_pool_iff: "suitable_pool sz ls \<noteq> None \<longleftrightarrow> (\<exists>s \<in> set (map lv_size ls). sz \<le> s)"
  by (induction ls) auto

lemma pool_exec_progress:
  assumes "\<And>throws sz. op = MakeObject throws sz \<Longrightarrow> sz \<in> set (sizes p)"
  shows "\<exists>q hs1. sizes q = sizes p \<and> pool_exec (op # ops) p hs = pool_exec ops q hs1"
proof (cases op)
  case (MakeObject throws sz)
  then have "suitable_pool sz (pl_levels p) \<noteq> None"
    unfolding suitable_pool_iff using assms by blast
  then have "make_object quiet throws sz p \<noteq> None"
    by (auto simp: make_object_def Let_def split: option.split prod.split)
  then obtain r q where m: "make_object quiet throws sz p = Some (r, q)" by auto
  then show ?thesis using make_object_sizes[OF m] MakeObject by (cases r) auto
next
  case (PointerDies i)
  have "sizes (drop_object i p) = sizes p" by (simp add: drop_object_def)
  then show ?thesis using PointerDies by auto
next
  case ShrinkToFit
  have "sizes (shrink_to_fit quiet p) = sizes p" by (simp add: shrink_to_fit_def)
  then show ?thesis using ShrinkToFit by auto
next
  case (Resize n)
  then show ?thesis using resize_sizes[of quiet n p] by auto
qed

lemma pool_exec_total:
  "(\<And>throws sz. MakeObject throws sz \<in> set ops \<Longrightarrow> sz \<in> set (sizes p)) \<Longrightarrow>
   \<exists>q hs1. pool_exec ops p hs = Some (q, hs1)"
proof (induction ops arbitrary: p hs)
  case (Cons op ops)
  obtain q hs1 where q: "sizes q = sizes p" "pool_exec (op # ops) p hs = pool_exec ops q hs1"
    using pool_exec_progress[of op p ops hs] Cons.prems by auto
  show ?case using Cons.IH[of q hs1] Cons.prems unfolding q by (metis list.set_intros(2))
qed simp

text \<open>What \<open>ShrinkToFit\<close> leaves when no pointer dies meanwhile.\<close>

lemma release_quiet [simp]: "release {} bs = bs" "release_block {} b = b"
  by (simp_all add: release_def release_block_def map_idI)

lemma shrink_to_fit_quiet: "shrink_to_fit_level quiet bs = filter bk_taken bs"
proof -
  have "remove_if (\<lambda>_ b. (\<not> bk_taken b, ())) quiet () k kept bs = kept @ filter bk_taken bs" for k kept
    by (induction bs arbitrary: k kept) (simp_all add: Let_def)
  then show ?thesis by (simp add: shrink_to_fit_level_def)
qed

lemma taken_card: "blocks_inv next bs \<Longrightarrow> length (filter bk_taken bs) = card (live_ids bs)"
proof (induction bs)
  case (Cons b bs)
  have "finite (live_ids bs)" by (simp add: live_ids_def)
  moreover have "bk_id b \<notin> live_ids bs" using Cons.prems live_ids_sub[of bs] by (auto simp: blocks_inv_Cons)
  ultimately show ?case using Cons by (simp add: blocks_inv_Cons)
qed simp

lemma get_block_count_eq: "get_block_count p = length (all_blocks (pl_levels p))"
  by (simp add: get_block_count_def all_blocks_def length_concat comp_def)

lemma shrink_to_fit_count: "pool_inv p \<Longrightarrow> get_block_count (shrink_to_fit quiet p) = card (pool_live p)"
proof -
  have "all_blocks (map (\<lambda>l. l\<lparr>lv_blocks := filter bk_taken (lv_blocks l)\<rparr>) ls) = filter bk_taken (all_blocks ls)" for ls
    by (induction ls) simp_all
  then show "pool_inv p \<Longrightarrow> ?thesis"
    using taken_card[of "pl_next p" "all_blocks (pl_levels p)"]
    by (simp add: get_block_count_eq shrink_to_fit_def shrink_to_fit_quiet pool_inv_def pool_live_def)
qed

subsection \<open>Properties\<close>

lemma suitable_pool_exact:
  "sorted_wrt (<) (map lv_size ls) \<Longrightarrow> sz \<in> set (map lv_size ls) \<Longrightarrow>
   \<exists>i. suitable_pool sz ls = Some i \<and> lv_size (ls ! i) = sz"
  by (induction ls) fastforce+

text \<open>
  \<open>PoolBuilder\<close> gives a pool whose block sizes are the sizes of the given types, each once and in
  ascending order, as the \<open>static_assert\<close> of \<open>Pool\<close> demands, and \<open>SuitablePool\<close> finds for each of these
  types the level whose blocks have exactly its size.
\<close>

theorem pool_builder_spec:
  assumes "raw \<noteq> []"
  shows "\<exists>ss. pool_builder raw = Some ss \<and> set ss = set raw \<and> sorted_wrt (<) ss \<and>
              sizes (pool_construct n ss) = ss \<and>
              (\<forall>sz \<in> set raw. \<exists>i. suitable_pool sz (pl_levels (pool_construct n ss)) = Some i \<and>
                                  lv_size (pl_levels (pool_construct n ss) ! i) = sz)"
proof -
  let ?ss = "sort (remdups raw)"
  have s: "sorted_wrt (<) ?ss" by (simp add: strict_sorted_iff)
  have e: "sizes (pool_construct n ?ss) = ?ss" by (rule pool_construct_sizes)
  have "\<exists>i. suitable_pool sz (pl_levels (pool_construct n ?ss)) = Some i \<and>
            lv_size (pl_levels (pool_construct n ?ss) ! i) = sz" if "sz \<in> set raw" for sz
    by (rule suitable_pool_exact) (use s that in \<open>simp_all only: e set_sort set_remdups\<close>)
  then show ?thesis using pool_builder_eq[OF assms] s e by auto
qed

theorem pool_builder_spec_witness:
  "\<exists>ss. pool_builder [312, 72, 312, 1096, 8] = Some ss \<and> sorted_wrt (<) ss \<and> set ss = {8, 72, 312, 1096}"
  using pool_builder_spec[of "[312, 72, 312, 1096, 8]" 1] by auto

text \<open>
  C27. \<open>MakeUnique\<close> places an object in a block that is large enough for it and in which no object lives,
  and leaves every other object where it is, whichever pointers die on other threads while \<open>Allocate\<close>
  searches the list; when the constructor throws, no object comes to life.
\<close>

theorem make_object_safe:
  assumes "pool_inv p" "make_object env throws sz p = Some (r, q)"
  shows "pool_inv q \<and>
         (\<exists>R \<subseteq> deaths_of env. pool_live q = (pool_live p - R) \<union> set_option r \<and>
                            set_option r \<inter> (pool_live p - R) = {}) \<and>
         (\<forall>i. r = Some i \<longrightarrow> (\<exists>l \<in> set (pl_levels q). sz \<le> lv_size l \<and> i \<in> ids (lv_blocks l)))"
proof -
  note m = make_object_step[OF assms(2,1)]
  show ?thesis using pool_stepD[OF m[THEN conjunct1]] m[THEN conjunct2] by (simp only: simp_thms)
qed

theorem make_object_safe_witness:
  "\<exists>r q. make_object (\<lambda>k. if k = 1 then {1} else {}) False 20
           \<lparr>pl_levels = [\<lparr>lv_size = 8, lv_blocks = []\<rparr>,
                         \<lparr>lv_size = 24, lv_blocks = [\<lparr>bk_id = 0, bk_taken = True, bk_live = True\<rparr>,
                                                    \<lparr>bk_id = 1, bk_taken = True, bk_live = True\<rparr>]\<rparr>],
            pl_next = 2\<rparr> = Some (r, q) \<and> r = Some 1 \<and> pool_inv q"
proof -
  let ?p = "\<lparr>pl_levels = [\<lparr>lv_size = 8, lv_blocks = []\<rparr>,
                           \<lparr>lv_size = 24, lv_blocks = [\<lparr>bk_id = 0, bk_taken = True, bk_live = True\<rparr>,
                                                      \<lparr>bk_id = 1, bk_taken = True, bk_live = True\<rparr>]\<rparr>],
              pl_next = 2\<rparr>"
  let ?env = "\<lambda>k::nat. if k = 1 then {1::nat} else {}"
  let ?q = "\<lparr>pl_levels = [\<lparr>lv_size = 8, lv_blocks = []\<rparr>,
                           \<lparr>lv_size = 24, lv_blocks = [\<lparr>bk_id = 0, bk_taken = True, bk_live = True\<rparr>,
                                                      \<lparr>bk_id = 1, bk_taken = True, bk_live = True\<rparr>]\<rparr>],
              pl_next = 2\<rparr>"
  have i: "pool_inv ?p" by (simp add: pool_inv_def blocks_inv_def)
  let ?b0 = "\<lparr>bk_id = 0, bk_taken = True, bk_live = True\<rparr>"
  have "find_free ?env (Suc 0) [?b0, \<lparr>bk_id = 1, bk_taken = True, bk_live = True\<rparr>] =
        ([?b0, \<lparr>bk_id = 1, bk_taken = False, bk_live = False\<rparr>], Some (Suc 0))"
    by (subst find_free.simps) (simp add: release_def release_block_def deallocate_def)
  then have "find_free ?env 0 [?b0, \<lparr>bk_id = 1, bk_taken = True, bk_live = True\<rparr>] =
        ([?b0, \<lparr>bk_id = 1, bk_taken = False, bk_live = False\<rparr>], Some (Suc 0))"
    by (subst find_free.simps) (simp add: release_def release_block_def)
  then have m: "make_object ?env False 20 ?p = Some (Some 1, ?q)"
    by (simp add: make_object_def allocate_def)
  show ?thesis using make_object_safe[OF i m] m by blast
qed

text \<open>
  C30. \<open>Resize\<close> ends the life of no object, whichever pointers die meanwhile.  It leaves every level with
  at least the number of blocks asked for, and with more than that only as far as blocks were taken;
  \<open>ShrinkToFit\<close>, with no pointer dying meanwhile, leaves exactly one block per object.
\<close>

theorem resize_spec:
  assumes "pool_inv p" "n < 2 ^ 31" "\<forall>l \<in> set (pl_levels p). length (lv_blocks l) < 2 ^ 31"
  shows "pool_inv (resize env n p) \<and>
         (\<exists>R \<subseteq> deaths_of env. pool_live (resize env n p) = pool_live p - R) \<and>
         list_all2 (\<lambda>l l1. lv_size l1 = lv_size l \<and> n \<le> length (lv_blocks l1) \<and>
                           length (lv_blocks l1) \<le> max n (length (filter bk_taken (lv_blocks l))))
           (pl_levels p) (pl_levels (resize env n p)) \<and>
         get_block_count (shrink_to_fit quiet p) = card (pool_live p)"
proof -
  obtain ls i where r: "resize_levels env n (pl_levels p) (pl_next p) = (ls, i)" by fastforce
  then have "pl_levels (resize env n p) = ls" by (simp add: resize_def)
  moreover note resize_levels_length[OF r assms(2,3)] shrink_to_fit_count[OF assms(1)]
  moreover have "pool_inv (resize env n p) \<and>
                 (\<exists>R \<subseteq> deaths_of env. pool_live (resize env n p) = pool_live p - R)"
    using pool_stepD[OF resize_step[OF assms(1), of env n]] by (simp only: Un_empty_right Int_empty_left simp_thms)
  ultimately show ?thesis by simp
qed

theorem resize_spec_witness:
  "let p = pool_construct 3 [72, 312] in
   get_block_count p = 6 \<and> get_size p = 1152 \<and>
   pool_inv (resize quiet 1 p) \<and> get_block_count (resize quiet 1 p) = 2 \<and>
   get_block_count (shrink_to_fit quiet p) = 0"
proof -
  let ?p = "pool_construct 3 [72, 312]"
  have p: "pl_levels ?p = [\<lparr>lv_size = 72, lv_blocks = map fresh_block [3..<6]\<rparr>,
                           \<lparr>lv_size = 312, lv_blocks = map fresh_block [0..<3]\<rparr>]"
    by (simp add: Let_def)
  have i: "pool_inv ?p" "pool_live ?p = {}" using pool_construct_inv by blast+
  have f: "filter bk_taken (map fresh_block is) = []" for "is" by (induction "is") (simp_all add: fresh_block_def)
  have r: "pool_inv (resize quiet 1 ?p)"
    "list_all2 (\<lambda>l l1. lv_size l1 = lv_size l \<and> 1 \<le> length (lv_blocks l1) \<and>
                       length (lv_blocks l1) \<le> max 1 (length (filter bk_taken (lv_blocks l))))
       (pl_levels ?p) (pl_levels (resize quiet 1 ?p))"
    "get_block_count (shrink_to_fit quiet ?p) = card (pool_live ?p)"
    using resize_spec[OF i(1), of 1 quiet] unfolding p by simp_all
  obtain l k where q: "pl_levels (resize quiet 1 ?p) = [l, k]" "length (lv_blocks l) = 1" "length (lv_blocks k) = 1"
    using r(2) unfolding p by (auto simp: list_all2_Cons1 fresh_block_def upt_rec[of 0])
  show ?thesis using r(1,3) i(2) by (simp add: get_block_count_def get_size_def p q del: One_nat_def pool_construct.simps)
qed

text \<open>
  C26. A pool built for some types implements the list of the pointers that are alive: any sequence of
  operations with objects of these types, failing constructors included, goes through, the pointers
  alive name pairwise different blocks, and the blocks in which an object lives are exactly theirs.
\<close>

theorem pool_refines_pointers:
  assumes "pool_builder raw = Some ss" "\<And>throws sz. MakeObject throws sz \<in> set ops \<Longrightarrow> sz \<in> set raw"
  shows "\<exists>p hs. pool_exec ops (pool_construct n ss) [] = Some (p, hs) \<and>
                distinct hs \<and> set hs = pool_live p \<and> pool_inv p"
proof -
  have "raw \<noteq> []" using assms(1) by (auto simp: pool_builder_def)
  then have "set ss = set raw" using pool_builder_eq[of raw] assms(1) by auto
  then obtain p hs where e: "pool_exec ops (pool_construct n ss) [] = Some (p, hs)"
    using pool_exec_total[of ops "pool_construct n ss" "[]"] assms(2) unfolding pool_construct_sizes by blast
  have "cmd_pool.holds (pool_construct n ss) []"
    using pool_construct_inv[of n ss] by (simp add: cmd_pool.holds_def)
  from pool_exec_holds[OF e this] show ?thesis using e by (auto simp: cmd_pool.holds_def)
qed

theorem pool_refines_pointers_witness:
  "\<exists>ss p hs. pool_builder [312, 72, 312] = Some ss \<and>
     pool_exec [MakeObject False 72, MakeObject False 72, MakeObject True 312, PointerDies 1, Resize 4,
                MakeObject False 312, ShrinkToFit] (pool_construct 1 ss) [] = Some (p, hs) \<and>
     distinct hs \<and> set hs = pool_live p"
proof -
  have b: "pool_builder [312, 72, 312] = Some [72, 312]" by code_simp
  have "\<exists>p hs. pool_exec [MakeObject False 72, MakeObject False 72, MakeObject True 312, PointerDies 1, Resize 4,
                          MakeObject False 312, ShrinkToFit] (pool_construct 1 [72, 312]) [] = Some (p, hs) \<and>
                distinct hs \<and> set hs = pool_live p \<and> pool_inv p"
    by (rule pool_refines_pointers[OF b]) auto
  then show ?thesis using b by blast
qed

end
