(* ===== verification/Tasks.thy ===== *)
theory Tasks
  imports Prelude
begin

text \<open>
  The coroutine tasks of utils/task.hpp and utils/taskowner.hpp: promises on a heap, the handles that
  own them, what \<open>co_await\<close> and the end of a coroutine do to them, and cancellation.  The executor is
  \<open>InlineExecutor\<close>, the only one the program uses: \<open>Execute\<close> is a plain call.
\<close>

subsection \<open>Coroutine bodies\<close>

datatype task_exn = CanceledException | OtherException

text \<open>
  The body of a coroutine, as far as a promise sees it: it returns or throws, acts on the state \<open>'s\<close>
  of the program, awaits something outside that will resume it with a value (a response or a timer),
  or awaits another task; to await something that is ready at once is an action.  No body of this program catches an exception around a \<open>co_await\<close>, so an
  exception ends the body.
\<close>

datatype ('s, 'v) body =
    Ret 'v
  | Raise task_exn
  | Act "'s \<Rightarrow> 's \<times> 'v" "'v \<Rightarrow> ('s, 'v) body"
  | Await "'v \<Rightarrow> ('s, 'v) body"
  | AwaitTask "('s, 'v) body" "'v \<Rightarrow> ('s, 'v) body"

subsection \<open>Promises\<close>

text \<open>\<open>std::variant<std::monostate, T, std::exception_ptr>\<close>\<close>

datatype 'v result = NoResult | Val 'v | Exc task_exn

text \<open>
  A coroutine frame with its promise.  \<open>pr_parentCanceled\<close> is a pointer to the flag \<open>canceled\<close> of another
  promise and \<open>pr_parentHandle\<close> a handle, both as addresses of frames.  \<open>fr_code\<close> is what the coroutine
  does when it is resumed, \<open>None\<close> at the final suspension point; \<open>fr_child\<close> is the handle of the task it
  awaits, a temporary of the frame.
\<close>

record ('s, 'v) coro =
  pr_canceled :: bool
  pr_parentCanceled :: "nat option"
  pr_parentHandle :: "nat option"
  pr_value :: "'v result"
  fr_code :: "('v \<Rightarrow> ('s, 'v) body) option"
  fr_child :: "nat option"

record ('s, 'v) world =
  w_heap :: "nat \<Rightarrow> ('s, 'v) coro option"
  w_next :: nat
  w_user :: 's

text \<open>
  All operations yield \<open>None\<close> where they would touch a frame that is gone or resume a coroutine that
  is done, which is undefined behaviour.
\<close>

definition coro_done :: "('s, 'v) coro \<Rightarrow> bool" where
  "coro_done f \<longleftrightarrow> fr_code f = None"

definition set_coro :: "nat \<Rightarrow> ('s, 'v) coro \<Rightarrow> ('s, 'v) world \<Rightarrow> ('s, 'v) world" where
  "set_coro i f w = w\<lparr>w_heap := (w_heap w)(i \<mapsto> f)\<rparr>"

definition free_coro :: "nat \<Rightarrow> ('s, 'v) world \<Rightarrow> ('s, 'v) world" where
  "free_coro i w = w\<lparr>w_heap := (w_heap w)(i := None)\<rparr>"

text \<open>The test of \<open>CancelingAwaiter::await_resume\<close>.\<close>

definition is_canceled :: "nat \<Rightarrow> ('s, 'v) world \<Rightarrow> bool option" where
  "is_canceled i w =
     (case w_heap w i of
        None \<Rightarrow> None
      | Some f \<Rightarrow>
          if pr_canceled f then Some True
          else (case pr_parentCanceled f of
                  None \<Rightarrow> Some False
                | Some p \<Rightarrow> map_option pr_canceled (w_heap w p)))"

text \<open>
  \<open>get_return_object\<close> and \<open>initial_suspend\<close>: the coroutine is created suspended.
\<close>

definition create_task :: "('s, 'v) body \<Rightarrow> ('s, 'v) world \<Rightarrow> nat \<times> ('s, 'v) world" where
  "create_task b w =
     (w_next w,
      (set_coro (w_next w)
         \<lparr>pr_canceled = False, pr_parentCanceled = None, pr_parentHandle = None, pr_value = NoResult,
          fr_code = Some (\<lambda>_. b), fr_child = None\<rparr> w)\<lparr>w_next := Suc (w_next w)\<rparr>)"

text \<open>The destructor of \<open>TaskHandle\<close>.\<close>

definition drop_handle :: "nat \<Rightarrow> ('s, 'v) world \<Rightarrow> ('s, 'v) world option" where
  "drop_handle i w =
     (case w_heap w i of
        None \<Rightarrow> None
      | Some f \<Rightarrow> if coro_done f then Some (free_coro i w) else Some (set_coro i (f\<lparr>pr_canceled := True\<rparr>) w))"

text \<open>
  The end of a body: \<open>return_value\<close> or \<open>unhandled_exception\<close>, then \<open>final_suspend\<close>.  Its awaiter is ready
  when the task is canceled; the coroutine then runs off its end and its frame is destroyed.
\<close>

definition finish :: "nat \<Rightarrow> 'v result \<Rightarrow> ('s, 'v) world \<Rightarrow> ('s, 'v) world option" where
  "finish i r w =
     (case w_heap w i of
        None \<Rightarrow> None
      | Some f \<Rightarrow>
          if pr_canceled f then Some (free_coro i w)
          else Some (set_coro i (f\<lparr>pr_value := r, fr_code := None\<rparr>) w))"

text \<open>
  The handle of the awaited task dies, at the end of the expression or when an exception leaves it.
\<close>

definition drop_child :: "nat \<Rightarrow> ('s, 'v) world \<Rightarrow> ('s, 'v) world option" where
  "drop_child i w =
     (case w_heap w i of
        None \<Rightarrow> None
      | Some f \<Rightarrow>
          (case fr_child f of
             None \<Rightarrow> Some w
           | Some j \<Rightarrow> drop_handle j (set_coro i (f\<lparr>fr_child := None\<rparr>) w)))"

text \<open>An exception leaves the \<open>co_await\<close> at which the coroutine is.\<close>

definition throw_in :: "nat \<Rightarrow> task_exn \<Rightarrow> ('s, 'v) world \<Rightarrow> ('s, 'v) world option" where
  "throw_in i x w = Option.bind (drop_child i w) (finish i (Exc x))"

text \<open>
  The value of the awaited task, \<open>TaskHandle::Run::Awaiter::await_resume\<close> below \<open>CancelingAwaiter\<close>: \<open>go\<close>
  is the rest of the coroutine.
\<close>

definition await_resume_task ::
  "nat \<Rightarrow> nat \<Rightarrow> ('v \<Rightarrow> ('s, 'v) world \<Rightarrow> ('s, 'v) world option) \<Rightarrow> ('s, 'v) world \<Rightarrow> ('s, 'v) world option" where
  "await_resume_task i j go w =
     (case w_heap w j of
        None \<Rightarrow> None
      | Some g \<Rightarrow>
          (case pr_value g of
             Exc x \<Rightarrow> throw_in i x w
           | Val v \<Rightarrow> Option.bind (drop_child i w) (go v)
           | NoResult \<Rightarrow> None))"

text \<open>
  The body of coroutine \<open>i\<close> runs up to its next suspension.  \<open>AwaitTask\<close> is \<open>await_transform\<close> of a
  \<open>TaskHandle\<close>: the inner task runs at once, with the pointer to the flag of its outermost parent, and
  only if it is not done then does the coroutine suspend, as the continuation of the inner one.
\<close>

primrec exec :: "('s, 'v) body \<Rightarrow> nat \<Rightarrow> ('s, 'v) world \<Rightarrow> ('s, 'v) world option" where
  "exec (Ret v) i w = finish i (Val v) w"
| "exec (Raise x) i w = finish i (Exc x) w"
| "exec (Act f k) i w = (let (s, v) = f (w_user w) in exec (k v) i (w\<lparr>w_user := s\<rparr>))"
| "exec (Await k) i w =
     (case w_heap w i of None \<Rightarrow> None | Some f \<Rightarrow> Some (set_coro i (f\<lparr>fr_code := Some k\<rparr>) w))"
| "exec (AwaitTask b k) i w =
     (case w_heap w i of
        None \<Rightarrow> None
      | Some f \<Rightarrow>
          (let (j, w1) = create_task b w;
               pc = (case pr_parentCanceled f of Some p \<Rightarrow> p | None \<Rightarrow> i);
               g = (the (w_heap w1 j))\<lparr>pr_parentCanceled := Some pc\<rparr>;
               w2 = set_coro i (f\<lparr>fr_child := Some j\<rparr>) (set_coro j g w1)
           in Option.bind (is_canceled j w2) (\<lambda>c.
              Option.bind (if c then throw_in j CanceledException w2 else exec b j w2) (\<lambda>w3.
              (case w_heap w3 j of
                 None \<Rightarrow> None
               | Some g3 \<Rightarrow>
                   if coro_done g3 then
                     Option.bind (is_canceled i w3) (\<lambda>d.
                       if d then throw_in i CanceledException w3
                       else await_resume_task i j (\<lambda>v. exec (k v) i) w3)
                   else
                     (case w_heap w3 i of
                        None \<Rightarrow> None
                      | Some f3 \<Rightarrow>
                          Some (set_coro i (f3\<lparr>fr_code := Some k\<rparr>)
                                 (set_coro j (g3\<lparr>pr_parentHandle := Some i\<rparr>) w3))))))))"

text \<open>
  A coroutine is resumed, by what it awaits (which hands over \<open>v\<close>) or by the end of the task it awaits,
  up to its next suspension; \<open>CancelingAwaiter\<close> comes first.
\<close>

definition resume_one :: "nat \<Rightarrow> 'v \<Rightarrow> ('s, 'v) world \<Rightarrow> ('s, 'v) world option" where
  "resume_one i v w =
     (case w_heap w i of
        None \<Rightarrow> None
      | Some f \<Rightarrow>
          (case fr_code f of
             None \<Rightarrow> None
           | Some k \<Rightarrow>
               Option.bind (is_canceled i w) (\<lambda>c.
                 if c then throw_in i CanceledException w
                 else (case fr_child f of
                         None \<Rightarrow> exec (k v) i w
                       | Some j \<Rightarrow> await_resume_task i j (\<lambda>u. exec (k u) i) w))))"

text \<open>
  \<open>final_suspend\<close> of a task that is not canceled resumes the coroutine that awaits it.  The first
  argument bounds how many coroutines in a row come to their end.
\<close>

fun resume_task :: "nat \<Rightarrow> nat \<Rightarrow> 'v \<Rightarrow> ('s, 'v) world \<Rightarrow> ('s, 'v) world option" where
  "resume_task 0 i v w = None"
| "resume_task (Suc n) i v w =
     Option.bind (resume_one i v w) (\<lambda>w1.
       (case w_heap w1 i of
          None \<Rightarrow> Some w1
        | Some f \<Rightarrow>
            if coro_done f then
              (case pr_parentHandle f of None \<Rightarrow> Some w1 | Some p \<Rightarrow> resume_task n p v w1)
            else Some w1))"

text \<open>
  \<open>TaskHandle::Run\<close> of a task nobody awaits: it starts with \<open>initial_suspend\<close>'s awaiter.  The value
  handed over is of no account.
\<close>

definition run_task :: "nat \<Rightarrow> ('s, 'v) world \<Rightarrow> ('s, 'v) world option" where
  "run_task i w = resume_one i undefined w"

subsection \<open>TaskOwner (utils/taskowner.hpp)\<close>

text \<open>\<open>operator bool\<close> of a handle that owns a frame.\<close>

definition task_running :: "('s, 'v) world \<Rightarrow> nat \<Rightarrow> bool" where
  "task_running w i \<longleftrightarrow> (case w_heap w i of None \<Rightarrow> False | Some f \<Rightarrow> \<not> coro_done f)"

text \<open>
  \<open>EnsureNoException\<close>: the exception that ended a task, which is taken out of the promise.
\<close>

definition ensure_no_exception :: "nat \<Rightarrow> ('s, 'v) world \<Rightarrow> task_exn option \<times> ('s, 'v) world" where
  "ensure_no_exception i w =
     (case w_heap w i of
        None \<Rightarrow> (None, w)
      | Some f \<Rightarrow>
          if \<not> coro_done f then (None, w)
          else (case pr_value f of
                  Exc x \<Rightarrow> (Some x, set_coro i (f\<lparr>pr_value := NoResult\<rparr>) w)
                | _ \<Rightarrow> (None, w)))"

fun rethrow_exceptions :: "nat list \<Rightarrow> ('s, 'v) world \<Rightarrow> task_exn option \<times> ('s, 'v) world" where
  "rethrow_exceptions [] w = (None, w)"
| "rethrow_exceptions (t # ts) w =
     (case ensure_no_exception t w of
        (Some x, w1) \<Rightarrow> (Some x, w1)
      | (None, w1) \<Rightarrow> rethrow_exceptions ts w1)"

text \<open>\<open>std::erase_if\<close> on the vector of handles: what is erased is destroyed.\<close>

fun erase_done :: "nat list \<Rightarrow> ('s, 'v) world \<Rightarrow> (nat list \<times> ('s, 'v) world) option" where
  "erase_done [] w = Some ([], w)"
| "erase_done (t # ts) w =
     (if task_running w t then map_option (\<lambda>(us, w1). (t # us, w1)) (erase_done ts w)
      else Option.bind (drop_handle t w) (erase_done ts))"

text \<open>
  \<open>StartRootTask\<close>: the exception it rethrows, if there is one (the new handle dies unused), the
  handles and the world.
\<close>

definition start_root_task ::
  "nat \<Rightarrow> nat list \<Rightarrow> ('s, 'v) world \<Rightarrow> (task_exn option \<times> nat list \<times> ('s, 'v) world) option" where
  "start_root_task t ts w =
     (case rethrow_exceptions ts w of
        (Some x, w1) \<Rightarrow> map_option (\<lambda>w2. (Some x, ts, w2)) (drop_handle t w1)
      | (None, w1) \<Rightarrow>
          Option.bind (erase_done ts w1) (\<lambda>(us, w2).
            map_option (\<lambda>w3. (None, us @ [t], w3)) (run_task t w2)))"

text \<open>\<open>StartNestedTask\<close>: its awaiter starts the task and lets the coroutine go on at once.\<close>

definition start_nested_task ::
  "nat \<Rightarrow> nat list \<Rightarrow> ('s, 'v) world \<Rightarrow> (task_exn option \<times> nat list \<times> ('s, 'v) world) option" where
  "start_nested_task t ts w = start_root_task t ts w"

text \<open>The move assignment of a handle: the frame it owned before loses its owner.\<close>

definition assign_handle ::
  "nat option \<Rightarrow> nat option \<Rightarrow> ('s, 'v) world \<Rightarrow> (nat option \<times> ('s, 'v) world) option" where
  "assign_handle old new w =
     (case old of
        None \<Rightarrow> Some (new, w)
      | Some i \<Rightarrow> map_option (\<lambda>w1. (new, w1)) (drop_handle i w))"

text \<open>The destructor of the owner.\<close>

fun drop_owner :: "nat list \<Rightarrow> ('s, 'v) world \<Rightarrow> ('s, 'v) world option" where
  "drop_owner [] w = Some w"
| "drop_owner (t # ts) w = Option.bind (drop_handle t w) (drop_owner ts)"

end
