(* ===== verification/Task_Spec.thy ===== *)
theory Task_Spec
  imports Tasks
begin

text \<open>
  What the tasks promise: awaiting a task is running its body in place, and a task whose handle has
  died runs nothing of its body any more.  The heap of promises is related to the chain of the
  continuations that wait, outermost first.
\<close>

subsection \<open>Tasks as continuations\<close>

text \<open>A body that runs to its next suspension has ended, or waits with a chain of continuations.\<close>

datatype ('s, 'v) progress = Ended "'v result" 's | Waits "('v \<Rightarrow> ('s, 'v) body) list" 's

primrec run_body :: "('s, 'v) body \<Rightarrow> 's \<Rightarrow> ('s, 'v) progress" where
  "run_body (Ret v) s = Ended (Val v) s"
| "run_body (Raise x) s = Ended (Exc x) s"
| "run_body (Act f k) s = (let (t, v) = f s in run_body (k v) t)"
| "run_body (Await k) s = Waits [k] s"
| "run_body (AwaitTask b k) s =
     (case run_body b s of
        Ended (Val v) t \<Rightarrow> run_body (k v) t
      | Ended (Exc x) t \<Rightarrow> Ended (Exc x) t
      | Ended NoResult t \<Rightarrow> Ended NoResult t
      | Waits ks t \<Rightarrow> Waits (k # ks) t)"

text \<open>The innermost continuation of a chain gets the value, the others what the next one ends with.\<close>

fun resume_chain :: "('v \<Rightarrow> ('s, 'v) body) list \<Rightarrow> 'v \<Rightarrow> 's \<Rightarrow> ('s, 'v) progress" where
  "resume_chain [] v s = Ended (Val v) s"
| "resume_chain [k] v s = run_body (k v) s"
| "resume_chain (k # ks) v s =
     (case resume_chain ks v s of
        Ended (Val u) t \<Rightarrow> run_body (k u) t
      | Ended (Exc x) t \<Rightarrow> Ended (Exc x) t
      | Ended NoResult t \<Rightarrow> Ended NoResult t
      | Waits js t \<Rightarrow> Waits (k # js) t)"

lemma run_body_result: "run_body b s = Ended r t \<Longrightarrow> r \<noteq> NoResult"
  by (induction b arbitrary: s r t) (fastforce split: progress.splits result.splits prod.splits)+

lemma run_body_waits: "run_body b s = Waits ks t \<Longrightarrow> ks \<noteq> []"
  by (induction b arbitrary: s ks t) (fastforce split: progress.splits result.splits prod.splits)+

lemma resume_chain_result: "resume_chain ks v s = Ended r t \<Longrightarrow> r \<noteq> NoResult"
  by (induction ks v s arbitrary: r t rule: resume_chain.induct)
    (auto dest: run_body_result split: progress.splits result.splits)

lemma resume_chain_waits: "resume_chain ks v s = Waits js t \<Longrightarrow> js \<noteq> []"
  by (induction ks v s arbitrary: js t rule: resume_chain.induct)
    (auto dest: run_body_waits split: progress.splits result.splits)

lemma resume_chain_Cons:
  "ks \<noteq> [] \<Longrightarrow> resume_chain (k # ks) v s =
     (case resume_chain ks v s of
        Ended (Val u) t \<Rightarrow> run_body (k u) t
      | Ended (Exc x) t \<Rightarrow> Ended (Exc x) t
      | Ended NoResult t \<Rightarrow> Ended NoResult t
      | Waits js t \<Rightarrow> Waits (k # js) t)"
  by (cases ks) auto

subsection \<open>Chains on the heap\<close>

text \<open>
  \<open>waiting_chain h r ph is ks\<close>: the frames \<open>is\<close> of the task with root \<open>r\<close> wait with the continuations \<open>ks\<close>,
  each for the next one; \<open>ph\<close> is the coroutine that awaits the first.  \<open>c\<close> is the flag of the root.
\<close>

definition waiting_frame ::
  "bool \<Rightarrow> nat \<Rightarrow> nat option \<Rightarrow> nat \<Rightarrow> ('v \<Rightarrow> ('s, 'v) body) \<Rightarrow> nat list \<Rightarrow> ('s, 'v) coro" where
  "waiting_frame c r ph i k js =
     \<lparr>pr_canceled = (c \<and> i = r), pr_parentCanceled = (if i = r then None else Some r),
      pr_parentHandle = ph, pr_value = NoResult, fr_code = Some k,
      fr_child = (case js of [] \<Rightarrow> None | j # _ \<Rightarrow> Some j)\<rparr>"

fun waiting_chain ::
  "(nat \<Rightarrow> ('s, 'v) coro option) \<Rightarrow> bool \<Rightarrow> nat \<Rightarrow> nat option \<Rightarrow> nat list \<Rightarrow> ('v \<Rightarrow> ('s, 'v) body) list \<Rightarrow> bool"
where
  "waiting_chain h c r ph (i # is) (k # ks) \<longleftrightarrow>
     h i = Some (waiting_frame c r ph i k is) \<and> i \<notin> set is \<and>
     (is = [] \<and> ks = [] \<or> waiting_chain h c r (Some i) is ks)"
| "waiting_chain h c r ph _ _ \<longleftrightarrow> False"

lemma waiting_chain_cong:
  "waiting_chain h c r ph is ks \<Longrightarrow> (\<And>i. i \<in> set is \<Longrightarrow> h' i = h i) \<Longrightarrow> waiting_chain h' c r ph is ks"
  by (induction h c r ph "is" ks rule: waiting_chain.induct) auto

lemma waiting_chain_mem: "waiting_chain h c r ph is ks \<Longrightarrow> i \<in> set is \<Longrightarrow> h i \<noteq> None"
  by (induction h c r ph "is" ks rule: waiting_chain.induct) auto

lemma waiting_chain_length: "waiting_chain h c r ph is ks \<Longrightarrow> length is = length ks \<and> is \<noteq> [] \<and> distinct is"
  by (induction h c r ph "is" ks rule: waiting_chain.induct) auto

text \<open>The identities from \<open>w_next\<close> on are free.\<close>

definition fresh_above :: "('s, 'v) world \<Rightarrow> bool" where
  "fresh_above w \<longleftrightarrow> (\<forall>i. w_next w \<le> i \<longrightarrow> w_heap w i = None)"

text \<open>
  A coroutine that is about to run: it awaits nothing, and the flag that cancels it, its own or that of
  the root \<open>r\<close>, is clear.
\<close>

definition runnable :: "('s, 'v) world \<Rightarrow> nat \<Rightarrow> ('s, 'v) coro \<Rightarrow> nat \<Rightarrow> bool" where
  "runnable w i f r \<longleftrightarrow>
     w_heap w i = Some f \<and> \<not> pr_canceled f \<and> fr_child f = None \<and>
     pr_parentCanceled f = (if i = r then None else Some r) \<and>
     (\<exists>g. w_heap w r = Some g \<and> \<not> pr_canceled g) \<and> fresh_above w"

lemma runnable_is_canceled: "runnable w i f r \<Longrightarrow> is_canceled i w = Some False"
  by (auto simp: runnable_def is_canceled_def split: if_splits)

lemma set_coro_simps [simp]:
  "w_heap (set_coro i f w) = (w_heap w)(i \<mapsto> f)" "w_next (set_coro i f w) = w_next w"
  "w_user (set_coro i f w) = w_user w"
  by (simp_all add: set_coro_def)

lemma free_coro_simps [simp]:
  "w_heap (free_coro i w) = (w_heap w)(i := None)" "w_next (free_coro i w) = w_next w"
  "w_user (free_coro i w) = w_user w"
  by (simp_all add: free_coro_def)

lemma finish_runnable:
  "runnable w i f r \<Longrightarrow>
   finish i v w = Some (set_coro i (f\<lparr>pr_value := v, fr_code := None, fr_child := None\<rparr>) w)"
  by (cases f) (simp add: runnable_def finish_def)

text \<open>
  What the execution of a body leads to: the frame \<open>i\<close> of the coroutine is done with the result, or it
  waits, with a chain of new frames below it.
\<close>

fun exec_post ::
  "('s, 'v) world \<Rightarrow> nat \<Rightarrow> ('s, 'v) coro \<Rightarrow> nat \<Rightarrow> ('s, 'v) progress \<Rightarrow> ('s, 'v) world \<Rightarrow> bool"
where
  "exec_post w i f r (Ended v t) w1 \<longleftrightarrow>
     w_user w1 = t \<and> w_next w \<le> w_next w1 \<and>
     w_heap w1 = (w_heap w)(i \<mapsto> f\<lparr>pr_value := v, fr_code := None, fr_child := None\<rparr>)"
| "exec_post w i f r (Waits ks t) w1 \<longleftrightarrow>
     w_user w1 = t \<and> w_next w \<le> w_next w1 \<and>
     (\<exists>js. set js \<subseteq> {w_next w..<w_next w1} \<and>
           (\<forall>j. j \<noteq> i \<and> j \<notin> set js \<longrightarrow> w_heap w1 j = w_heap w j) \<and>
           w_heap w1 i = Some (f\<lparr>fr_code := Some (hd ks), fr_child := (case js of [] \<Rightarrow> None | j # _ \<Rightarrow> Some j)\<rparr>) \<and>
           (js = [] \<and> tl ks = [] \<or> waiting_chain (w_heap w1) False r (Some i) js (tl ks)))"

lemma exec_post_frame:
  assumes "exec_post w i f r p w1" "fresh_above w" "i < w_next w"
  shows "fresh_above w1 \<and> (\<forall>j < w_next w. j \<noteq> i \<longrightarrow> w_heap w1 j = w_heap w j)"
proof (cases p)
  case (Ended v t)
  then show ?thesis using assms by (auto simp: fresh_above_def)
next
  case (Waits ks t)
  then obtain js where js: "set js \<subseteq> {w_next w..<w_next w1}"
    "\<And>j. j \<noteq> i \<Longrightarrow> j \<notin> set js \<Longrightarrow> w_heap w1 j = w_heap w j" "w_next w \<le> w_next w1"
    using assms(1) by auto
  have "w_heap w1 j = None" if "w_next w1 \<le> j" for j
  proof -
    have "j \<notin> set js" "j \<noteq> i" "w_next w \<le> j" using js(1,3) that assms(3) by auto
    then show ?thesis using js(2)[of j] assms(2) by (simp add: fresh_above_def)
  qed
  moreover have "w_heap w1 j = w_heap w j" if "j < w_next w" "j \<noteq> i" for j
    using js(1) that by (intro js(2)) auto
  ultimately show ?thesis by (simp add: fresh_above_def)
qed

lemma drop_child_done:
  assumes "w_heap w i = Some f" "fr_child f = Some j" "w_heap w j = Some g" "coro_done g" "i \<noteq> j"
  shows "drop_child i w = Some (free_coro j (set_coro i (f\<lparr>fr_child := None\<rparr>) w))"
  using assms by (simp add: drop_child_def drop_handle_def)

lemma exec_spec:
  "runnable w i f r \<Longrightarrow> \<exists>w1. exec b i w = Some w1 \<and> exec_post w i f r (run_body b (w_user w)) w1"
proof (induction b arbitrary: w i f)
  case (Ret v)
  from finish_runnable[OF Ret, of "Val v"] show ?case by simp
next
  case (Raise x)
  from finish_runnable[OF Raise, of "Exc x"] show ?case by simp
next
  case (Act g k)
  obtain t v where g: "g (w_user w) = (t, v)" by fastforce
  have "runnable (w\<lparr>w_user := t\<rparr>) i f r" using Act.prems by (simp add: runnable_def fresh_above_def)
  from Act.IH[OF rangeI this, of v]
  obtain w1 where "exec (k v) i (w\<lparr>w_user := t\<rparr>) = Some w1"
    "exec_post (w\<lparr>w_user := t\<rparr>) i f r (run_body (k v) t) w1" by auto
  moreover have "exec_post (w\<lparr>w_user := t\<rparr>) i f r p w1 = exec_post w i f r p w1" for p
    by (cases p) simp_all
  ultimately show ?case by (simp add: g)
next
  case (Await k)
  then show ?case by (auto simp: runnable_def intro!: exI[of _ "[]"])
next
  case (AwaitTask b k)
  let ?j = "w_next w"
  let ?g = "\<lparr>pr_canceled = False, pr_parentCanceled = Some r, pr_parentHandle = None, pr_value = NoResult,
             fr_code = Some (\<lambda>_. b), fr_child = None\<rparr>"
  define w2 where "w2 = set_coro i (f\<lparr>fr_child := Some ?j\<rparr>) (set_coro ?j ?g (snd (create_task b w)))"
  note run = AwaitTask.prems
  have f: "w_heap w i = Some f" "\<not> pr_canceled f" "fr_child f = None" "fresh_above w"
    "pr_parentCanceled f = (if i = r then None else Some r)"
    using run by (auto simp: runnable_def)
  obtain gr where gr: "w_heap w r = Some gr" "\<not> pr_canceled gr" using run by (auto simp: runnable_def)
  have free: "w_heap w ?j = None" using f(4) by (simp add: fresh_above_def)
  have ne: "i \<noteq> ?j" "r \<noteq> ?j" using free f(1) gr(1) by auto
  have lt: "i < ?j" "r < ?j" using f(1,4) gr(1) by (auto simp: fresh_above_def) (metis not_le option.distinct(1))+
  have h2: "w_heap w2 = (w_heap w)(?j \<mapsto> ?g, i \<mapsto> f\<lparr>fr_child := Some ?j\<rparr>)" "w_user w2 = w_user w" "w_next w2 = Suc ?j"
    by (auto simp: w2_def create_task_def)
  have run2: "runnable w2 ?j ?g r"
    using ne gr f h2 by (auto simp: runnable_def fresh_above_def)
  obtain w3 where w3: "exec b ?j w2 = Some w3" "exec_post w2 ?j ?g r (run_body b (w_user w)) w3"
    using AwaitTask.IH(1)[OF run2] h2(2) by auto
  have fr2: "fresh_above w2" using run2 by (simp add: runnable_def)
  note fr3 = exec_post_frame[OF w3(2) fr2]
  have h3: "w_heap w3 i = Some (f\<lparr>fr_child := Some ?j\<rparr>)"
    using fr3 lt ne h2 by simp
  have c3: "is_canceled i w3 = Some False"
  proof -
    have "w_heap w3 r = w_heap w2 r" using fr3 lt ne h2 by simp
    then show ?thesis using h3 f gr ne by (auto simp: is_canceled_def h2)
  qed
  have e: "exec (AwaitTask b k) i w =
    (case w_heap w3 ?j of
       None \<Rightarrow> None
     | Some g3 \<Rightarrow>
         if coro_done g3 then await_resume_task i ?j (\<lambda>v. exec (k v) i) w3
         else Some (set_coro i (f\<lparr>fr_child := Some ?j, fr_code := Some k\<rparr>)
                     (set_coro ?j (g3\<lparr>pr_parentHandle := Some i\<rparr>) w3)))"
  proof -
    have g: "(the (w_heap (snd (create_task b w)) ?j))\<lparr>pr_parentCanceled :=
               Some (case pr_parentCanceled f of Some p \<Rightarrow> p | None \<Rightarrow> i)\<rparr> = ?g"
      using f(5) by (auto simp: create_task_def)
    have ct: "create_task b w = (?j, snd (create_task b w))" by (simp add: create_task_def)
    show ?thesis
      unfolding exec.simps f(1) option.case Let_def
      by (subst ct) (simp add: g runnable_is_canceled[OF run2] w3(1) c3 h3 flip: w2_def split: option.split)
  qed
  show ?case
  proof (cases "run_body b (w_user w)")
    case (Ended v t)
    have k3: "w_heap w3 = (w_heap w2)(?j \<mapsto> ?g\<lparr>pr_value := v, fr_code := None\<rparr>)" "w_user w3 = t"
      using w3(2) by (simp_all add: Ended)
    let ?w4 = "free_coro ?j (set_coro i f w3)"
    have d: "drop_child i w3 = Some ?w4"
    proof -
      have "f\<lparr>fr_child := None\<rparr> = f" using f(3) by simp
      then show ?thesis using drop_child_done[of w3 i "f\<lparr>fr_child := Some ?j\<rparr>" ?j] h3 k3 ne
        by (simp add: coro_done_def)
    qed
    have h4: "w_heap ?w4 = w_heap w" "w_user ?w4 = t" using f(1) free ne k3 h2 by (auto simp: fun_eq_iff)
    have n4: "Suc ?j \<le> w_next ?w4" using w3(2) h2(3) by (simp add: Ended)
    have run4: "runnable ?w4 i f r"
      using run h4(1) n4 by (auto simp: runnable_def fresh_above_def)
    show ?thesis
    proof (cases v)
      case NoResult
      then show ?thesis using run_body_result[OF Ended] by simp
    next
      case (Val u)
      obtain w5 where w5: "exec (k u) i ?w4 = Some w5" "exec_post ?w4 i f r (run_body (k u) t) w5"
        using AwaitTask.IH(2)[OF rangeI run4, of u] h4(2) by auto
      have "exec_post w i f r p w5" if "exec_post ?w4 i f r p w5" for p
        using that n4 h4(1) by (cases p) (auto simp del: free_coro_simps set_coro_simps, fastforce)
      then show ?thesis using w5 e k3 Ended Val d
        by (simp add: coro_done_def await_resume_task_def)
    next
      case (Exc x)
      have "exec (AwaitTask b k) i w = finish i (Exc x) ?w4"
        using e k3 Exc d by (simp add: coro_done_def await_resume_task_def throw_in_def)
      then show ?thesis using finish_runnable[OF run4, of "Exc x"] h4 n4 f(3) Ended Exc
        by (auto simp del: free_coro_simps)
    qed
  next
    case (Waits ks t)
    then obtain js where js: "set js \<subseteq> {Suc ?j..<w_next w3}" "w_user w3 = t" "Suc ?j \<le> w_next w3"
      "\<And>j. j \<noteq> ?j \<Longrightarrow> j \<notin> set js \<Longrightarrow> w_heap w3 j = w_heap w2 j"
      "w_heap w3 ?j = Some (?g\<lparr>fr_code := Some (hd ks), fr_child := (case js of [] \<Rightarrow> None | j # _ \<Rightarrow> Some j)\<rparr>)"
      "js = [] \<and> tl ks = [] \<or> waiting_chain (w_heap w3) False r (Some ?j) js (tl ks)"
      using w3(2) h2(3) by auto
    have ks: "ks = hd ks # tl ks" using run_body_waits[OF Waits] by simp
    let ?g4 = "waiting_frame False r (Some i) ?j (hd ks) js"
    let ?w4 = "set_coro i (f\<lparr>fr_child := Some ?j, fr_code := Some k\<rparr>) (set_coro ?j ?g4 w3)"
    have ex: "exec (AwaitTask b k) i w = Some ?w4"
      using e js(5) ne by (simp add: coro_done_def waiting_frame_def)
    have nin: "i \<notin> set js" "?j \<notin> set js" using js(1) lt by auto
    have "waiting_chain (w_heap ?w4) False r (Some i) (?j # js) (hd ks # tl ks)"
    proof -
      have "waiting_chain (w_heap ?w4) False r (Some ?j) js (tl ks)"
        if "waiting_chain (w_heap w3) False r (Some ?j) js (tl ks)"
        using that by (rule waiting_chain_cong) (use nin in auto)
      then show ?thesis using js(6) ne nin by auto
    qed
    then have "waiting_chain (w_heap ?w4) False r (Some i) (?j # js) ks" using ks by simp
    moreover have "set (?j # js) \<subseteq> {?j..<w_next w3}"
      using subset_trans[OF js(1), of "{?j..<w_next w3}"] js(3) by auto
    moreover have "w_heap ?w4 l = w_heap w l" if "l \<noteq> i" "l \<notin> set (?j # js)" for l
      using that js(4)[of l] h2(1) by simp
    moreover have "w_heap ?w4 i = Some (f\<lparr>fr_code := Some k, fr_child := Some ?j\<rparr>)" by simp
    ultimately have "exec_post w i f r (Waits (k # ks) t) ?w4"
      using js(2,3) unfolding exec_post.simps by (intro conjI exI[of _ "?j # js"]) auto
    then show ?thesis using ex Waits by auto
  qed
qed

subsection \<open>Resumption\<close>

text \<open>A task that is done, and what its end leads to.\<close>

definition done_frame :: "nat \<Rightarrow> nat option \<Rightarrow> nat \<Rightarrow> 'v result \<Rightarrow> ('s, 'v) coro" where
  "done_frame r ph i x =
     \<lparr>pr_canceled = False, pr_parentCanceled = (if i = r then None else Some r), pr_parentHandle = ph,
      pr_value = x, fr_code = None, fr_child = None\<rparr>"

definition rise :: "nat \<Rightarrow> nat option \<Rightarrow> 'v \<Rightarrow> ('s, 'v) world \<Rightarrow> ('s, 'v) world option" where
  "rise n ph v w = (case ph of None \<Rightarrow> Some w | Some p \<Rightarrow> resume_task n p v w)"

lemma resume_task_ends:
  "resume_one i v w = Some w1 \<Longrightarrow> w_heap w1 i = Some (done_frame r ph i x) \<Longrightarrow>
   resume_task (Suc n) i v w = rise n ph v w1"
  by (simp add: coro_done_def done_frame_def rise_def)

lemma after_exec:
  assumes one: "resume_one i v w = Some w3"
    and ep: "exec_post w2 i (waiting_frame False r ph i k []) r p w3"
    and b: "\<forall>ls t. p = Waits ls t \<longrightarrow> ls \<noteq> []" and i: "i < w_next w2"
  shows "case p of
           Ended x t \<Rightarrow> resume_task (Suc n) i v w = rise n ph v w3 \<and> w_user w3 = t \<and> w_next w2 \<le> w_next w3 \<and>
                        w_heap w3 = (w_heap w2)(i \<mapsto> done_frame r ph i x)
         | Waits ls t \<Rightarrow> resume_task (Suc n) i v w = Some w3 \<and> w_user w3 = t \<and> w_next w2 \<le> w_next w3 \<and>
                        (\<exists>js. waiting_chain (w_heap w3) False r ph (i # js) ls \<and>
                              set js \<subseteq> {w_next w2..<w_next w3} \<and>
                              (\<forall>j. j \<noteq> i \<and> j \<notin> set js \<longrightarrow> w_heap w3 j = w_heap w2 j))"
proof (cases p)
  case (Ended x t)
  have "w_heap w3 i = Some (done_frame r ph i x)"
    using ep by (simp add: Ended waiting_frame_def done_frame_def)
  then show ?thesis using resume_task_ends[OF one] ep
    by (simp add: Ended waiting_frame_def done_frame_def)
next
  case (Waits ls t)
  obtain l ls' where ls: "ls = l # ls'" using b Waits by (cases ls) auto
  obtain js where js: "set js \<subseteq> {w_next w2..<w_next w3}" "w_user w3 = t" "w_next w2 \<le> w_next w3"
    "\<forall>j. j \<noteq> i \<and> j \<notin> set js \<longrightarrow> w_heap w3 j = w_heap w2 j"
    "w_heap w3 i = Some (waiting_frame False r ph i l js)"
    "js = [] \<and> ls' = [] \<or> waiting_chain (w_heap w3) False r (Some i) js ls'"
    using ep by (auto simp: Waits ls waiting_frame_def)
  have "waiting_chain (w_heap w3) False r ph (i # js) ls" using js(1,5,6) i by (auto simp: ls)
  moreover have "resume_task (Suc n) i v w = Some w3"
    using one js(5) by (simp add: coro_done_def waiting_frame_def)
  ultimately show ?thesis using js by (auto simp: Waits)
qed

lemma fresh_above_less: "fresh_above w \<Longrightarrow> w_heap w i \<noteq> None \<Longrightarrow> i < w_next w"
  unfolding fresh_above_def by (meson not_le)

fun resume_post ::
  "('s, 'v) world \<Rightarrow> nat \<Rightarrow> nat option \<Rightarrow> nat list \<Rightarrow> nat \<Rightarrow> 'v \<Rightarrow> ('s, 'v) progress \<Rightarrow> bool"
where
  "resume_post w r ph is n v (Ended x t) \<longleftrightarrow>
     (\<exists>w1. resume_task (n + length is) (last is) v w = rise n ph v w1 \<and> w_user w1 = t \<and> w_next w \<le> w_next w1 \<and>
           w_heap w1 = (\<lambda>j. if j = hd is then Some (done_frame r ph (hd is) x)
                            else if j \<in> set is then None else w_heap w j))"
| "resume_post w r ph is n v (Waits js t) \<longleftrightarrow>
     (\<exists>w1 ls. resume_task (n + length is) (last is) v w = Some w1 \<and> w_user w1 = t \<and> w_next w \<le> w_next w1 \<and>
           waiting_chain (w_heap w1) False r ph ls js \<and> hd ls = hd is \<and>
           set ls \<subseteq> set is \<union> {w_next w..<w_next w1} \<and>
           (\<forall>j. j \<notin> set ls \<longrightarrow> w_heap w1 j = (if j \<in> set is then None else w_heap w j)))"

lemma resume_one_leaf:
  assumes c: "waiting_chain (w_heap w) False r ph [i] [k]" and fr: "fresh_above w"
    and g: "w_heap w r = Some g" "\<not> pr_canceled g"
  shows "runnable w i (waiting_frame False r ph i k []) r \<and> resume_one i v w = exec (k v) i w"
proof -
  have f: "w_heap w i = Some (waiting_frame False r ph i k [])" using c by simp
  then have r: "runnable w i (waiting_frame False r ph i k []) r"
    using fr g by (simp add: runnable_def waiting_frame_def)
  then show ?thesis using f runnable_is_canceled[OF r]
    by (simp add: resume_one_def waiting_frame_def)
qed

lemma resume_post_leaf:
  assumes c: "waiting_chain (w_heap w) False r ph [i] [k]" and fr: "fresh_above w"
    and g: "w_heap w r = Some g" "\<not> pr_canceled g"
  shows "resume_post w r ph [i] n v (run_body (k v) (w_user w))"
proof -
  let ?p = "run_body (k v) (w_user w)"
  note r = resume_one_leaf[OF assms, of v]
  obtain w3 where w3: "exec (k v) i w = Some w3" "exec_post w i (waiting_frame False r ph i k []) r ?p w3"
    using exec_spec[OF r[THEN conjunct1], of "k v"] by auto
  have i: "i < w_next w" using c by (intro fresh_above_less[OF fr]) simp
  have one: "resume_one i v w = Some w3" using r w3(1) by simp
  have b: "\<forall>ls t. ?p = Waits ls t \<longrightarrow> ls \<noteq> []" by (auto dest: run_body_waits)
  note a = after_exec[OF one w3(2) b i, where n = n]
  show ?thesis
  proof (cases ?p)
    case (Ended x t)
    then show ?thesis using a by (auto simp: fun_eq_iff intro!: exI[of _ w3])
  next
    case (Waits ls t)
    then obtain js where js: "waiting_chain (w_heap w3) False r ph (i # js) ls"
      "set js \<subseteq> {w_next w..<w_next w3}" "\<forall>j. j \<noteq> i \<and> j \<notin> set js \<longrightarrow> w_heap w3 j = w_heap w j"
      "resume_task (Suc n) i v w = Some w3" "w_user w3 = t" "w_next w \<le> w_next w3" using a by auto
    then show ?thesis unfolding Waits resume_post.simps
      by (intro exI[of _ w3] exI[of _ "i # js"]) auto
  qed
qed

lemma resume_post_chain:
  "waiting_chain (w_heap w) False r ph is ks \<Longrightarrow> fresh_above w \<Longrightarrow> r \<notin> set (tl is) \<Longrightarrow>
   w_heap w r = Some g \<Longrightarrow> \<not> pr_canceled g \<Longrightarrow>
   resume_post w r ph is n v (resume_chain ks v (w_user w))"
proof (induction "is" arbitrary: ph ks n)
  case Nil
  then show ?case by simp
next
  case (Cons i "is")
  then obtain k ks' where ks: "ks = k # ks'" by (cases ks) auto
  show ?case
  proof (cases "is = []")
    case True
    then have "ks' = []" using Cons.prems(1) by (cases ks') (auto simp: ks)
    then show ?thesis using Cons.prems resume_post_leaf[of w r ph i k g n v] by (simp add: ks True)
  next
    case False
    then obtain j js where is_eq: "is = j # js" by (cases "is") auto
    have c: "w_heap w i = Some (waiting_frame False r ph i k is)" "i \<notin> set is"
      "waiting_chain (w_heap w) False r (Some i) is ks'"
      using Cons.prems(1) False by (auto simp: ks)
    have ks': "ks' \<noteq> []" using c(3) waiting_chain_length[OF c(3)] by auto
    have lt: "i < w_next w" using c(1) by (intro fresh_above_less[OF Cons.prems(2)]) simp
    have r: "r \<notin> set is" "r \<notin> set (tl is)" using Cons.prems(3) by (auto simp: is_eq)
    note ih = Cons.IH[OF c(3) Cons.prems(2) r(2) Cons.prems(4,5), of "Suc n"]
    show ?thesis
    proof (cases "resume_chain ks' v (w_user w)")
      case (Waits ls t)
      from ih obtain w1 qs where w1: "resume_task (Suc n + length is) (last is) v w = Some w1"
        "w_user w1 = t" "w_next w \<le> w_next w1" "waiting_chain (w_heap w1) False r (Some i) qs ls"
        "hd qs = hd is" "set qs \<subseteq> set is \<union> {w_next w..<w_next w1}"
        "\<forall>j. j \<notin> set qs \<longrightarrow> w_heap w1 j = (if j \<in> set is then None else w_heap w j)"
        unfolding Waits resume_post.simps by blast
      have qs: "i \<notin> set qs" "qs \<noteq> []" using w1(6) c(2) lt waiting_chain_length[OF w1(4)] by auto
      then have "waiting_chain (w_heap w1) False r ph (i # qs) (k # ls)"
        using w1(4,5,7) c(1,2) by (auto simp: waiting_frame_def is_eq split: list.split)
      moreover have "set (i # qs) \<subseteq> set (i # is) \<union> {w_next w..<w_next w1}" using w1(6) by auto
      ultimately have "resume_post w r ph (i # is) n v (Waits (k # ls) t)"
        using w1(1-3,7) c(2) False unfolding resume_post.simps
        by (intro exI[of _ w1] exI[of _ "i # qs"]) auto
      then show ?thesis using resume_chain_Cons[OF ks', of k v "w_user w"] by (simp add: ks Waits)
    next
      case (Ended x t)
      from ih obtain w1 where w1: "resume_task (Suc n + length is) (last is) v w = rise (Suc n) (Some i) v w1"
        "w_user w1 = t" "w_next w \<le> w_next w1"
        "w_heap w1 = (\<lambda>l. if l = hd is then Some (done_frame r (Some i) (hd is) x)
                          else if l \<in> set is then None else w_heap w l)"
        unfolding Ended resume_post.simps by blast
      have go: "resume_task (n + length (i # is)) (last (i # is)) v w = resume_task (Suc n) i v w1"
        using w1(1) False by (simp add: rise_def del: resume_task.simps)
      have h1: "w_heap w1 i = Some (waiting_frame False r ph i k is)" "w_heap w1 j = Some (done_frame r (Some i) j x)"
        "w_heap w1 r = Some g" "i \<noteq> j"
        using c r Cons.prems(4) by (auto simp: w1(4) is_eq)
      have mem: "w_heap w l \<noteq> None" if "l \<in> set is" for l using waiting_chain_mem[OF c(3) that] .
      define w2 where "w2 = free_coro j (set_coro i (waiting_frame False r ph i k []) w1)"
      have d: "drop_child i w1 = Some w2"
        using drop_child_done[OF h1(1) _ h1(2) _ h1(4)]
        by (simp add: w2_def waiting_frame_def is_eq done_frame_def coro_done_def)
      have h2: "w_heap w2 i = Some (waiting_frame False r ph i k [])" "w_user w2 = t" "w_next w2 = w_next w1"
        "\<And>l. l \<noteq> i \<Longrightarrow> w_heap w2 l = (if l \<in> set is then None else w_heap w l)"
        using h1(4) w1(2) by (auto simp: w2_def w1(4) is_eq)
      have fr2: "fresh_above w2"
        using Cons.prems(2) w1(3) lt h2 by (auto simp: fresh_above_def)
      have run2: "runnable w2 i (waiting_frame False r ph i k []) r"
        using h2 r(1) Cons.prems(4,5) fr2
        by (cases "i = r") (auto simp: runnable_def waiting_frame_def)
      have nc: "is_canceled i w1 = Some False"
        using h1 Cons.prems(5) by (auto simp: is_canceled_def waiting_frame_def)
      have one: "resume_one i v w1 =
          (case x of Exc e \<Rightarrow> finish i (Exc e) w2 | Val u \<Rightarrow> exec (k u) i w2 | NoResult \<Rightarrow> None)"
        using h1(1,2) nc d
        by (simp add: resume_one_def waiting_frame_def is_eq await_resume_task_def done_frame_def throw_in_def
            split: result.split)
      let ?p = "case x of Exc e \<Rightarrow> Ended (Exc e) t | Val u \<Rightarrow> run_body (k u) t | NoResult \<Rightarrow> Ended NoResult t"
      have b: "\<forall>ls u. ?p = Waits ls u \<longrightarrow> ls \<noteq> []"
        by (auto dest: run_body_waits split: result.splits)
      obtain w3 where w3: "resume_one i v w1 = Some w3" "exec_post w2 i (waiting_frame False r ph i k []) r ?p w3"
      proof (cases x)
        case NoResult
        then show ?thesis using resume_chain_result[OF Ended] by simp
      next
        case (Val u)
        then show ?thesis using that exec_spec[OF run2, of "k u"] one h2(2) by auto
      next
        case (Exc e)
        then show ?thesis using that finish_runnable[OF run2, of "Exc e"] one h2(2) by auto
      qed
      have i2: "i < w_next w2" using lt w1(3) h2(3) by simp
      note a = after_exec[OF w3 b i2, where n = n]
      have post: "resume_post w r ph (i # is) n v ?p"
      proof (cases ?p)
        case (Ended y u)
        then show ?thesis using a h2 w1(3) c(2) unfolding Ended resume_post.simps go
          by (intro exI[of _ w3]) (auto simp: fun_eq_iff simp del: resume_task.simps)
      next
        case (Waits ls u)
        then obtain qs where qs: "waiting_chain (w_heap w3) False r ph (i # qs) ls"
          "set qs \<subseteq> {w_next w2..<w_next w3}" "\<forall>l. l \<noteq> i \<and> l \<notin> set qs \<longrightarrow> w_heap w3 l = w_heap w2 l"
          "resume_task (Suc n) i v w1 = Some w3" "w_user w3 = u" "w_next w2 \<le> w_next w3" using a by auto
        then show ?thesis using h2 w1(3) unfolding Waits resume_post.simps go
          by (intro exI[of _ w3] exI[of _ "i # qs"]) (auto simp del: resume_task.simps)
      qed
      show ?thesis using post resume_chain_Cons[OF ks', of k v "w_user w"]
        by (simp add: ks Ended del: resume_task.simps split: result.splits)
    qed
  qed
qed

subsection \<open>Cancellation\<close>

text \<open>What the heap looks like when the tasks \<open>is\<close> have ended up to the first of them.\<close>

definition unwound :: "nat \<Rightarrow> nat option \<Rightarrow> nat list \<Rightarrow> ('s, 'v) world \<Rightarrow> ('s, 'v) world" where
  "unwound r ph is w =
     w\<lparr>w_heap := (\<lambda>j. if j = hd is then Some (done_frame r ph (hd is) (Exc CanceledException))
                      else if j \<in> set is then None else w_heap w j)\<rparr>"

lemma throw_in_leaf:
  "w_heap w i = Some (waiting_frame c r ph i k []) \<Longrightarrow> throw_in i x w = finish i (Exc x) w"
  by (simp add: throw_in_def drop_child_def waiting_frame_def)

lemma throw_in_parent:
  assumes "w_heap w i = Some (waiting_frame c r ph i k (j # js))" "w_heap w j = Some (done_frame r (Some i) j y)" "i \<noteq> j"
  shows "throw_in i x w = finish i (Exc x) (free_coro j (set_coro i (waiting_frame c r ph i k []) w))"
  using drop_child_done[OF assms(1) _ assms(2) _ assms(3)]
  by (simp add: throw_in_def waiting_frame_def done_frame_def coro_done_def)

lemma resume_one_canceled:
  assumes "w_heap w i = Some (waiting_frame True r ph i k js)" "w_heap w r = Some g" "pr_canceled g"
  shows "resume_one i v w = throw_in i CanceledException w"
  using assms by (auto simp: resume_one_def is_canceled_def waiting_frame_def)

lemma canceled_rise:
  "waiting_chain (w_heap w) True r ph is ks \<Longrightarrow> r \<notin> set is \<Longrightarrow> w_heap w r = Some g \<Longrightarrow> pr_canceled g \<Longrightarrow>
   resume_task (n + length is) (last is) v w = rise n ph v (unwound r ph is w)"
proof (induction "is" arbitrary: ph ks n)
  case Nil
  then show ?case by simp
next
  case (Cons i "is")
  then obtain k ks' where ks: "ks = k # ks'" by (cases ks) auto
  have c: "w_heap w i = Some (waiting_frame True r ph i k is)" "i \<notin> set is" "i \<noteq> r"
    using Cons.prems(1,2) by (auto simp: ks)
  show ?case
  proof (cases "is = []")
    case True
    have "resume_one i v w = Some (unwound r ph [i] w)"
      using resume_one_canceled[OF c(1) Cons.prems(3,4), of v] throw_in_leaf[of w i True r ph k] c True
      by (simp add: finish_def waiting_frame_def unwound_def done_frame_def set_coro_def fun_eq_iff)
    then show ?thesis using resume_task_ends[of i v w "unwound r ph [i] w" r ph "Exc CanceledException" n] True
      by (simp add: unwound_def del: resume_task.simps)
  next
    case False
    then obtain j js where is_eq: "is = j # js" by (cases "is") auto
    have ch: "waiting_chain (w_heap w) True r (Some i) is ks'" using Cons.prems(1) False by (simp add: ks)
    let ?w1 = "unwound r (Some i) is w"
    have go: "resume_task (n + length (i # is)) (last (i # is)) v w = resume_task (Suc n) i v ?w1"
      using Cons.IH[OF ch _ Cons.prems(3,4), of "Suc n"] Cons.prems(2) False
      by (simp add: rise_def del: resume_task.simps)
    have h: "w_heap ?w1 i = Some (waiting_frame True r ph i k (j # js))"
      "w_heap ?w1 j = Some (done_frame r (Some i) j (Exc CanceledException))" "i \<noteq> j" "w_heap ?w1 r = Some g"
      using c Cons.prems(2,3) by (auto simp: unwound_def is_eq)
    have "resume_one i v ?w1 = Some (unwound r ph (i # is) w)"
      unfolding resume_one_canceled[OF h(1,4) Cons.prems(4)] throw_in_parent[OF h(1-3)]
      using c h(3) by (simp add: finish_def waiting_frame_def unwound_def done_frame_def set_coro_def
          free_coro_def is_eq fun_eq_iff)
    from resume_task_ends[OF this, of r ph "Exc CanceledException" n] show ?thesis
      unfolding go by (simp add: unwound_def del: resume_task.simps)
  qed
qed

lemma canceled_root:
  assumes "waiting_chain (w_heap w) True r None (r # is) ks"
  shows "resume_task (n + length (r # is)) (last (r # is)) v w =
         Some (w\<lparr>w_heap := (\<lambda>j. if j \<in> set (r # is) then None else w_heap w j)\<rparr>)"
proof -
  obtain k ks' where ks: "ks = k # ks'" using assms by (cases ks) auto
  have c: "w_heap w r = Some (waiting_frame True r None r k is)" "r \<notin> set is"
    "is = [] \<or> waiting_chain (w_heap w) True r (Some r) is ks'" using assms by (auto simp: ks)
  have g: "pr_canceled (waiting_frame True r None r k is)" by (simp add: waiting_frame_def)
  show ?thesis
  proof (cases "is")
    case Nil
    have "resume_one r v w = Some (free_coro r w)"
      using resume_one_canceled[OF c(1) c(1) g, of v] throw_in_leaf[of w r True r None k] c(1) Nil
      by (simp add: finish_def waiting_frame_def)
    then show ?thesis by (simp add: Nil free_coro_def fun_upd_def)
  next
    case (Cons j js)
    let ?w1 = "unwound r (Some r) is w"
    have ch: "waiting_chain (w_heap w) True r (Some r) is ks'" using c(3) Cons by simp
    have go: "resume_task (n + length (r # is)) (last (r # is)) v w = resume_task (Suc n) r v ?w1"
      using canceled_rise[OF ch c(2,1) g, of "Suc n" v] Cons by (simp add: rise_def del: resume_task.simps)
    have h: "w_heap ?w1 r = Some (waiting_frame True r None r k (j # js))"
      "w_heap ?w1 j = Some (done_frame r (Some r) j (Exc CanceledException))" "r \<noteq> j"
      using c(1,2) by (auto simp: unwound_def Cons)
    have g2: "pr_canceled (waiting_frame True r None r k (j # js))" by (simp add: waiting_frame_def)
    have "resume_one r v ?w1 = Some (w\<lparr>w_heap := (\<lambda>j. if j \<in> set (r # is) then None else w_heap w j)\<rparr>)"
      unfolding resume_one_canceled[OF h(1,1) g2] throw_in_parent[OF h]
      using c h(3) by (simp add: finish_def waiting_frame_def unwound_def set_coro_def free_coro_def Cons fun_eq_iff)
    then show ?thesis unfolding go by simp
  qed
qed

text \<open>The handle of a waiting root task dies.\<close>

lemma drop_waiting_root:
  assumes "waiting_chain (w_heap w) False r None (r # is) ks"
  shows "\<exists>w1. drop_handle r w = Some w1 \<and> waiting_chain (w_heap w1) True r None (r # is) ks \<and>
              w_user w1 = w_user w \<and> (\<forall>j. j \<noteq> r \<longrightarrow> w_heap w1 j = w_heap w j)"
proof -
  obtain k ks' where ks: "ks = k # ks'" using assms by (cases ks) auto
  let ?f = "waiting_frame True r None r k is"
  have c: "w_heap w r = Some (waiting_frame False r None r k is)" "r \<notin> set is"
    "is = [] \<and> ks' = [] \<or> waiting_chain (w_heap w) False r (Some r) is ks'" using assms by (auto simp: ks)
  have flag: "waiting_chain h False r ph js ls \<Longrightarrow> r \<notin> set js \<Longrightarrow> waiting_chain h True r ph js ls" for h ph js ls
    by (induction h False r ph js ls rule: waiting_chain.induct) (auto simp: waiting_frame_def)
  have "waiting_chain (w_heap (set_coro r ?f w)) True r (Some r) is ks'"
    if "waiting_chain (w_heap w) False r (Some r) is ks'"
    using flag[OF that c(2)] by (rule waiting_chain_cong) (use c(2) in auto)
  then have "waiting_chain (w_heap (set_coro r ?f w)) True r None (r # is) ks" using c by (auto simp: ks)
  moreover have "drop_handle r w = Some (set_coro r ?f w)"
    using c(1) by (simp add: drop_handle_def coro_done_def waiting_frame_def)
  ultimately show ?thesis by auto
qed

subsection \<open>The owner of root tasks\<close>

definition task_failed :: "('s, 'v) world \<Rightarrow> nat \<Rightarrow> bool" where
  "task_failed w t \<longleftrightarrow> (\<exists>f x. w_heap w t = Some f \<and> coro_done f \<and> pr_value f = Exc x)"

text \<open>The handles of an owner name pairwise different frames that are there.\<close>

definition owned :: "('s, 'v) world \<Rightarrow> nat list \<Rightarrow> bool" where
  "owned w ts \<longleftrightarrow> distinct ts \<and> (\<forall>t \<in> set ts. w_heap w t \<noteq> None)"

lemma ensure_no_exception_ok: "\<not> task_failed w t \<Longrightarrow> ensure_no_exception t w = (None, w)"
  by (auto simp: ensure_no_exception_def task_failed_def split: option.splits result.splits)

lemma rethrow_none: "\<forall>t \<in> set ts. \<not> task_failed w t \<Longrightarrow> rethrow_exceptions ts w = (None, w)"
  by (induction ts) (simp_all add: ensure_no_exception_ok)

lemma rethrow_first:
  "\<forall>t \<in> set ts. \<not> task_failed w t \<Longrightarrow> w_heap w u = Some f \<Longrightarrow> coro_done f \<Longrightarrow> pr_value f = Exc x \<Longrightarrow>
   rethrow_exceptions (ts @ u # us) w = (Some x, set_coro u (f\<lparr>pr_value := NoResult\<rparr>) w)"
  by (induction ts) (simp_all add: ensure_no_exception_ok, simp add: ensure_no_exception_def)

text \<open>The world without the frames of the tasks \<open>ts\<close> that are done.\<close>

definition without_done :: "nat list \<Rightarrow> ('s, 'v) world \<Rightarrow> ('s, 'v) world" where
  "without_done ts w =
     w\<lparr>w_heap := (\<lambda>u. if u \<in> set ts \<and> \<not> task_running w u then None else w_heap w u)\<rparr>"

lemma erase_done_spec:
  "owned w ts \<Longrightarrow> erase_done ts w = Some (filter (task_running w) ts, without_done ts w)"
proof (induction ts arbitrary: w)
  case Nil
  then show ?case by (simp add: without_done_def)
next
  case (Cons t ts)
  obtain f where f: "w_heap w t = Some f" "t \<notin> set ts" using Cons.prems by (auto simp: owned_def)
  show ?case
  proof (cases "task_running w t")
    case True
    have "owned w ts" using Cons.prems by (simp add: owned_def)
    moreover have "(\<lambda>u. if u \<in> set (t # ts) \<and> \<not> task_running w u then None else w_heap w u) =
                   (\<lambda>u. if u \<in> set ts \<and> \<not> task_running w u then None else w_heap w u)"
      using True by (intro ext) auto
    then have "without_done (t # ts) w = without_done ts w" by (simp only: without_done_def)
    ultimately show ?thesis using Cons.IH[of w] True by simp
  next
    case False
    have r: "task_running (free_coro t w) u = task_running w u" if "u \<in> set ts" for u
      using that f by (auto simp: task_running_def)
    have o: "owned (free_coro t w) ts" using Cons.prems f by (auto simp: owned_def)
    have d: "drop_handle t w = Some (free_coro t w)"
      using False f by (simp add: task_running_def drop_handle_def)
    have "(\<lambda>u. if u \<in> set ts \<and> \<not> task_running (free_coro t w) u then None else ((w_heap w)(t := None)) u) =
                   (\<lambda>u. if u \<in> set (t # ts) \<and> \<not> task_running w u then None else w_heap w u)"
      using False r by (intro ext) auto
    moreover have "(free_coro t w)\<lparr>w_heap := h\<rparr> = w\<lparr>w_heap := h\<rparr>" for h by (simp add: free_coro_def)
    ultimately have "without_done ts (free_coro t w) = without_done (t # ts) w"
      by (simp only: without_done_def free_coro_simps)
    moreover have "filter (task_running (free_coro t w)) ts = filter (task_running w) ts"
      using r by (auto intro: filter_cong)
    ultimately show ?thesis using Cons.IH[of "free_coro t w"] o d False by simp
  qed
qed

lemma find_first: "\<forall>y \<in> set us. \<not> P y \<Longrightarrow> P x \<Longrightarrow> find P (us @ x # vs) = Some x"
  by (induction us) auto

text \<open>
  A task that awaits another one, which adds what it is resumed with to the program's state and returns
  the old state; the first task then waits once more and returns the sum of both.
\<close>

definition sample_inner :: "nat \<Rightarrow> (nat, nat) body" where
  "sample_inner v = Act (\<lambda>s. (s + v, s)) Ret"

definition sample_outer :: "nat \<Rightarrow> (nat, nat) body" where
  "sample_outer u = Await (\<lambda>v. Ret (u + v))"

definition sample_world :: "(nat, nat) world" where
  "sample_world =
     \<lparr>w_heap = [0 \<mapsto> waiting_frame False 0 None 0 sample_outer [1],
                1 \<mapsto> waiting_frame False 0 (Some 0) 1 sample_inner []],
      w_next = 2, w_user = 10\<rparr>"

lemma sample_chain: "waiting_chain (w_heap sample_world) False 0 None (0 # [1]) [sample_outer, sample_inner]"
  by (simp add: sample_world_def)

lemma sample_fresh: "fresh_above sample_world"
  by (simp add: fresh_above_def sample_world_def)

subsection \<open>Properties\<close>

lemma start_frame_runnable:
  assumes "fresh_above w" "create_task b w = (i, w1)"
  shows "runnable w1 i \<lparr>pr_canceled = False, pr_parentCanceled = None, pr_parentHandle = None, pr_value = NoResult,
                        fr_code = Some (\<lambda>_. b), fr_child = None\<rparr> i \<and>
         run_task i w1 = exec b i w1 \<and> w_user w1 = w_user w \<and> i < w_next w1"
proof -
  have r: "runnable w1 i \<lparr>pr_canceled = False, pr_parentCanceled = None, pr_parentHandle = None, pr_value = NoResult,
                        fr_code = Some (\<lambda>_. b), fr_child = None\<rparr> i"
    using assms by (auto simp: create_task_def runnable_def fresh_above_def)
  moreover have "w_user w1 = w_user w \<and> i < w_next w1" using assms by (auto simp: create_task_def)
  ultimately show ?thesis using runnable_is_canceled[OF r]
    by (auto simp: run_task_def resume_one_def runnable_def)
qed

text \<open>
  C24. Starting a task runs its body, with the bodies of the tasks it awaits in place, up to the first
  point at which one of them has to wait: the heap then holds exactly the chain of their continuations,
  or the result of the task when it has ended, and nothing else.
\<close>

theorem task_start_refines:
  assumes "fresh_above w" "create_task b w = (i, w1)"
  shows "\<exists>w2. run_task i w1 = Some w2 \<and> fresh_above w2 \<and> (\<forall>j < w_next w. w_heap w2 j = w_heap w j) \<and>
          (case run_body b (w_user w) of
             Ended x t \<Rightarrow> w_user w2 = t \<and> w_heap w2 = (w_heap w)(i \<mapsto> done_frame i None i x)
           | Waits ks t \<Rightarrow> w_user w2 = t \<and> (\<exists>is. waiting_chain (w_heap w2) False i None (i # is) ks))"
proof -
  note s = start_frame_runnable[OF assms]
  let ?f = "\<lparr>pr_canceled = False, pr_parentCanceled = None, pr_parentHandle = None, pr_value = NoResult,
             fr_code = Some (\<lambda>_. b), fr_child = None\<rparr>"
  obtain w2 where w2: "exec b i w1 = Some w2" "exec_post w1 i ?f i (run_body b (w_user w)) w2"
    using exec_spec[of w1 i ?f i b] s by auto
  have fr: "fresh_above w1" "i < w_next w1" "w_next w1 = Suc (w_next w)" "i = w_next w"
    using s assms(2) by (auto simp: runnable_def create_task_def)
  have h1: "w_heap w1 = (w_heap w)(i \<mapsto> ?f)" using assms(2) by (auto simp: create_task_def)
  note old = exec_post_frame[OF w2(2) fr(1,2)]
  have "case run_body b (w_user w) of
             Ended x t \<Rightarrow> w_user w2 = t \<and> w_heap w2 = (w_heap w)(i \<mapsto> done_frame i None i x)
           | Waits ks t \<Rightarrow> w_user w2 = t \<and> (\<exists>is. waiting_chain (w_heap w2) False i None (i # is) ks)"
  proof (cases "run_body b (w_user w)")
    case (Ended x t)
    then show ?thesis using w2(2) h1 by (simp add: done_frame_def)
  next
    case (Waits ks t)
    obtain l ls where ks: "ks = l # ls" using run_body_waits[OF Waits] by (cases ks) auto
    obtain js where js: "set js \<subseteq> {w_next w1..<w_next w2}" "w_user w2 = t"
      "w_heap w2 i = Some (waiting_frame False i None i l js)"
      "js = [] \<and> ls = [] \<or> waiting_chain (w_heap w2) False i (Some i) js ls"
      using w2(2) by (auto simp: Waits ks waiting_frame_def)
    then have "waiting_chain (w_heap w2) False i None (i # js) ks" using fr(2) by (auto simp: ks)
    then show ?thesis using js(2) by (auto simp: Waits)
  qed
  moreover have "\<forall>j < w_next w. w_heap w2 j = w_heap w j" using old h1 fr(3,4) by auto
  ultimately show ?thesis using w2(1) s old by auto
qed

theorem task_start_refines_witness:
  "\<exists>w is. run_task 0 (snd (create_task (AwaitTask (Await sample_inner) sample_outer)
                        \<lparr>w_heap = Map.empty, w_next = 0, w_user = 10\<rparr>)) = Some w \<and> w_user w = 10 \<and>
          waiting_chain (w_heap w) False 0 None (0 # is) [sample_outer, sample_inner]"
proof -
  let ?b = "AwaitTask (Await sample_inner) sample_outer"
  let ?w = "\<lparr>w_heap = Map.empty, w_next = 0, w_user = 10\<rparr>"
  have c: "create_task ?b ?w = (0, snd (create_task ?b ?w))" by (simp add: create_task_def)
  have f: "fresh_above ?w" by (simp add: fresh_above_def)
  show ?thesis using task_start_refines[OF f c] by auto
qed

text \<open>
  C10. Resuming the innermost coroutine of a waiting task, with as much fuel as coroutines wait, goes on
  as its continuations do, each getting the value of the next one or its exception: no dead frame is
  touched, the frames of the tasks that end are freed, and no other frame changes.
\<close>

theorem task_resume_refines:
  assumes "waiting_chain (w_heap w) False r None (r # is) ks" "fresh_above w" "length (r # is) \<le> n"
  shows "\<exists>w1. resume_task n (last (r # is)) v w = Some w1 \<and>
          (case resume_chain ks v (w_user w) of
             Ended x t \<Rightarrow> w_user w1 = t \<and>
               w_heap w1 = (\<lambda>j. if j = r then Some (done_frame r None r x)
                                else if j \<in> set is then None else w_heap w j)
           | Waits js t \<Rightarrow> w_user w1 = t \<and>
               (\<exists>ls. waiting_chain (w_heap w1) False r None (r # ls) js \<and>
                     (\<forall>j. j \<notin> set (r # ls) \<longrightarrow> w_heap w1 j = (if j \<in> set is then None else w_heap w j))))"
proof -
  obtain k ks' where ks: "ks = k # ks'" using assms(1) by (cases ks) auto
  have c: "w_heap w r = Some (waiting_frame False r None r k is)" "r \<notin> set (tl (r # is))"
    "\<not> pr_canceled (waiting_frame False r None r k is)"
    using assms(1) by (auto simp: ks waiting_frame_def)
  obtain m where m: "n = m + length (r # is)" using assms(3) le_Suc_ex by (metis add.commute)
  note p = resume_post_chain[OF assms(1,2) c(2,1,3), of m v]
  show ?thesis
  proof (cases "resume_chain ks v (w_user w)")
    case (Ended x t)
    then show ?thesis using p unfolding m Ended resume_post.simps rise_def
      by (auto simp: fun_eq_iff simp del: resume_task.simps)
  next
    case (Waits js t)
    then obtain w1 ls where w1: "resume_task n (last (r # is)) v w = Some w1" "w_user w1 = t"
      "waiting_chain (w_heap w1) False r None ls js" "hd ls = r"
      "\<forall>j. j \<notin> set ls \<longrightarrow> w_heap w1 j = (if j \<in> set (r # is) then None else w_heap w j)"
      using p unfolding m Waits resume_post.simps by auto
    obtain qs where "ls = r # qs" using w1(4) waiting_chain_length[OF w1(3)] by (cases ls) auto
    then show ?thesis using w1 by (auto simp: Waits simp del: resume_task.simps)
  qed
qed

theorem task_resume_refines_witness:
  "\<exists>w. resume_task 2 1 5 sample_world = Some w \<and> w_user w = 15 \<and>
       (\<exists>ls k. waiting_chain (w_heap w) False 0 None (0 # ls) [k] \<and> k 7 = Ret 17)"
proof -
  have r: "resume_chain [sample_outer, sample_inner] 5 (w_user sample_world) = Waits [\<lambda>v. Ret (10 + v)] 15"
    by (simp add: sample_outer_def sample_inner_def sample_world_def)
  have l: "length (0 # [1 :: nat]) \<le> 2" by simp
  obtain w ls where "resume_task 2 1 5 sample_world = Some w" "w_user w = 15"
    "waiting_chain (w_heap w) False 0 None (0 # ls) [\<lambda>v. Ret (10 + v)]"
    using task_resume_refines[OF sample_chain sample_fresh l, of 5] unfolding r by auto
  then show ?thesis by (intro exI[of _ w] conjI exI[of _ ls] exI[of _ "\<lambda>v. Ret (10 + v)"]) simp_all
qed

text \<open>
  C11. When the handle of a waiting root task dies, nothing of the task's bodies is executed any more:
  whenever what it waits for comes, in whatever state the program then is, the resumption only unwinds
  the task, frees all of its frames and leaves the rest of the world as it was.
\<close>

theorem canceled_task_inert:
  assumes "waiting_chain (w_heap w) False r None (r # is) ks" "drop_handle r w = Some w1"
    and "\<forall>j \<in> set (r # is). w_heap w2 j = w_heap w1 j" "length (r # is) \<le> n"
  shows "resume_task n (last (r # is)) v w2 =
         Some (w2\<lparr>w_heap := (\<lambda>j. if j \<in> set (r # is) then None else w_heap w2 j)\<rparr>)"
proof -
  have "waiting_chain (w_heap w1) True r None (r # is) ks"
    using drop_waiting_root[OF assms(1)] assms(2) by auto
  then have c: "waiting_chain (w_heap w2) True r None (r # is) ks"
    by (rule waiting_chain_cong) (use assms(3) in blast)
  obtain m where m: "n = m + length (r # is)" using assms(4) le_Suc_ex by (metis add.commute)
  show ?thesis unfolding m using c by (rule canceled_root)
qed

theorem canceled_task_inert_witness:
  "\<exists>w1. drop_handle 0 sample_world = Some w1 \<and>
        resume_task 2 1 5 (w1\<lparr>w_user := 99\<rparr>) = Some \<lparr>w_heap = Map.empty, w_next = 2, w_user = 99\<rparr>"
proof -
  obtain w1 where d: "drop_handle 0 sample_world = Some w1"
    using drop_waiting_root[OF sample_chain] by blast
  then have w1: "w_next w1 = 2" "\<And>j. j \<notin> {0, 1} \<Longrightarrow> w_heap w1 j = None"
    by (auto simp: drop_handle_def sample_world_def coro_done_def waiting_frame_def)
  have h: "(\<lambda>j. if j \<in> set (0 # [1]) then None else w_heap (w1\<lparr>w_user := 99\<rparr>) j) = Map.empty"
    using w1(2) by (intro ext) auto
  have "resume_task 2 (last (0 # [1])) 5 (w1\<lparr>w_user := 99\<rparr>) =
        Some ((w1\<lparr>w_user := 99\<rparr>)\<lparr>w_heap := (\<lambda>j. if j \<in> set (0 # [1]) then None else w_heap (w1\<lparr>w_user := 99\<rparr>) j)\<rparr>)"
    by (rule canceled_task_inert[OF sample_chain d]) simp_all
  then have "resume_task 2 1 5 (w1\<lparr>w_user := 99\<rparr>) = Some ((w1\<lparr>w_user := 99\<rparr>)\<lparr>w_heap := Map.empty\<rparr>)"
    unfolding h by simp
  then show ?thesis using d w1(1) by (cases w1) simp
qed

text \<open>
  C25. \<open>StartRootTask\<close> runs the new task after it has destroyed the frames of the tasks that are done, and
  keeps the running ones in their order.  When one of its tasks has ended with an exception, the first
  such exception is rethrown instead, once, and the new task is canceled before it has begun.
\<close>

theorem start_root_task_spec:
  assumes "owned w (ts @ [t])" "w_heap w t = Some g" "\<not> coro_done g"
  shows "case find (task_failed w) ts of
           None \<Rightarrow> start_root_task t ts w =
             map_option (\<lambda>w1. (None, filter (task_running w) ts @ [t], w1)) (run_task t (without_done ts w))
         | Some u \<Rightarrow> \<exists>f x. w_heap w u = Some f \<and> pr_value f = Exc x \<and>
             start_root_task t ts w =
               Some (Some x, ts, set_coro t (g\<lparr>pr_canceled := True\<rparr>) (set_coro u (f\<lparr>pr_value := NoResult\<rparr>) w))"
proof (cases "find (task_failed w) ts")
  case None
  then have "\<forall>u \<in> set ts. \<not> task_failed w u" by (auto simp: find_None_iff)
  then show ?thesis using rethrow_none[of ts w] erase_done_spec[of w ts] assms(1) None
    by (simp add: start_root_task_def owned_def)
next
  case (Some u)
  then have "\<exists>y \<in> set ts. task_failed w y" by (metis find_None_iff option.distinct(1))
  then obtain us y vs where y: "ts = us @ y # vs" "task_failed w y" "\<forall>x \<in> set us. \<not> task_failed w x"
    by (rule split_list_first_propE)
  then have "y = u" using Some find_first[of us "task_failed w" y vs] by simp
  then have u: "ts = us @ u # vs" "task_failed w u" "\<forall>x \<in> set us. \<not> task_failed w x" using y by simp_all
  then obtain f x where f: "w_heap w u = Some f" "coro_done f" "pr_value f = Exc x" by (auto simp: task_failed_def)
  have "u \<noteq> t" using assms(1) u(1) by (auto simp: owned_def)
  then have "start_root_task t ts w =
             Some (Some x, ts, set_coro t (g\<lparr>pr_canceled := True\<rparr>) (set_coro u (f\<lparr>pr_value := NoResult\<rparr>) w))"
    using rethrow_first[OF u(3) f, of vs] u(1) assms(2,3) by (simp add: start_root_task_def drop_handle_def)
  then show ?thesis using Some f by auto
qed

theorem start_root_task_spec_witness:
  "let e = \<lparr>pr_canceled = False, pr_parentCanceled = None, pr_parentHandle = None, pr_value = Exc OtherException,
            fr_code = None, fr_child = None\<rparr>;
       g = \<lparr>pr_canceled = False, pr_parentCanceled = None, pr_parentHandle = None, pr_value = NoResult,
            fr_code = Some sample_inner, fr_child = None\<rparr>
   in start_root_task 1 [0] \<lparr>w_heap = [0 \<mapsto> e, 1 \<mapsto> g], w_next = 2, w_user = 10 :: nat\<rparr> =
        Some (Some OtherException, [0],
              \<lparr>w_heap = [0 \<mapsto> e\<lparr>pr_value := NoResult\<rparr>, 1 \<mapsto> g\<lparr>pr_canceled := True\<rparr>], w_next = 2, w_user = 10\<rparr>)"
proof -
  let ?e = "\<lparr>pr_canceled = False, pr_parentCanceled = None, pr_parentHandle = None, pr_value = Exc OtherException,
            fr_code = None, fr_child = None\<rparr>"
  let ?g = "\<lparr>pr_canceled = False, pr_parentCanceled = None, pr_parentHandle = None, pr_value = NoResult,
            fr_code = Some sample_inner, fr_child = None\<rparr>"
  let ?w = "\<lparr>w_heap = [0 \<mapsto> ?e, 1 \<mapsto> ?g], w_next = 2, w_user = 10 :: nat\<rparr>"
  have a: "owned ?w ([0] @ [1])" "w_heap ?w 1 = Some ?g" "\<not> coro_done ?g"
    by (simp_all add: owned_def coro_done_def)
  have "find (task_failed ?w) [0] = Some 0" by (simp add: task_failed_def coro_done_def)
  then show ?thesis using start_root_task_spec[OF a] by (auto simp: set_coro_def fun_upd_twist)
qed

end
