(* ===== verification/Any_Of.thy ===== *)
theory Any_Of
  imports Tasks
begin

text \<open>
  \<open>AnyOf\<close> of utils/taskutils.hpp: a task that runs several tasks, each in a wrapper, and returns what
  the first one to succeed returns.  A task shows as what it comes to, a value or an exception, and
  \<open>NoResult\<close> stands for a task that suspends; theory Tasks has the details of promises and handles.  The
  values of the tasks have one type here, the index says which task it was.  A task that suspends when
  it is started is taken not to end before all of them are started.
\<close>

subsection \<open>Wrappers\<close>

text \<open>
  The coroutine of \<open>TaskWrapper\<close>: not started, suspended at its task or running, both with its flag
  \<open>canceled\<close>, at its final suspension point, possibly with an exception, or destroyed.  \<open>AnyOf\<close> runs the
  wrappers without a parent, so this flag is all that cancels them.
\<close>

datatype wrapper =
    Created
  | Waiting bool
  | Running bool
  | Finished "task_exn option"
  | Freed

text \<open>
  The destructor of a handle.  It also asks a wrapper that is running whether it is done; strictly
  that is undefined, and the compilers' coroutines answer no.
\<close>

fun drop_wrapper :: "wrapper \<Rightarrow> wrapper" where
  "drop_wrapper Created = Waiting True"
| "drop_wrapper (Waiting _) = Waiting True"
| "drop_wrapper (Running _) = Running True"
| "drop_wrapper (Finished _) = Freed"
| "drop_wrapper Freed = Freed"

text \<open>A wrapper comes to its end: \<open>final_suspend\<close>.\<close>

fun end_wrapper :: "task_exn option \<Rightarrow> wrapper \<Rightarrow> wrapper" where
  "end_wrapper x (Running c) = (if c then Freed else Finished x)"
| "end_wrapper x w = w"

subsection \<open>The coroutine\<close>

text \<open>
  \<open>ao_suspended\<close>: \<open>AnyOf\<close> is at its \<open>suspend_always\<close> and \<open>thisHandle\<close> is set.  \<open>ao_result\<close> is what its
  promise holds.
\<close>

record 'v any_of =
  ao_ret :: "(nat \<times> 'v) option"
  ao_suspended :: bool
  ao_result :: "(nat \<times> 'v) result"
  ao_handles :: "wrapper list"

definition set_wrapper :: "nat \<Rightarrow> wrapper \<Rightarrow> 'v any_of \<Rightarrow> 'v any_of" where
  "set_wrapper i w s = s\<lparr>ao_handles := (ao_handles s)[i := w]\<rparr>"

text \<open>The end of \<open>AnyOf\<close>, with \<open>*ret\<close> or an exception: its local variables are destroyed.\<close>

definition end_any :: "(nat \<times> 'v) result \<Rightarrow> 'v any_of \<Rightarrow> 'v any_of" where
  "end_any r s = s\<lparr>ao_suspended := False, ao_result := r, ao_handles := map drop_wrapper (ao_handles s)\<rparr>"

text \<open>
  \<open>AnyOf\<close> goes on with \<open>co_return *ret\<close>, unless the awaiter finds it canceled, which is \<open>c\<close>.
\<close>

definition resume_any :: "bool \<Rightarrow> 'v any_of \<Rightarrow> 'v any_of" where
  "resume_any c s =
     (if c then end_any (Exc CanceledException) s
      else end_any (case ao_ret s of None \<Rightarrow> NoResult | Some p \<Rightarrow> Val p) s)"

text \<open>A wrapper is run; \<open>r\<close> says how its task starts, if it does.\<close>

definition run_wrapper :: "nat \<Rightarrow> 'v result \<Rightarrow> 'v any_of \<Rightarrow> 'v any_of" where
  "run_wrapper i r s =
     (if ao_ret s \<noteq> None then set_wrapper i (Finished None) s
      else (case r of
              NoResult \<Rightarrow> set_wrapper i (Waiting False) s
            | Exc x \<Rightarrow> set_wrapper i (Finished (Some x)) s
            | Val v \<Rightarrow> (set_wrapper i (Finished None) s)\<lparr>ao_ret := Some (i, v)\<rparr>))"

text \<open>The loop that runs the wrappers.\<close>

fun run_wrappers :: "nat \<Rightarrow> 'v result list \<Rightarrow> 'v any_of \<Rightarrow> 'v any_of" where
  "run_wrappers i [] s = s"
| "run_wrappers i (r # rs) s = run_wrappers (Suc i) rs (run_wrapper i r s)"

definition any_of_init :: "nat \<Rightarrow> 'v any_of" where
  "any_of_init n = \<lparr>ao_ret = None, ao_suspended = False, ao_result = NoResult, ao_handles = replicate n Created\<rparr>"

definition start_any_of :: "bool \<Rightarrow> 'v result list \<Rightarrow> 'v any_of" where
  "start_any_of c rs =
     (let s = run_wrappers 0 rs (any_of_init (length rs)) in
      if ao_ret s \<noteq> None then resume_any False s
      else if c then resume_any True s
      else s\<lparr>ao_suspended := True\<rparr>)"

text \<open>
  The task in wrapper \<open>i\<close>, which suspended, comes to \<open>r\<close>, and the wrapper goes on.  \<open>None\<close>: there is no such
  wrapper.
\<close>

definition task_ends :: "bool \<Rightarrow> nat \<Rightarrow> 'v result \<Rightarrow> 'v any_of \<Rightarrow> 'v any_of option" where
  "task_ends c i r s =
     (if i \<ge> length (ao_handles s) then None
      else
        (case ao_handles s ! i of
           Waiting canceled \<Rightarrow>
             if canceled then Some (set_wrapper i Freed s)
             else
               (case r of
                  NoResult \<Rightarrow> None
                | Exc x \<Rightarrow> Some (set_wrapper i (Finished (Some x)) s)
                | Val v \<Rightarrow>
                    (let s1 = (set_wrapper i (Running False) s)\<lparr>ao_ret := Some (i, v)\<rparr>;
                         s2 = (if ao_suspended s1 then resume_any c s1 else s1)
                     in Some (set_wrapper i (end_wrapper None (ao_handles s2 ! i)) s2)))
         | _ \<Rightarrow> None))"

fun tasks_end :: "(bool \<times> nat \<times> 'v result) list \<Rightarrow> 'v any_of \<Rightarrow> 'v any_of option" where
  "tasks_end [] s = Some s"
| "tasks_end ((c, i, r) # es) s = Option.bind (task_ends c i r s) (tasks_end es)"

subsection \<open>What it returns\<close>

text \<open>The first task to succeed decides.\<close>

fun outcome :: "(bool \<times> nat \<times> 'v result) list \<Rightarrow> (nat \<times> 'v) result" where
  "outcome [] = NoResult"
| "outcome ((c, i, Val v) # es) = (if c then Exc CanceledException else Val (i, v))"
| "outcome (e # es) = outcome es"

definition starts :: "nat \<Rightarrow> 'v result list \<Rightarrow> (bool \<times> nat \<times> 'v result) list" where
  "starts i rs = map (\<lambda>(j, r). (False, j, r)) (zip [i..<i + length rs] rs)"

lemma starts_simps [simp]:
  "starts i [] = []" "starts i (r # rs) = (False, i, r) # starts (Suc i) rs"
  by (simp_all add: starts_def upt_conv_Cons del: upt_Suc)

lemma outcome_append: "outcome (es @ fs) = (case outcome es of NoResult \<Rightarrow> outcome fs | r \<Rightarrow> r)"
  by (induction es rule: outcome.induct) auto

text \<open>While \<open>AnyOf\<close> waits, nobody has succeeded; once it has ended, its wrappers are canceled or gone.\<close>

fun active :: "wrapper \<Rightarrow> bool" where
  "active (Waiting c) = (\<not> c)"
| "active (Finished _) = True"
| "active _ = False"

fun inert :: "wrapper \<Rightarrow> bool" where
  "inert (Waiting c) = c"
| "inert Freed = True"
| "inert _ = False"

definition any_inv :: "(nat \<times> 'v) result \<Rightarrow> 'v any_of \<Rightarrow> bool" where
  "any_inv r s \<longleftrightarrow>
     ao_result s = r \<and>
     (if ao_suspended s then r = NoResult \<and> ao_ret s = None \<and> list_all active (ao_handles s)
      else r \<noteq> NoResult \<and> list_all inert (ao_handles s))"

lemma set_wrapper_simps [simp]:
  "ao_ret (set_wrapper i w s) = ao_ret s" "ao_suspended (set_wrapper i w s) = ao_suspended s"
  "ao_result (set_wrapper i w s) = ao_result s" "ao_handles (set_wrapper i w s) = (ao_handles s)[i := w]"
  by (simp_all add: set_wrapper_def)

lemma list_all_update: "list_all P xs \<Longrightarrow> P x \<Longrightarrow> list_all P (xs[i := x])"
  by (auto simp: list_all_iff dest!: subsetD[OF set_update_subset_insert])

lemma run_wrapper_simps [simp]:
  "ao_suspended (run_wrapper i r s) = ao_suspended s" "ao_result (run_wrapper i r s) = ao_result s"
  "length (ao_handles (run_wrapper i r s)) = length (ao_handles s)"
  by (auto simp: run_wrapper_def split: result.split)

lemma run_wrapper_active:
  assumes "i < length (ao_handles s)" "list_all active (take i (ao_handles s))"
  shows "list_all active (take (Suc i) (ao_handles (run_wrapper i r s)))"
proof -
  have "take (Suc i) ((ao_handles s)[i := w]) = take i (ao_handles s) @ [w]" for w
    using assms(1) by (simp add: take_Suc_conv_app_nth)
  then show ?thesis using assms(2) by (auto simp: run_wrapper_def split: result.split)
qed

abbreviation ret_result :: "'v any_of \<Rightarrow> (nat \<times> 'v) result" where
  "ret_result s \<equiv> (case ao_ret s of None \<Rightarrow> NoResult | Some p \<Rightarrow> Val p)"

lemma run_wrappers_spec:
  assumes "length (ao_handles s) = i + length rs" "ao_result s = NoResult" "\<not> ao_suspended s"
    "list_all active (take i (ao_handles s))"
  shows "list_all active (ao_handles (run_wrappers i rs s)) \<and> ao_result (run_wrappers i rs s) = NoResult \<and>
         \<not> ao_suspended (run_wrappers i rs s) \<and>
         ret_result (run_wrappers i rs s) = (case ao_ret s of None \<Rightarrow> outcome (starts i rs) | Some p \<Rightarrow> Val p)"
  using assms
proof (induction i rs s rule: run_wrappers.induct)
  case (1 i s)
  then show ?case by (simp split: option.split)
next
  case (2 i r rs s)
  let ?s = "run_wrapper i r s"
  have "ret_result (run_wrappers (Suc i) rs ?s) =
      (case ao_ret ?s of None \<Rightarrow> outcome (starts (Suc i) rs) | Some p \<Rightarrow> Val p)"
    and act: "list_all active (ao_handles (run_wrappers (Suc i) rs ?s))"
      "ao_result (run_wrappers (Suc i) rs ?s) = NoResult" "\<not> ao_suspended (run_wrappers (Suc i) rs ?s)"
    using "2.IH" "2.prems" run_wrapper_active[of i s r] by simp_all
  moreover have "(case ao_ret ?s of None \<Rightarrow> outcome (starts (Suc i) rs) | Some p \<Rightarrow> Val p) =
      (case ao_ret s of None \<Rightarrow> outcome (starts i (r # rs)) | Some p \<Rightarrow> Val p)"
    by (cases r; cases "ao_ret s") (simp_all add: run_wrapper_def)
  ultimately show ?case by simp
qed

lemma drop_active: "active w \<Longrightarrow> inert (drop_wrapper w)"
  by (cases w) auto

lemma start_any_of_inv:
  "any_inv (case outcome (starts 0 rs) of NoResult \<Rightarrow> if c then Exc CanceledException else NoResult | r \<Rightarrow> r)
     (start_any_of c rs)"
proof -
  let ?s = "run_wrappers 0 rs (any_of_init (length rs))"
  have s: "list_all active (ao_handles ?s)" "ao_result ?s = NoResult" "\<not> ao_suspended ?s"
    "ret_result ?s = outcome (starts 0 rs)"
    using run_wrappers_spec[of "any_of_init (length rs)" 0 rs] by (simp_all add: any_of_init_def)
  then have "list_all inert (map drop_wrapper (ao_handles ?s))" by (auto simp: list_all_iff drop_active)
  then show ?thesis using s
    by (cases "ao_ret ?s"; cases "outcome (starts 0 rs)") (auto simp: start_any_of_def any_inv_def resume_any_def end_any_def Let_def)
qed

lemma task_ends_inv:
  assumes "any_inv r s" "task_ends c i q s = Some s'"
  shows "any_inv (case r of NoResult \<Rightarrow> outcome [(c, i, q)] | _ \<Rightarrow> r) s'"
proof -
  obtain cn where i: "i < length (ao_handles s)" "ao_handles s ! i = Waiting cn"
    using assms(2) by (auto simp: task_ends_def split: if_splits wrapper.splits)
  show ?thesis
  proof (cases "ao_suspended s")
    case False
    then have "inert (ao_handles s ! i)" using assms(1) i(1) by (simp add: any_inv_def list_all_length)
    then have "s' = set_wrapper i Freed s" using assms(2) i by (simp add: task_ends_def)
    then show ?thesis using assms(1) False
      by (cases r) (auto simp: any_inv_def list_all_update)
  next
    case True
    then have r: "r = NoResult" "ao_result s = NoResult" "list_all active (ao_handles s)" "ao_ret s = None"
      using assms(1) by (simp_all add: any_inv_def)
    then have "active (ao_handles s ! i)" using i(1) by (simp add: list_all_length)
    then have cn: "\<not> cn" using i(2) by simp
    show ?thesis
    proof (cases q)
      case (Val v)
      have "list_all inert ((map drop_wrapper ((ao_handles s)[i := Running False]))[i := Freed])"
        using r(3) i(1) drop_active by (auto simp: list_all_length nth_list_update)
      then show ?thesis using assms(2) True r i cn Val
        by (auto simp: task_ends_def any_inv_def resume_any_def end_any_def Let_def map_update)
    next
      case (Exc x)
      then show ?thesis using assms(2) True r i cn
        by (auto simp: task_ends_def any_inv_def list_all_update)
    qed (use assms(2) i cn in \<open>simp add: task_ends_def\<close>)
  qed
qed

text \<open>
  \<open>AnyOf\<close> returns the value and the index of the first task that succeeds, in the order in which
  they are started and then in the order in which they end, unless it finds itself canceled at that
  point; until then it stays suspended, and for ever when every task throws.  Once it has ended, the
  other tasks change nothing but their own wrappers.
\<close>

theorem any_of_first:
  assumes "tasks_end es (start_any_of c rs) = Some s"
  shows "any_inv (case outcome (starts 0 rs) of
                    NoResult \<Rightarrow> if c then Exc CanceledException else outcome es
                  | r \<Rightarrow> r) s"
proof -
  have "any_inv (case r of NoResult \<Rightarrow> outcome es | _ \<Rightarrow> r) s"
    if "any_inv r s0" "tasks_end es s0 = Some s" for r s0
    using that
  proof (induction es s0 arbitrary: r rule: tasks_end.induct)
    case (1 s0)
    then show ?case by (cases r) auto
  next
    case (2 c i q es s0)
    then obtain s1 where s1: "task_ends c i q s0 = Some s1" "tasks_end es s1 = Some s"
      by (auto split: Option.bind_splits)
    from "2.IH"[OF s1(1) task_ends_inv[OF "2.prems"(1) s1(1)] s1(2)] show ?case
      using outcome_append[of "[(c, i, q)]" es] by (cases r; cases "outcome [(c, i, q)]") simp_all
  qed
  from this[OF start_any_of_inv assms] show ?thesis
    by (cases "outcome (starts 0 rs)") auto
qed

theorem any_of_first_witness:
  "\<exists>s. tasks_end [(False, 2, Exc OtherException), (False, 0, Val 5), (False, 1, Val (7 :: int))]
         (start_any_of False [NoResult, NoResult, NoResult]) = Some s \<and> ao_result s = Val (0, 5)"
proof -
  have "tasks_end [(False, 2, Exc OtherException), (False, 0, Val 5), (False, 1, Val (7 :: int))]
      (start_any_of False [NoResult, NoResult, NoResult]) \<noteq> None"
    by code_simp
  then obtain s where s: "tasks_end [(False, 2, Exc OtherException), (False, 0, Val 5), (False, 1, Val (7 :: int))]
      (start_any_of False [NoResult, NoResult, NoResult]) = Some s"
    by blast
  from any_of_first[OF s] have "ao_result s = Val (0, 5)" by (simp add: any_inv_def)
  with s show ?thesis by blast
qed

text \<open>A task after one that succeeds at once is never started.\<close>

lemma later_tasks_not_started:
  "ao_ret s \<noteq> None \<Longrightarrow> run_wrappers i rs s = run_wrappers i (replicate (length rs) NoResult) s"
proof (induction i rs s rule: run_wrappers.induct)
  case (2 i r rs s)
  then have "run_wrapper i r s = run_wrapper i NoResult s" "ao_ret (run_wrapper i NoResult s) \<noteq> None"
    by (auto simp: run_wrapper_def)
  with 2(1) show ?case by simp
qed simp

end
