(* ===== verification/Spec2Isabelle.thy ===== *)
theory Spec2Isabelle
  imports Switches Xml_Game Xml_Api Cmd_Buffers Wire System Logging Echo Mempool_Spec Task_Spec Any_Of
begin

text \<open>
  A model of the native core of Veridie, a dice game several phones play over Bluetooth, with the
  theorems that make it correct.

  The program.  The Java side of the application calls the core (src/lib/core) through a bridge with
  events (device connected, message received, ...), with the responses to commands, and from a worker
  thread that runs delayed tasks.  The core is a controller (ctrl/controller.cpp) that owns one state
  object at a time (fsm/: Idle, Connecting, Negotiating, Playing).  The objects react to events by
  coroutines, which issue commands through a command manager (sign/commandmanager.cpp) and wait for
  their responses or for timers (ctrl/timer.cpp).  Messages between phones are XML (dice/serializer.cpp
  over dice/xmlparser.hpp).  Commands live in memory pools (src/lib/utils, mempool.hpp) and keep the text
  of their arguments in fixed buffers, which the bridge (dispatch/src/android) reads and passes to Java
  as C strings.  Two worker threads, one for Java's native interface and one for the controller, carry
  all of it.

  The theories, in the order of their imports, and what they model:
  \<^item> Prelude: machine integers, the outcome type (a value, an exception, or undefined behaviour), and
    the contract \<open>table\<close> of the standard library's maps, with association lists for unordered maps and
    ordered ones for \<open>std::map\<close>.
  \<^item> Dice (dice/cast.hpp, dice/engine.cpp, include/dice/serializer.hpp): casts, the counting of
    successes, the random engine over an arbitrary stream of raw words, the four messages.
  \<^item> Text_Conv: \<open>std::to_string\<close>, \<open>std::stoul\<close>, \<open>std::stoi\<close> and the character classes they need.
  \<^item> Fmt (utils/format.cpp, utils/format.hpp, dice/cast.cpp): \<open>Format\<close> on spans of an explicit array.
    The locale \<open>writer\<close> is the contract between \<open>Format\<close> and the overloads of \<open>WriteAsText\<close>; the texts,
    numbers, booleans and casts interpret it.
  \<^item> Cmd_Types and Cmd_Buffers (sign/cmd.hpp, sign/commands.hpp, sign/commands.cpp): the commands, their
    identifiers and dictionaries, and the buffers a command fills and \<open>GetArgAt\<close> reads.  Whether a plain
    \<open>char\<close> is signed is an argument, since the code depends on it.
  \<^item> Cmd_Manager (sign/commandmanager.cpp): the table of pending commands.  The invokers of the Java
    side are a function that accepts or refuses the \<open>n\<close>-th call.
  \<^item> Worker (dispatch/src/common/worker.cpp): the task queue as a step relation of submitting threads
    and the worker thread; conditions on which a thread waits are the enabledness of its step.
  \<^item> Java_Call (dispatch/src/android/javainvoker.cpp): \<open>PassCommand\<close> as the trace of its calls of the
    native interface, with what reading an argument as a C string yields.
  \<^item> Logging (utils/log.cpp, utils/log.hpp): the text of a log line in
    its array of 512 characters and the function it is handed to.
  \<^item> Pool_Builder, Mempool and Mempool_Spec (utils/poolbuilder.hpp, utils/mempool.hpp): the block sizes
    of a pool, the operations on its blocks and their contract \<open>object_pool\<close>.  Pointers may die on other
    threads between any two looks an operation takes at a block.
  \<^item> Tasks and Task_Spec (utils/task.hpp, utils/taskowner.hpp): promises on a heap, handles, \<open>co_await\<close>
    and cancellation, and their abstraction to chains of continuations.
  \<^item> Any_Of (utils/taskutils.hpp): \<open>AnyOf\<close>, the first of several tasks; the program does not use it yet.
  \<^item> Fsm_Base (fsm/context.hpp, ctrl/commandadapter.cpp, ctrl/timer.cpp): what the state objects share.
    A coroutine that waits is a \<open>frame\<close>, its program point with the local variables it still needs,
    tagged with the serial number of the object that started it.
  \<^item> State_Object: the locales \<open>state_object\<close> and \<open>fsm_state_object\<close>, the contract between a state object
    and the controller, which the next four theories interpret.
  \<^item> Fsm_Idle, Fsm_Connecting, Fsm_Negotiating, Fsm_Playing: one theory per file of fsm/, one definition
    per virtual function, coroutine and continuation after a \<open>co_await\<close>.
  \<^item> Events (sign/events.cpp): the ten event handlers, which decode the arguments of an event.
  \<^item> Controller and Runs (ctrl/controller.cpp): start, events, responses, timers, the switch of state, and
    the runs of the controller as the transitive closure of its steps.
  \<^item> Switches (fsm/context.hpp and its uses): which state asks for which switch, and when it happens.
  \<^item> Bridge (dispatch/src/android/jniexec.cpp, javainvoker.cpp, dispatch/src/common/mainexec.cpp): Java's
    calls, the tasks of the two workers and the lifetime of the invokers, as a step relation.  The
    locale \<open>fifo\<close> is the contract of a queue between producers and a consumer; the events on their way to
    the controller and the commands on their way to Java interpret it.
  \<^item> System: Bridge and Controller together; the main worker runs the controller one task at a time, and
    the commands it issues are the calls of the invokers the bridge sees.
  \<^item> Echo (ctrl/echocontroller.cpp): the controller of the test build.
  \<^item> Negotiation: rounds of a negotiation among several devices.
  \<^item> Xml and Xml_Roundtrip (dice/xmlparser.hpp): parser and printer; a pointer into the text is the rest
    of the text, so reading past its end is visible as undefined behaviour.
  \<^item> Xml_Api (dice/xmlparser.hpp): the rest of the interface of \<open>Element\<close> and \<open>Document\<close>: positional access,
    namespaces, copies, streams.
  \<^item> Serializer and Xml_Game: the four message formats, with the contract \<open>codec\<close>, and the protocols of
    Negotiation and Fsm_Playing run over the real serializer.
  \<^item> Wire: a message from the serializer through the buffers of a command into the bridge.

  What the properties show, by group.
  \<^item> Protocols: devices that know each other agree on one generator after at most two exchanges of
    offers; a cast request sent through the serializer is answered by a response that settles it.
  \<^item> Runs of the controller: the invariant of the manager's table, the timers and the waiting
    coroutines; no task of an object runs twice; each response is consumed by the command it answers;
    objects that were replaced never act again; the states are switched along the edges of the state
    machine, in the order in which the switches were asked for, which nothing takes back.  The theorems on Tasks justify how the state machine
    treats coroutines: awaiting a task is running it in place, and a task whose handle died is inert.
  \<^item> The whole core: in every interleaving of Java's threads and the two workers the system does what the
    controller alone would do with Java's calls in their order, and Java gets exactly its commands, so
    what is proved of the runs of the controller holds of the system; in normal operation nothing
    gets stuck.  Also: which commands fail after a second \<open>bridgeReady\<close>, what becomes of an event that
    comes too early, which texts \<open>PassCommand\<close> hands over unchanged, and which make it read behind its
    buffer.
  \<^item> Round trips: XML elements, messages, command arguments, messages on their way into the bridge,
    events through the echo controller; as lemmas, entity references and event arguments.
  \<^item> The type of XML elements: what the interface builds is well formed, and positional access and
    copies do what the list of attributes and children says.
  \<^item> Containers: pools never place two objects in one block and end no life on their own; the worker
    runs the tasks of a class with due times that never decrease in the order of submission; buffers and
    log lines are never left, and what does not fit is cut off as stated.
  \<^item> Termination and bounds: the loop of \<open>DisconnectDevice\<close>, the sizes after \<open>Resize\<close>, the length limit of
    \<open>ShowResponse\<close>; as lemmas, the draining of the manager (\<open>manager_drain_terminates\<close>), the retries of
    the Connecting state (\<open>conn_retries_decrease\<close>) and the length limit of \<open>SendLongMessage\<close>
    (\<open>long_message_arg\<close>).

  Fuel and bounds.  \<open>manager_drain\<close> takes fuel, and as much as there are entries is proved enough.
  \<open>resume_task\<close> takes fuel for the coroutines that end in a row, and their number is proved enough.  The
  loop of \<open>DisconnectDevice\<close> in the Negotiating state may run forever and is a partial function; exactly
  when it returns is a theorem.  Everything else terminates by its own measure.  Round numbers, dice
  values, thresholds and counts have their width in bits; block counts are cast to \<open>int\<close> as in the code.

  Not modelled.
  \<^item> The functions of Java's native interface (JNIEnv, JavaVM), which are third-party code: they are
    parameters of the bridge or events of its traces.  \<open>JNI_OnLoad\<close> also installs the log handlers of
    Android, which Logging takes as given.
  \<^item> Running out of memory; exceptions of the allocator.
  \<^item> The instances of xmlparser.hpp for wide characters, which nothing uses.
  \<^item> Executors other than \<open>InlineExecutor\<close>, of which there are none.  The detached coroutines are the
    frame of \<open>SwitchToState\<close> and the tasks of the bridge's workers, not coroutines of Tasks.
  \<^item> Format arguments of floating-point type, which nothing passes.
\<close>

end
